(* ===== verification/Prelude.thy ===== *)
theory Prelude
  imports Main "HOL-Library.Word" "HOL-Library.Multiset"
begin

text \<open>
  Shared vocabulary of the development: how Go's run-time failures, error values, slices and
  maps are written in HOL, and the generic facts about lists, sorting and majorities that the
  component theories use.

  \<^item> A Go panic and a Go error value are both constructors of \<open>go_error\<close>; an operation that
    can fail returns \<open>'a res\<close>, that is \<open>go_error + 'a\<close>.
  \<^item> \<open>slice_to\<close>, \<open>slice_from\<close> and \<open>index_at\<close> are the slice expressions \<open>s[:k]\<close>, \<open>s[k:]\<close>
    and \<open>s[k]\<close> with an \<open>int\<close> index; an index out of range is a panic.
  \<^item> \<open>get0\<close> is a read of a Go map with numeric values: an absent key reads as 0.
  \<^item> Go's \<open>int\<close> and \<open>int64\<close> counters (terms, log indices, sequence numbers, versions) are
    \<open>int\<close>; fixed-width words are used where the code computes modulo \<open>2^32\<close> or on bit masks.
\<close>

named_theorems raft_defs \<open>unfolding rules of the Raft node operations\<close>
named_theorems inv_intros \<open>one-step preservation lemmas\<close>

section \<open>Failures\<close>

datatype go_error = Panic string | Error string

type_synonym 'a res = "go_error + 'a"

definition bind_res :: "'a res \<Rightarrow> ('a \<Rightarrow> 'b res) \<Rightarrow> 'b res" where
  "bind_res m f = (case m of Inl e \<Rightarrow> Inl e | Inr a \<Rightarrow> f a)"

lemma bind_res_simps [simp]:
  "bind_res (Inl e) f = Inl e"
  "bind_res (Inr a) f = f a"
  by (simp_all add: bind_res_def)

lemma bind_res_eq_Inr [simp]:
  "bind_res m f = Inr b \<longleftrightarrow> (\<exists>a. m = Inr a \<and> f a = Inr b)"
  by (cases m) simp_all

lemma map_sum_id_eq_Inr [simp]:
  "map_sum id f m = Inr b \<longleftrightarrow> (\<exists>a. m = Inr a \<and> b = f a)"
  by (cases m) auto

section \<open>Slices\<close>

definition slice_to :: "'a list \<Rightarrow> int \<Rightarrow> 'a list res" where
  "slice_to xs k =
     (if 0 \<le> k \<and> k \<le> int (length xs) then Inr (take (nat k) xs)
      else Inl (Panic ''slice bounds out of range''))"

definition slice_from :: "'a list \<Rightarrow> int \<Rightarrow> 'a list res" where
  "slice_from xs k =
     (if 0 \<le> k \<and> k \<le> int (length xs) then Inr (drop (nat k) xs)
      else Inl (Panic ''slice bounds out of range''))"

definition index_at :: "'a list \<Rightarrow> int \<Rightarrow> 'a res" where
  "index_at xs k =
     (if 0 \<le> k \<and> k < int (length xs) then Inr (xs ! nat k)
      else Inl (Panic ''index out of range''))"

lemma slice_to_Inr: "slice_to xs k = Inr ys \<longleftrightarrow> 0 \<le> k \<and> k \<le> int (length xs) \<and> ys = take (nat k) xs"
  by (auto simp: slice_to_def)

lemma slice_from_Inr: "slice_from xs k = Inr ys \<longleftrightarrow> 0 \<le> k \<and> k \<le> int (length xs) \<and> ys = drop (nat k) xs"
  by (auto simp: slice_from_def)

lemma index_at_Inr: "index_at xs k = Inr y \<longleftrightarrow> 0 \<le> k \<and> k < int (length xs) \<and> y = xs ! nat k"
  by (auto simp: index_at_def)

lemmas slice_iffs = slice_to_Inr slice_from_Inr index_at_Inr

section \<open>Maps\<close>

definition get0 :: "('k \<rightharpoonup> int) \<Rightarrow> 'k \<Rightarrow> int" where
  "get0 m k = (case m k of None \<Rightarrow> 0 | Some v \<Rightarrow> v)"

lemma get0_upd [simp]: "get0 (m(k \<mapsto> v)) k' = (if k' = k then v else get0 m k')"
  by (simp add: get0_def)

lemma get0_empty [simp]: "get0 Map.empty k = 0"
  by (simp add: get0_def)

section \<open>Majorities\<close>

text \<open>Two sets of more than half of a finite set share an element.\<close>

lemma majorities_meet:
  assumes "finite E" "S \<subseteq> E" "T \<subseteq> E"
    and "card E div 2 < card S" "card E div 2 < card T"
  obtains x where "x \<in> S" "x \<in> T"
proof -
  have "finite S" "finite T" using assms finite_subset by auto
  have "S \<inter> T \<noteq> {}"
  proof
    assume "S \<inter> T = {}"
    then have "card (S \<union> T) = card S + card T"
      using \<open>finite S\<close> \<open>finite T\<close> by (simp add: card_Un_disjoint)
    moreover have "card (S \<union> T) \<le> card E" using assms by (auto intro: card_mono)
    ultimately show False using assms(4,5) by linarith
  qed
  then show ?thesis using that by blast
qed

section \<open>Order statistics\<close>

text \<open>
  After sorting downwards, position \<open>k\<close> holds the largest value that at least \<open>k + 1\<close>
  elements reach: this is how the commit rule reads a quorum off the sorted match indices.
\<close>

definition sort_desc :: "'a::linorder list \<Rightarrow> 'a list" where
  "sort_desc xs = rev (sort xs)"

lemma mset_sort_desc [simp]: "mset (sort_desc xs) = mset xs"
  by (simp add: sort_desc_def)

lemma length_sort_desc [simp]: "length (sort_desc xs) = length xs"
  by (simp add: sort_desc_def)

lemma set_sort_desc [simp]: "set (sort_desc xs) = set xs"
  by (simp add: sort_desc_def)

lemma sort_desc_antimono:
  "i \<le> j \<Longrightarrow> j < length xs \<Longrightarrow> sort_desc xs ! j \<le> sort_desc xs ! i"
  by (simp add: sort_desc_def rev_nth sorted_nth_mono)

lemma length_filter_mset: "mset xs = mset ys \<Longrightarrow> length (filter P xs) = length (filter P ys)"
  by (metis mset_filter size_mset)

lemma card_nth_le_length_filter:
  "card {i. i < length xs \<and> P (xs ! i)} = length (filter P xs)"
  by (simp add: length_filter_conv_card)

lemma sort_desc_nth_count:
  assumes "k < length xs"
  shows "k < length (filter (\<lambda>x. sort_desc xs ! k \<le> x) xs)"
proof -
  let ?ys = "sort_desc xs"
  have "{..k} \<subseteq> {i. i < length ?ys \<and> ?ys ! k \<le> ?ys ! i}"
    using assms sort_desc_antimono by auto
  then have "card {..k} \<le> card {i. i < length ?ys \<and> ?ys ! k \<le> ?ys ! i}"
    by (intro card_mono) auto
  then have "k < length (filter (\<lambda>x. ?ys ! k \<le> x) ?ys)"
    by (simp add: card_nth_le_length_filter del: length_sort_desc)
  then show ?thesis
    using length_filter_mset [OF mset_sort_desc] by metis
qed

lemma sort_desc_nth_maximal:
  assumes "k < length xs" and "k < length (filter (\<lambda>x. n \<le> x) xs)"
  shows "n \<le> sort_desc xs ! k"
proof (rule ccontr)
  let ?ys = "sort_desc xs"
  assume "\<not> n \<le> ?ys ! k"
  then have "\<And>i. i < length ?ys \<Longrightarrow> n \<le> ?ys ! i \<Longrightarrow> i < k"
    using sort_desc_antimono [of k _ xs] by (metis length_sort_desc linorder_not_less order_trans)
  then have "{i. i < length ?ys \<and> n \<le> ?ys ! i} \<subseteq> {..<k}" by auto
  then have "card {i. i < length ?ys \<and> n \<le> ?ys ! i} \<le> k"
    using card_mono [of "{..<k}"] by fastforce
  then have "length (filter (\<lambda>x. n \<le> x) ?ys) \<le> k"
    by (simp add: card_nth_le_length_filter del: length_sort_desc)
  then show False
    using assms(2) length_filter_mset [OF mset_sort_desc [of xs]] by (metis not_le)
qed

end
