(* ===== verification/Raft_Node.thy ===== *)
theory Raft_Node
  imports Prelude
begin

text \<open>
  One Raft node (package \<open>src/01-raft\<close>): its state, the three RPC handlers, the role
  transitions, log access through a compacted prefix, the commit rule, the apply loop, the
  snapshot operations and persistence against an in-memory persister. Every definition is one
  section of the code that runs under \<open>r.mu\<close>; a function that releases the lock around an RPC
  is two definitions, one for the section before the call and one for the section after it.

  Simplifications of representation, none of behaviour: the state machine's command is the type
  parameter \<open>'c\<close>, its serialized snapshot the type parameter \<open>'d\<close> (\<open>None\<close> is the empty byte
  slice); a gob-encoded \<open>persistedState\<close> is that record itself, since encoding followed by
  decoding is the identity on it. \<open>ApplyMsg\<close>, of whose two validity flags exactly one is ever
  set, is a datatype with two constructors.
\<close>

section \<open>State\<close>

datatype serverState = Follower | Candidate | Leader

record 'c LogEntry =
  entryTerm :: int
  entryCommand :: 'c

record RequestVoteArgs =
  rvTerm :: int
  rvCandidateID :: int
  rvLastLogIndex :: int
  rvLastLogTerm :: int

record RequestVoteReply =
  rvrTerm :: int
  rvrVoteGranted :: bool

record 'c AppendEntriesArgs =
  aeTerm :: int
  aeLeaderID :: int
  aePrevLogIndex :: int
  aePrevLogTerm :: int
  aeEntries :: "'c LogEntry list"
  aeLeaderCommit :: int

record AppendEntriesReply =
  aerTerm :: int
  aerSuccess :: bool

record 'd InstallSnapshotArgs =
  isTerm :: int
  isLeaderID :: int
  isLastIncludedIndex :: int
  isLastIncludedTerm :: int
  isData :: "'d option"

record InstallSnapshotReply =
  isrTerm :: int

datatype ('c, 'd) ApplyMsg =
    CommandMsg (msgIndex: int) (msgTerm: int) (msgCommand: 'c)
  | SnapshotMsg (msgSnapshot: "'d option") (msgSnapshotIndex: int) (msgSnapshotTerm: int)

record 'c persistedState =
  CurrentTerm :: int
  VotedFor :: int
  Log :: "'c LogEntry list"
  LastIncludedIndex :: int
  LastIncludedTerm :: int

record ('c, 'd) MemoryPersister =
  pstate :: "'c persistedState option"
  psnapshot :: "'d option"

record ('c, 'd) Raft =
  rid :: int
  peers :: "int list"
  persister :: "('c, 'd) MemoryPersister option"
  state :: serverState
  currentTerm :: int
  votedFor :: int
  log :: "'c LogEntry list"
  lastIncludedIndex :: int
  lastIncludedTerm :: int
  snapshotData :: "'d option"
  commitIndex :: int
  lastApplied :: int
  pendingSnapshot :: "('c, 'd) ApplyMsg option"
  nextIndex :: "int \<rightharpoonup> int"
  matchIndex :: "int \<rightharpoonup> int"
  ApplyCh :: "('c, 'd) ApplyMsg list"
  resetElectionTimer :: bool

section \<open>Persistence\<close>

definition NewMemoryPersister :: "('c, 'd) MemoryPersister" where
  "NewMemoryPersister = \<lparr>pstate = None, psnapshot = None\<rparr>"

definition SaveState :: "'c persistedState \<Rightarrow> ('c, 'd) MemoryPersister \<Rightarrow> ('c, 'd) MemoryPersister" where
  "SaveState st p = p\<lparr>pstate := Some st\<rparr>"

definition ReadState :: "('c, 'd) MemoryPersister \<Rightarrow> 'c persistedState option" where
  "ReadState p = pstate p"

definition SaveStateAndSnapshot ::
    "'c persistedState \<Rightarrow> 'd option \<Rightarrow> ('c, 'd) MemoryPersister \<Rightarrow> ('c, 'd) MemoryPersister" where
  "SaveStateAndSnapshot st snap p = p\<lparr>pstate := Some st, psnapshot := snap\<rparr>"

definition ReadPersistedSnapshot :: "('c, 'd) MemoryPersister \<Rightarrow> 'd option" where
  "ReadPersistedSnapshot p = psnapshot p"

definition encodeStateLocked :: "('c, 'd) Raft \<Rightarrow> 'c persistedState" where
  "encodeStateLocked r =
     \<lparr>CurrentTerm = currentTerm r, VotedFor = votedFor r, Log = log r,
      LastIncludedIndex = lastIncludedIndex r, LastIncludedTerm = lastIncludedTerm r\<rparr>"

definition persistLocked :: "('c, 'd) Raft \<Rightarrow> ('c, 'd) Raft" where
  "persistLocked r =
     (case persister r of
        None \<Rightarrow> r
      | Some p \<Rightarrow> r\<lparr>persister := Some (SaveState (encodeStateLocked r) p)\<rparr>)"

definition persistSnapshotLocked :: "'d option \<Rightarrow> ('c, 'd) Raft \<Rightarrow> ('c, 'd) Raft" where
  "persistSnapshotLocked snap r =
     (case persister r of
        None \<Rightarrow> r
      | Some p \<Rightarrow> r\<lparr>persister := Some (SaveStateAndSnapshot (encodeStateLocked r) snap p)\<rparr>)"

definition restoreLocked :: "('c, 'd) Raft \<Rightarrow> ('c, 'd) Raft" where
  "restoreLocked r =
     (case persister r of
        None \<Rightarrow> r
      | Some p \<Rightarrow>
         (case ReadState p of
            None \<Rightarrow> r
          | Some st \<Rightarrow>
             (let r1 = r\<lparr>currentTerm := CurrentTerm st, votedFor := VotedFor st, log := Log st,
                         lastIncludedIndex := LastIncludedIndex st,
                         lastIncludedTerm := LastIncludedTerm st\<rparr>;
                  r2 = (if lastIncludedIndex r1 > 0
                        then r1\<lparr>snapshotData := ReadPersistedSnapshot p\<rparr> else r1);
                  r3 = (if lastIncludedIndex r2 > commitIndex r2
                        then r2\<lparr>commitIndex := lastIncludedIndex r2\<rparr> else r2)
              in if lastIncludedIndex r3 > lastApplied r3
                 then r3\<lparr>lastApplied := lastIncludedIndex r3\<rparr> else r3)))"

definition newRaft :: "int \<Rightarrow> int list \<Rightarrow> ('c, 'd) MemoryPersister option \<Rightarrow> ('c, 'd) Raft" where
  "newRaft i ps p = restoreLocked
     \<lparr>rid = i, peers = ps, persister = p, state = Follower, currentTerm = 0, votedFor = -1,
      log = [], lastIncludedIndex = 0, lastIncludedTerm = 0, snapshotData = None,
      commitIndex = 0, lastApplied = 0, pendingSnapshot = None,
      nextIndex = Map.empty, matchIndex = Map.empty, ApplyCh = [], resetElectionTimer = False\<rparr>"

definition NewRaft :: "int \<Rightarrow> int list \<Rightarrow> ('c, 'd) Raft" where
  "NewRaft i ps = newRaft i ps None"

definition NewRaftWithPersister :: "int \<Rightarrow> int list \<Rightarrow> ('c, 'd) MemoryPersister \<Rightarrow> ('c, 'd) Raft" where
  "NewRaftWithPersister i ps p = newRaft i ps (Some p)"

section \<open>Log access\<close>

definition lastLogInfoLocked :: "('c, 'd) Raft \<Rightarrow> int \<times> int" where
  "lastLogInfoLocked r =
     (if log r = [] then (lastIncludedIndex r, lastIncludedTerm r)
      else (lastIncludedIndex r + int (length (log r)), entryTerm (last (log r))))"

definition candidateLogIsUpToDateLocked :: "int \<Rightarrow> int \<Rightarrow> ('c, 'd) Raft \<Rightarrow> bool" where
  "candidateLogIsUpToDateLocked candidateLastIndex candidateLastTerm r =
     (case lastLogInfoLocked r of (myLastIndex, myLastTerm) \<Rightarrow>
        if candidateLastTerm \<noteq> myLastTerm then candidateLastTerm > myLastTerm
        else candidateLastIndex \<ge> myLastIndex)"

definition physicalIndexLocked :: "int \<Rightarrow> ('c, 'd) Raft \<Rightarrow> int" where
  "physicalIndexLocked index r = index - lastIncludedIndex r - 1"

definition termAtLocked :: "int \<Rightarrow> ('c, 'd) Raft \<Rightarrow> int option" where
  "termAtLocked index r =
     (if index = lastIncludedIndex r then Some (lastIncludedTerm r)
      else if index \<le> lastIncludedIndex r then None
      else let physIdx = physicalIndexLocked index r in
        if physIdx < 0 \<or> physIdx \<ge> int (length (log r)) then None
        else Some (entryTerm (log r ! nat physIdx)))"

section \<open>Role transitions\<close>

definition ResetElectionTimer :: "('c, 'd) Raft \<Rightarrow> ('c, 'd) Raft" where
  "ResetElectionTimer r = r\<lparr>resetElectionTimer := True\<rparr>"

definition becomeFollowerLocked :: "int \<Rightarrow> ('c, 'd) Raft \<Rightarrow> ('c, 'd) Raft" where
  "becomeFollowerLocked t r =
     (let r1 = (if t > currentTerm r then r\<lparr>currentTerm := t, votedFor := -1\<rparr> else r)
      in persistLocked (r1\<lparr>state := Follower\<rparr>))"

definition becomeCandidateLocked :: "('c, 'd) Raft \<Rightarrow> ('c, 'd) Raft res" where
  "becomeCandidateLocked r =
     (if state r = Leader then Inl (Error ''invalid transition Leader -> Candidate'')
      else Inr (persistLocked
        (r\<lparr>state := Candidate, currentTerm := currentTerm r + 1, votedFor := rid r\<rparr>)))"

definition becomeLeaderLocked :: "('c, 'd) Raft \<Rightarrow> ('c, 'd) Raft res" where
  "becomeLeaderLocked r =
     (if state r \<noteq> Candidate then Inl (Error ''invalid transition to Leader'')
      else let r1 = r\<lparr>state := Leader\<rparr>;
               lastIndex = fst (lastLogInfoLocked r1)
           in Inr (r1\<lparr>nextIndex := map_of (map (\<lambda>p. (p, lastIndex + 1)) (peers r1)),
                      matchIndex := map_of (map (\<lambda>p. (p, 0)) (peers r1))\<rparr>))"

section \<open>Commit rule\<close>

definition commitCandidate :: "('c, 'd) Raft \<Rightarrow> int" where
  "commitCandidate r =
     (let matches = fst (lastLogInfoLocked r) # map (get0 (matchIndex r)) (peers r);
          majority = length matches div 2 + 1
      in sort_desc matches ! (majority - 1))"

definition advanceCommitIndexLocked :: "('c, 'd) Raft \<Rightarrow> ('c, 'd) Raft" where
  "advanceCommitIndexLocked r =
     (if state r \<noteq> Leader then r
      else let lastIndex = fst (lastLogInfoLocked r);
               candidate = commitCandidate r
           in if candidate > commitIndex r \<and> candidate \<ge> 1 \<and> candidate \<le> lastIndex \<and>
                 termAtLocked candidate r = Some (currentTerm r)
              then r\<lparr>commitIndex := candidate\<rparr> else r)"

definition Propose :: "'c \<Rightarrow> ('c, 'd) Raft \<Rightarrow> (int \<times> int \<times> bool) \<times> ('c, 'd) Raft" where
  "Propose command r =
     (if state r \<noteq> Leader then ((0, 0, False), r)
      else let r1 = persistLocked
                 (r\<lparr>log := log r @ [\<lparr>entryTerm = currentTerm r, entryCommand = command\<rparr>]\<rparr>);
               r2 = advanceCommitIndexLocked r1
           in ((lastIncludedIndex r2 + int (length (log r2)), currentTerm r2, True), r2))"

section \<open>RPC handlers\<close>

definition RequestVote :: "RequestVoteArgs \<Rightarrow> ('c, 'd) Raft \<Rightarrow> RequestVoteReply \<times> ('c, 'd) Raft" where
  "RequestVote args r =
     (let r1 = (if rvTerm args > currentTerm r then becomeFollowerLocked (rvTerm args) r else r)
      in if rvTerm args < currentTerm r1
         then (\<lparr>rvrTerm = currentTerm r1, rvrVoteGranted = False\<rparr>, r1)
         else let alreadyVotedForSomeoneElse =
                    (votedFor r1 \<noteq> -1 \<and> votedFor r1 \<noteq> rvCandidateID args);
                  logIsUpToDate =
                    candidateLogIsUpToDateLocked (rvLastLogIndex args) (rvLastLogTerm args) r1
              in if alreadyVotedForSomeoneElse \<or> \<not> logIsUpToDate
                 then (\<lparr>rvrTerm = currentTerm r1, rvrVoteGranted = False\<rparr>, r1)
                 else (\<lparr>rvrTerm = currentTerm r1, rvrVoteGranted = True\<rparr>,
                       ResetElectionTimer (persistLocked (r1\<lparr>votedFor := rvCandidateID args\<rparr>))))"

definition aeConsistent :: "'c AppendEntriesArgs \<Rightarrow> ('c, 'd) Raft \<Rightarrow> bool" where
  "aeConsistent args r \<longleftrightarrow>
     \<not> (aePrevLogIndex args > 0 \<and>
        (aePrevLogIndex args > fst (lastLogInfoLocked r) \<or>
         termAtLocked (aePrevLogIndex args) r \<noteq> Some (aePrevLogTerm args)))"

definition aeAppend :: "'c AppendEntriesArgs \<Rightarrow> ('c, 'd) Raft \<Rightarrow> ('c, 'd) Raft res" where
  "aeAppend args r =
     (if aeEntries args = [] then Inr r
      else bind_res (slice_to (log r) (physicalIndexLocked (aePrevLogIndex args) r + 1))
             (\<lambda>pre. Inr (persistLocked (r\<lparr>log := pre @ aeEntries args\<rparr>))))"

definition aeCommit :: "'c AppendEntriesArgs \<Rightarrow> ('c, 'd) Raft \<Rightarrow> ('c, 'd) Raft" where
  "aeCommit args r =
     (if aeLeaderCommit args > commitIndex r
      then let lastNewIndex = fst (lastLogInfoLocked r)
           in if aeLeaderCommit args < lastNewIndex
              then r\<lparr>commitIndex := aeLeaderCommit args\<rparr>
              else r\<lparr>commitIndex := lastNewIndex\<rparr>
      else r)"

definition AppendEntries ::
    "'c AppendEntriesArgs \<Rightarrow> ('c, 'd) Raft \<Rightarrow> (AppendEntriesReply \<times> ('c, 'd) Raft) res" where
  "AppendEntries args r =
     (if aeTerm args < currentTerm r
      then Inr (\<lparr>aerTerm = currentTerm r, aerSuccess = False\<rparr>, r)
      else let r1 = becomeFollowerLocked (aeTerm args) r
           in if \<not> aeConsistent args r1
              then Inr (\<lparr>aerTerm = currentTerm r1, aerSuccess = False\<rparr>, ResetElectionTimer r1)
              else bind_res (aeAppend args r1)
                     (\<lambda>r2. Inr (\<lparr>aerTerm = currentTerm r1, aerSuccess = True\<rparr>,
                                 ResetElectionTimer (aeCommit args r2))))"

definition InstallSnapshot ::
    "'d InstallSnapshotArgs \<Rightarrow> ('c, 'd) Raft \<Rightarrow> (InstallSnapshotReply \<times> ('c, 'd) Raft) res" where
  "InstallSnapshot args r =
     (if isTerm args < currentTerm r then Inr (\<lparr>isrTerm = currentTerm r\<rparr>, r)
      else let r1 = ResetElectionTimer (becomeFollowerLocked (isTerm args) r);
               reply = \<lparr>isrTerm = currentTerm r1\<rparr>
           in if isLastIncludedIndex args \<le> lastIncludedIndex r1 then Inr (reply, r1)
              else bind_res
                (if termAtLocked (isLastIncludedIndex args) r1 = Some (isLastIncludedTerm args)
                 then slice_from (log r1) (physicalIndexLocked (isLastIncludedIndex args) r1 + 1)
                 else Inr [])
                (\<lambda>kept.
                  let r2 = r1\<lparr>log := kept, lastIncludedIndex := isLastIncludedIndex args,
                              lastIncludedTerm := isLastIncludedTerm args,
                              snapshotData := isData args\<rparr>;
                      r3 = (if commitIndex r2 < isLastIncludedIndex args
                            then r2\<lparr>commitIndex := isLastIncludedIndex args\<rparr> else r2);
                      r4 = (if lastApplied r3 < isLastIncludedIndex args
                            then r3\<lparr>lastApplied := isLastIncludedIndex args\<rparr> else r3);
                      r5 = persistSnapshotLocked (isData args) r4
                  in Inr (reply, r5\<lparr>pendingSnapshot := Some
                       (SnapshotMsg (isData args) (isLastIncludedIndex args)
                                    (isLastIncludedTerm args))\<rparr>)))"

section \<open>Frame facts\<close>

text \<open>Persisting and resetting the timer leave every other field alone.\<close>

lemma persistLocked_frame [simp]:
  "rid (persistLocked r) = rid r" "peers (persistLocked r) = peers r"
  "state (persistLocked r) = state r" "currentTerm (persistLocked r) = currentTerm r"
  "votedFor (persistLocked r) = votedFor r" "log (persistLocked r) = log r"
  "lastIncludedIndex (persistLocked r) = lastIncludedIndex r"
  "lastIncludedTerm (persistLocked r) = lastIncludedTerm r"
  "snapshotData (persistLocked r) = snapshotData r"
  "commitIndex (persistLocked r) = commitIndex r" "lastApplied (persistLocked r) = lastApplied r"
  "pendingSnapshot (persistLocked r) = pendingSnapshot r"
  "nextIndex (persistLocked r) = nextIndex r" "matchIndex (persistLocked r) = matchIndex r"
  "ApplyCh (persistLocked r) = ApplyCh r"
  by (simp_all add: persistLocked_def split: option.split)

lemma persister_persistLocked [simp]:
  "persister (persistLocked r) = map_option (SaveState (encodeStateLocked r)) (persister r)"
  by (simp add: persistLocked_def split: option.split)

lemma persistSnapshotLocked_frame [simp]:
  "rid (persistSnapshotLocked d r) = rid r" "peers (persistSnapshotLocked d r) = peers r"
  "state (persistSnapshotLocked d r) = state r"
  "currentTerm (persistSnapshotLocked d r) = currentTerm r"
  "votedFor (persistSnapshotLocked d r) = votedFor r" "log (persistSnapshotLocked d r) = log r"
  "lastIncludedIndex (persistSnapshotLocked d r) = lastIncludedIndex r"
  "lastIncludedTerm (persistSnapshotLocked d r) = lastIncludedTerm r"
  "snapshotData (persistSnapshotLocked d r) = snapshotData r"
  "commitIndex (persistSnapshotLocked d r) = commitIndex r"
  "lastApplied (persistSnapshotLocked d r) = lastApplied r"
  "nextIndex (persistSnapshotLocked d r) = nextIndex r"
  "matchIndex (persistSnapshotLocked d r) = matchIndex r"
  "ApplyCh (persistSnapshotLocked d r) = ApplyCh r"
  by (simp_all add: persistSnapshotLocked_def split: option.split)

lemma persister_persistSnapshotLocked [simp]:
  "persister (persistSnapshotLocked d r) =
     map_option (SaveStateAndSnapshot (encodeStateLocked r) d) (persister r)"
  by (simp add: persistSnapshotLocked_def split: option.split)

lemma ResetElectionTimer_frame [simp]:
  "rid (ResetElectionTimer r) = rid r" "peers (ResetElectionTimer r) = peers r"
  "persister (ResetElectionTimer r) = persister r"
  "state (ResetElectionTimer r) = state r" "currentTerm (ResetElectionTimer r) = currentTerm r"
  "votedFor (ResetElectionTimer r) = votedFor r" "log (ResetElectionTimer r) = log r"
  "lastIncludedIndex (ResetElectionTimer r) = lastIncludedIndex r"
  "lastIncludedTerm (ResetElectionTimer r) = lastIncludedTerm r"
  "snapshotData (ResetElectionTimer r) = snapshotData r"
  "commitIndex (ResetElectionTimer r) = commitIndex r"
  "lastApplied (ResetElectionTimer r) = lastApplied r"
  "nextIndex (ResetElectionTimer r) = nextIndex r"
  "matchIndex (ResetElectionTimer r) = matchIndex r"
  by (simp_all add: ResetElectionTimer_def)

lemma becomeFollowerLocked_frame [simp]:
  "rid (becomeFollowerLocked t r) = rid r" "peers (becomeFollowerLocked t r) = peers r"
  "state (becomeFollowerLocked t r) = Follower"
  "currentTerm (becomeFollowerLocked t r) = max t (currentTerm r)"
  "votedFor (becomeFollowerLocked t r) = (if t > currentTerm r then -1 else votedFor r)"
  "log (becomeFollowerLocked t r) = log r"
  "lastIncludedIndex (becomeFollowerLocked t r) = lastIncludedIndex r"
  "lastIncludedTerm (becomeFollowerLocked t r) = lastIncludedTerm r"
  "snapshotData (becomeFollowerLocked t r) = snapshotData r"
  "commitIndex (becomeFollowerLocked t r) = commitIndex r"
  "lastApplied (becomeFollowerLocked t r) = lastApplied r"
  "nextIndex (becomeFollowerLocked t r) = nextIndex r"
  "matchIndex (becomeFollowerLocked t r) = matchIndex r"
  by (simp_all add: becomeFollowerLocked_def Let_def max_def)

text \<open>The log-reading functions see only the log and the compaction point.\<close>

lemma log_view_cong:
  assumes "log r = log r'" "lastIncludedIndex r = lastIncludedIndex r'"
    "lastIncludedTerm r = lastIncludedTerm r'"
  shows "lastLogInfoLocked r = lastLogInfoLocked r'" "termAtLocked i r = termAtLocked i r'"
    "physicalIndexLocked i r = physicalIndexLocked i r'"
    "candidateLogIsUpToDateLocked i t r = candidateLogIsUpToDateLocked i t r'"
    "aeConsistent args r = aeConsistent args r'"
  using assms
  by (simp_all add: lastLogInfoLocked_def termAtLocked_def physicalIndexLocked_def
      candidateLogIsUpToDateLocked_def aeConsistent_def)

lemma log_view_persist [simp]:
  "lastLogInfoLocked (persistLocked r) = lastLogInfoLocked r"
  "termAtLocked i (persistLocked r) = termAtLocked i r"
  "lastLogInfoLocked (ResetElectionTimer r) = lastLogInfoLocked r"
  "termAtLocked i (ResetElectionTimer r) = termAtLocked i r"
  "physicalIndexLocked i (ResetElectionTimer r) = physicalIndexLocked i r"
  "lastLogInfoLocked (becomeFollowerLocked t r) = lastLogInfoLocked r"
  "termAtLocked i (becomeFollowerLocked t r) = termAtLocked i r"
  "physicalIndexLocked i (becomeFollowerLocked t r) = physicalIndexLocked i r"
  "candidateLogIsUpToDateLocked i u (becomeFollowerLocked t r) = candidateLogIsUpToDateLocked i u r"
  "aeConsistent args (becomeFollowerLocked t r) = aeConsistent args r"
  by (rule log_view_cong; simp)+

lemma fst_lastLogInfoLocked: "fst (lastLogInfoLocked r) = lastIncludedIndex r + int (length (log r))"
  by (simp add: lastLogInfoLocked_def)

lemma termAtLocked_Some_iff:
  "(\<exists>t. termAtLocked i r = Some t) \<longleftrightarrow> lastIncludedIndex r \<le> i \<and> i \<le> fst (lastLogInfoLocked r)"
  by (auto simp: termAtLocked_def physicalIndexLocked_def fst_lastLogInfoLocked Let_def)

lemma termAtLocked_log:
  "lastIncludedIndex r < i \<Longrightarrow> i \<le> fst (lastLogInfoLocked r) \<Longrightarrow>
     termAtLocked i r = Some (entryTerm (log r ! nat (i - lastIncludedIndex r - 1)))"
  by (simp add: termAtLocked_def physicalIndexLocked_def fst_lastLogInfoLocked Let_def)

section \<open>RequestVote\<close>

text \<open>The grant condition of the vote handler in one formula.\<close>

definition grantsVote :: "RequestVoteArgs \<Rightarrow> ('c, 'd) Raft \<Rightarrow> bool" where
  "grantsVote args r \<longleftrightarrow>
     currentTerm r \<le> rvTerm args \<and>
     (currentTerm r < rvTerm args \<or> votedFor r = -1 \<or> votedFor r = rvCandidateID args) \<and>
     candidateLogIsUpToDateLocked (rvLastLogIndex args) (rvLastLogTerm args) r"

lemma RequestVote_granted_iff:
  "rvrVoteGranted (fst (RequestVote args r)) \<longleftrightarrow> grantsVote args r"
  by (auto simp: RequestVote_def grantsVote_def Let_def)

lemma RequestVote_frame [simp]:
  "rid (snd (RequestVote args r)) = rid r" "peers (snd (RequestVote args r)) = peers r"
  "log (snd (RequestVote args r)) = log r"
  "currentTerm (snd (RequestVote args r)) = max (rvTerm args) (currentTerm r)"
  "rvrTerm (fst (RequestVote args r)) = max (rvTerm args) (currentTerm r)"
  "lastIncludedIndex (snd (RequestVote args r)) = lastIncludedIndex r"
  "lastIncludedTerm (snd (RequestVote args r)) = lastIncludedTerm r"
  "snapshotData (snd (RequestVote args r)) = snapshotData r"
  "commitIndex (snd (RequestVote args r)) = commitIndex r"
  "lastApplied (snd (RequestVote args r)) = lastApplied r"
  "nextIndex (snd (RequestVote args r)) = nextIndex r"
  "matchIndex (snd (RequestVote args r)) = matchIndex r"
  by (auto simp: RequestVote_def Let_def)

lemma RequestVote_votedFor:
  "votedFor (snd (RequestVote args r)) =
     (if grantsVote args r then rvCandidateID args
      else if rvTerm args > currentTerm r then -1 else votedFor r)"
  by (auto simp: RequestVote_def grantsVote_def Let_def)

lemma RequestVote_state:
  "state (snd (RequestVote args r)) = (if rvTerm args > currentTerm r then Follower else state r)"
  by (auto simp: RequestVote_def Let_def)

section \<open>AppendEntries\<close>

lemma aeConsistent_bounds:
  assumes "aeConsistent args r" "aePrevLogIndex args > 0"
  shows "lastIncludedIndex r \<le> aePrevLogIndex args"
    "aePrevLogIndex args \<le> fst (lastLogInfoLocked r)"
    "termAtLocked (aePrevLogIndex args) r = Some (aePrevLogTerm args)"
  using assms termAtLocked_Some_iff [of "aePrevLogIndex args" r] by (auto simp: aeConsistent_def)

lemma aeAppend_Inr:
  "aeAppend args r = Inr r' \<longleftrightarrow>
     (aeEntries args = [] \<and> r' = r \<or>
      aeEntries args \<noteq> [] \<and> 0 \<le> aePrevLogIndex args - lastIncludedIndex r \<and>
      aePrevLogIndex args - lastIncludedIndex r \<le> int (length (log r)) \<and>
      r' = persistLocked (r\<lparr>log := take (nat (aePrevLogIndex args - lastIncludedIndex r)) (log r) @
                                  aeEntries args\<rparr>))"
  by (auto simp: aeAppend_def slice_iffs physicalIndexLocked_def)

lemma aeCommit_frame [simp]:
  "rid (aeCommit args r) = rid r" "peers (aeCommit args r) = peers r"
  "persister (aeCommit args r) = persister r" "state (aeCommit args r) = state r"
  "currentTerm (aeCommit args r) = currentTerm r" "votedFor (aeCommit args r) = votedFor r"
  "log (aeCommit args r) = log r" "lastIncludedIndex (aeCommit args r) = lastIncludedIndex r"
  "lastIncludedTerm (aeCommit args r) = lastIncludedTerm r"
  "snapshotData (aeCommit args r) = snapshotData r" "lastApplied (aeCommit args r) = lastApplied r"
  "nextIndex (aeCommit args r) = nextIndex r" "matchIndex (aeCommit args r) = matchIndex r"
  by (simp_all add: aeCommit_def Let_def)

lemma commitIndex_aeCommit:
  "commitIndex (aeCommit args r) =
     (if aeLeaderCommit args > commitIndex r
      then min (aeLeaderCommit args) (fst (lastLogInfoLocked r)) else commitIndex r)"
  by (simp add: aeCommit_def Let_def min_def)

text \<open>The accepting branch of the handler as a whole.\<close>

lemma AppendEntries_Inr:
  "AppendEntries args r = Inr (reply, r') \<longleftrightarrow>
     (aeTerm args < currentTerm r \<and> reply = \<lparr>aerTerm = currentTerm r, aerSuccess = False\<rparr> \<and> r' = r \<or>
      \<not> aeTerm args < currentTerm r \<and> \<not> aeConsistent args r \<and>
        reply = \<lparr>aerTerm = aeTerm args, aerSuccess = False\<rparr> \<and>
        r' = ResetElectionTimer (becomeFollowerLocked (aeTerm args) r) \<or>
      \<not> aeTerm args < currentTerm r \<and> aeConsistent args r \<and>
        reply = \<lparr>aerTerm = aeTerm args, aerSuccess = True\<rparr> \<and>
        (\<exists>r2. aeAppend args (becomeFollowerLocked (aeTerm args) r) = Inr r2 \<and>
              r' = ResetElectionTimer (aeCommit args r2)))"
  by (auto simp: AppendEntries_def Let_def max_def)

lemma AppendEntries_frame:
  assumes "AppendEntries args r = Inr (reply, r')"
  shows "rid r' = rid r" "peers r' = peers r"
    "currentTerm r' = max (aeTerm args) (currentTerm r)"
    "aerTerm reply = max (aeTerm args) (currentTerm r)"
    "votedFor r' = (if aeTerm args > currentTerm r then -1 else votedFor r)"
    "state r' = (if aeTerm args < currentTerm r then state r else Follower)"
    "lastIncludedIndex r' = lastIncludedIndex r" "lastIncludedTerm r' = lastIncludedTerm r"
    "snapshotData r' = snapshotData r" "lastApplied r' = lastApplied r"
    "nextIndex r' = nextIndex r" "matchIndex r' = matchIndex r"
  using assms by (auto simp: AppendEntries_Inr aeAppend_Inr)

text \<open>
  \<open>AppendEntries\<close>, every branch: it succeeds exactly when the leader's term is not stale and
  this node holds the entry the leader's entries attach to; on success a non-empty batch replaces
  everything after \<open>PrevLogIndex\<close>, a heartbeat leaves the log alone, and a rejected call never
  touches the log, the commit index or the compaction point.
\<close>

theorem AppendEntries_effect:
  assumes "AppendEntries args r = Inr (reply, r')"
  shows "(aerSuccess reply \<longleftrightarrow> currentTerm r \<le> aeTerm args \<and> aeConsistent args r) \<and>
     log r' = (if aerSuccess reply \<and> aeEntries args \<noteq> []
               then take (nat (aePrevLogIndex args - lastIncludedIndex r)) (log r) @ aeEntries args
               else log r) \<and>
     commitIndex r' = (if aerSuccess reply \<and> commitIndex r < aeLeaderCommit args
                       then min (aeLeaderCommit args) (lastIncludedIndex r + int (length (log r')))
                       else commitIndex r) \<and>
     lastIncludedIndex r' = lastIncludedIndex r"
  using assms
  by (auto simp: AppendEntries_Inr aeAppend_Inr commitIndex_aeCommit fst_lastLogInfoLocked)

text \<open>A follower with two entries and a leader that overwrites the second one.\<close>

definition exFollower :: "(nat, nat) Raft" where
  "exFollower = (newRaft 1 [2, 3] None)\<lparr>currentTerm := 2,
     log := [\<lparr>entryTerm = 1, entryCommand = 10\<rparr>, \<lparr>entryTerm = 1, entryCommand = 11\<rparr>]\<rparr>"

definition exOverwrite :: "nat AppendEntriesArgs" where
  "exOverwrite = \<lparr>aeTerm = 2, aeLeaderID = 2, aePrevLogIndex = 1, aePrevLogTerm = 1,
     aeEntries = [\<lparr>entryTerm = 2, entryCommand = 12\<rparr>], aeLeaderCommit = 1\<rparr>"

lemma exOverwrite_run:
  "\<exists>r'. AppendEntries exOverwrite exFollower = Inr (\<lparr>aerTerm = 2, aerSuccess = True\<rparr>, r')"
  by (simp add: AppendEntries_Inr aeAppend_Inr aeConsistent_def termAtLocked_def
      lastLogInfoLocked_def physicalIndexLocked_def exOverwrite_def exFollower_def newRaft_def
      restoreLocked_def)

theorem AppendEntries_effect_witness:
  "\<exists>r'. log r' = [\<lparr>entryTerm = 1, entryCommand = 10\<rparr>, \<lparr>entryTerm = 2, entryCommand = 12\<rparr>] \<and>
     commitIndex r' = 1 \<and>
     AppendEntries exOverwrite exFollower = Inr (\<lparr>aerTerm = 2, aerSuccess = True\<rparr>, r')"
proof -
  obtain r' where r': "AppendEntries exOverwrite exFollower = Inr (\<lparr>aerTerm = 2, aerSuccess = True\<rparr>, r')"
    using exOverwrite_run by blast
  show ?thesis
    using AppendEntries_effect [OF r'] r'
    by (auto simp: exOverwrite_def exFollower_def newRaft_def restoreLocked_def)
qed

lemma AppendEntries_Inl_iff:
  assumes "0 \<le> lastIncludedIndex r"
  shows "(\<exists>e. AppendEntries args r = Inl e) \<longleftrightarrow>
     currentTerm r \<le> aeTerm args \<and> aeEntries args \<noteq> [] \<and>
     aePrevLogIndex args \<le> 0 \<and> aePrevLogIndex args < lastIncludedIndex r"
proof -
  let ?k = "aePrevLogIndex args - lastIncludedIndex r"
  have "(\<exists>e. AppendEntries args r = Inl e) \<longleftrightarrow>
      currentTerm r \<le> aeTerm args \<and> aeConsistent args r \<and> aeEntries args \<noteq> [] \<and>
      \<not> (0 \<le> ?k \<and> ?k \<le> int (length (log r)))"
    by (auto simp: AppendEntries_def aeAppend_def slice_to_def physicalIndexLocked_def Let_def
        bind_res_def split: sum.splits)
  moreover have "aeConsistent args r \<Longrightarrow> aePrevLogIndex args > 0 \<Longrightarrow>
      0 \<le> ?k \<and> ?k \<le> int (length (log r))"
    using aeConsistent_bounds [of args r] by (simp add: fst_lastLogInfoLocked)
  moreover have "aePrevLogIndex args \<le> 0 \<Longrightarrow> aeConsistent args r"
    by (simp add: aeConsistent_def)
  ultimately show ?thesis using assms by (cases "aePrevLogIndex args > 0") auto
qed

text \<open>Where the previous entry is covered, the handler returns.\<close>

lemma AppendEntries_returns:
  assumes "0 \<le> lastIncludedIndex r" "lastIncludedIndex r \<le> aePrevLogIndex args"
  shows "\<exists>reply r'. AppendEntries args r = Inr (reply, r')"
proof -
  have "\<not> (\<exists>e. AppendEntries args r = Inl e)"
    using AppendEntries_Inl_iff [OF assms(1)] assms(2) by auto
  then show ?thesis by (cases "AppendEntries args r") auto
qed

text \<open>
  (C9) When \<open>AppendEntries\<close> panics: with a node that has compacted a prefix of its log, a call from a
  current leader that carries entries and starts at \<open>PrevLogIndex = 0\<close> passes the consistency check
  and then slices the log at a negative bound. This is the only way the handler can fail.
\<close>

theorem AppendEntries_panics_iff:
  assumes "0 \<le> lastIncludedIndex r"
  shows "(\<exists>e. AppendEntries args r = Inl e) \<longleftrightarrow>
     currentTerm r \<le> aeTerm args \<and> aeEntries args \<noteq> [] \<and>
     aePrevLogIndex args \<le> 0 \<and> aePrevLogIndex args < lastIncludedIndex r"
  using assms by (rule AppendEntries_Inl_iff)

text \<open>A node with snapshot index 3 and a leader that starts from the beginning of its log.\<close>

definition exCompacted :: "(nat, nat) Raft" where
  "exCompacted = (newRaft 1 [2, 3] None)\<lparr>currentTerm := 1, lastIncludedIndex := 3,
     lastIncludedTerm := 1, snapshotData := Some 0, commitIndex := 3, lastApplied := 3\<rparr>"

definition exFromStart :: "nat AppendEntriesArgs" where
  "exFromStart = \<lparr>aeTerm = 1, aeLeaderID = 2, aePrevLogIndex = 0, aePrevLogTerm = 0,
     aeEntries = [\<lparr>entryTerm = 1, entryCommand = 7\<rparr>], aeLeaderCommit = 0\<rparr>"

theorem AppendEntries_panics_iff_witness:
  "\<exists>e. AppendEntries exFromStart exCompacted = Inl e"
  using AppendEntries_panics_iff [of exCompacted exFromStart]
  by (simp add: exCompacted_def exFromStart_def newRaft_def restoreLocked_def)

end
