(* ===== verification/Raft_Loops.thy ===== *)
theory Raft_Loops
  imports Raft_Node
begin

text \<open>
  The parts of a Raft node that run in its background goroutines (\<open>commit.go\<close>, \<open>apply.go\<close>,
  \<open>snapshot.go\<close>, \<open>log_replication.go\<close>, \<open>election.go\<close>): delivery of committed entries and
  installed snapshots, compaction, one replication round to one peer, and one election round.
  \<open>node_step\<close> collects every section that runs under the node's lock as one event type; the
  node invariant, durability and the monotonicity of terms and votes are proved for it.
\<close>

section \<open>Apply loop\<close>

definition applyPendingStep :: "('c, 'd) Raft \<Rightarrow> ('c, 'd) Raft option res" where
  "applyPendingStep r =
     (if commitIndex r \<le> lastApplied r then Inr None
      else let nextApplied = lastApplied r + 1;
               lastLogIndex = lastIncludedIndex r + int (length (log r))
           in if nextApplied > lastLogIndex then Inr None
              else bind_res (index_at (log r) (physicalIndexLocked nextApplied r))
                (\<lambda>entry. Inr (Some (r\<lparr>lastApplied := nextApplied,
                    ApplyCh := ApplyCh r @
                      [CommandMsg nextApplied (entryTerm entry) (entryCommand entry)]\<rparr>))))"

lemma applyPendingStep_Some:
  "applyPendingStep r = Inr (Some r') \<longleftrightarrow>
     lastApplied r < commitIndex r \<and> lastIncludedIndex r \<le> lastApplied r \<and>
     lastApplied r < lastIncludedIndex r + int (length (log r)) \<and>
     r' = r\<lparr>lastApplied := lastApplied r + 1,
            ApplyCh := ApplyCh r @ [CommandMsg (lastApplied r + 1)
              (entryTerm (log r ! nat (lastApplied r - lastIncludedIndex r)))
              (entryCommand (log r ! nat (lastApplied r - lastIncludedIndex r)))]\<rparr>"
  by (auto simp: applyPendingStep_def Let_def slice_iffs physicalIndexLocked_def)

function applyPending :: "('c, 'd) Raft \<Rightarrow> ('c, 'd) Raft res" where
  "applyPending r =
     (case applyPendingStep r of
        Inl e \<Rightarrow> Inl e
      | Inr None \<Rightarrow> Inr r
      | Inr (Some r') \<Rightarrow> applyPending r')"
  by pat_completeness auto
termination
  by (relation "measure (\<lambda>r. nat (commitIndex r - lastApplied r))") (auto simp: applyPendingStep_Some)

declare applyPending.simps [simp del]

definition deliverPendingSnapshot :: "('c, 'd) Raft \<Rightarrow> ('c, 'd) Raft" where
  "deliverPendingSnapshot r =
     (case pendingSnapshot r of
        None \<Rightarrow> r
      | Some msg \<Rightarrow> r\<lparr>pendingSnapshot := None, ApplyCh := ApplyCh r @ [msg]\<rparr>)"

definition applyTick :: "('c, 'd) Raft \<Rightarrow> ('c, 'd) Raft res" where
  "applyTick r = applyPending (deliverPendingSnapshot r)"

section \<open>Compaction\<close>

definition Snapshot :: "int \<Rightarrow> 'd option \<Rightarrow> ('c, 'd) Raft \<Rightarrow> ('c, 'd) Raft res" where
  "Snapshot index data r =
     (if index \<le> lastIncludedIndex r then Inr r
      else if index > fst (lastLogInfoLocked r)
        then Inl (Error ''cannot snapshot past this node's last log index'')
      else if index > lastApplied r
        then Inl (Error ''cannot snapshot past what this node has applied'')
      else let t = (case termAtLocked index r of None \<Rightarrow> 0 | Some t \<Rightarrow> t)
           in bind_res (slice_from (log r) (physicalIndexLocked index r + 1))
                (\<lambda>kept. Inr (persistSnapshotLocked data
                   (r\<lparr>log := kept, lastIncludedIndex := index, lastIncludedTerm := t,
                      snapshotData := data\<rparr>))))"

definition ReadSnapshot :: "('c, 'd) Raft \<Rightarrow> 'd option" where
  "ReadSnapshot r = snapshotData r"

definition RaftStateSize :: "('c persistedState \<Rightarrow> int) \<Rightarrow> ('c, 'd) Raft \<Rightarrow> int" where
  "RaftStateSize encodedLength r = encodedLength (encodeStateLocked r)"

section \<open>Replication to one peer\<close>

datatype 'c replAction =
    ReplNothing
  | ReplInstallSnapshot
  | ReplAppendEntries "'c AppendEntriesArgs"

definition replicateToPeer_begin :: "int \<Rightarrow> ('c, 'd) Raft \<Rightarrow> 'c replAction res" where
  "replicateToPeer_begin peer r =
     (if state r \<noteq> Leader then Inr ReplNothing
      else let nxt = get0 (nextIndex r) peer
           in if nxt \<le> lastIncludedIndex r then Inr ReplInstallSnapshot
              else let prevLogIndex = nxt - 1;
                       prevLogTerm =
                         (if prevLogIndex \<ge> 1
                          then (case termAtLocked prevLogIndex r of None \<Rightarrow> 0 | Some t \<Rightarrow> t)
                          else 0);
                       lastLogIndex = lastIncludedIndex r + int (length (log r))
                   in bind_res
                        (if nxt \<le> lastLogIndex
                         then slice_from (log r) (physicalIndexLocked nxt r) else Inr [])
                        (\<lambda>entries. Inr (ReplAppendEntries
                           \<lparr>aeTerm = currentTerm r, aeLeaderID = rid r,
                            aePrevLogIndex = prevLogIndex, aePrevLogTerm = prevLogTerm,
                            aeEntries = entries, aeLeaderCommit = commitIndex r\<rparr>)))"

definition replicateToPeer_reply ::
    "int \<Rightarrow> 'c AppendEntriesArgs \<Rightarrow> AppendEntriesReply \<Rightarrow> ('c, 'd) Raft \<Rightarrow> ('c, 'd) Raft" where
  "replicateToPeer_reply peer args reply r =
     (if aerTerm reply > currentTerm r then becomeFollowerLocked (aerTerm reply) r
      else if state r \<noteq> Leader \<or> currentTerm r \<noteq> aeTerm args then r
      else if aerSuccess reply
        then let newMatch = aePrevLogIndex args + int (length (aeEntries args));
                 r1 = (if newMatch > get0 (matchIndex r) peer
                       then r\<lparr>matchIndex := (matchIndex r)(peer \<mapsto> newMatch)\<rparr> else r);
                 r2 = r1\<lparr>nextIndex := (nextIndex r1)(peer \<mapsto> newMatch + 1)\<rparr>
             in advanceCommitIndexLocked r2
      else if get0 (nextIndex r) peer > 1
        then r\<lparr>nextIndex := (nextIndex r)(peer \<mapsto> get0 (nextIndex r) peer - 1)\<rparr>
      else r)"

definition sendInstallSnapshot_begin :: "('c, 'd) Raft \<Rightarrow> 'd InstallSnapshotArgs option" where
  "sendInstallSnapshot_begin r =
     (if state r \<noteq> Leader then None
      else Some \<lparr>isTerm = currentTerm r, isLeaderID = rid r,
                 isLastIncludedIndex = lastIncludedIndex r,
                 isLastIncludedTerm = lastIncludedTerm r, isData = snapshotData r\<rparr>)"

definition sendInstallSnapshot_reply ::
    "int \<Rightarrow> 'd InstallSnapshotArgs \<Rightarrow> InstallSnapshotReply \<Rightarrow> ('c, 'd) Raft \<Rightarrow> ('c, 'd) Raft" where
  "sendInstallSnapshot_reply peer args reply r =
     (if isrTerm reply > currentTerm r then becomeFollowerLocked (isrTerm reply) r
      else if state r \<noteq> Leader \<or> currentTerm r \<noteq> isTerm args then r
      else let lii = isLastIncludedIndex args;
               r1 = (if lii > get0 (matchIndex r) peer
                     then r\<lparr>matchIndex := (matchIndex r)(peer \<mapsto> lii)\<rparr> else r);
               r2 = (if lii + 1 > get0 (nextIndex r1) peer
                     then r1\<lparr>nextIndex := (nextIndex r1)(peer \<mapsto> lii + 1)\<rparr> else r1)
           in advanceCommitIndexLocked r2)"

section \<open>Elections\<close>

text \<open>One run of \<open>startElection\<close>: the vote request and the shared vote counter.\<close>

record Election =
  elArgs :: RequestVoteArgs
  elPeers :: "int list"
  elVotes :: nat

definition startElection_begin :: "('c, 'd) Raft \<Rightarrow> Election" where
  "startElection_begin r =
     \<lparr>elArgs = \<lparr>rvTerm = currentTerm r, rvCandidateID = rid r,
                rvLastLogIndex = fst (lastLogInfoLocked r),
                rvLastLogTerm = snd (lastLogInfoLocked r)\<rparr>,
      elPeers = peers r, elVotes = 1\<rparr>"

definition elMajority :: "Election \<Rightarrow> nat" where
  "elMajority el = (length (elPeers el) + 1) div 2 + 1"

definition startElection_reply ::
    "RequestVoteReply \<Rightarrow> Election \<Rightarrow> ('c, 'd) Raft \<Rightarrow> Election \<times> ('c, 'd) Raft" where
  "startElection_reply reply el r =
     (if rvrTerm reply > currentTerm r then (el, becomeFollowerLocked (rvrTerm reply) r)
      else if state r \<noteq> Candidate \<or> currentTerm r \<noteq> rvTerm (elArgs el) then (el, r)
      else if \<not> rvrVoteGranted reply then (el, r)
      else let el1 = el\<lparr>elVotes := elVotes el + 1\<rparr>
           in if elVotes el1 \<ge> elMajority el1
              then (el1, case becomeLeaderLocked r of Inl _ \<Rightarrow> r | Inr r' \<Rightarrow> r')
              else (el1, r))"

text \<open>The election timer firing: a leader keeps leading, anyone else stands for election.\<close>

definition electionTimeout :: "('c, 'd) Raft \<Rightarrow> bool \<times> ('c, 'd) Raft" where
  "electionTimeout r =
     (if state r \<noteq> Leader
      then (case becomeCandidateLocked r of Inl _ \<Rightarrow> (False, r) | Inr r' \<Rightarrow> (True, r'))
      else (False, r))"

definition takeTimerReset :: "('c, 'd) Raft \<Rightarrow> ('c, 'd) Raft" where
  "takeTimerReset r = r\<lparr>resetElectionTimer := False\<rparr>"

section \<open>All locked sections of a node\<close>

datatype ('c, 'd) nodeEvent =
    EvRequestVote RequestVoteArgs
  | EvAppendEntries "'c AppendEntriesArgs"
  | EvInstallSnapshot "'d InstallSnapshotArgs"
  | EvPropose 'c
  | EvElectionTimeout
  | EvTimerReset
  | EvVoteReply RequestVoteReply Election
  | EvAppendReply int "'c AppendEntriesArgs" AppendEntriesReply
  | EvSnapshotReply int "'d InstallSnapshotArgs" InstallSnapshotReply
  | EvDeliverSnapshot
  | EvApplyOne
  | EvSnapshot int "'d option"

fun node_step :: "('c, 'd) nodeEvent \<Rightarrow> ('c, 'd) Raft \<Rightarrow> ('c, 'd) Raft res" where
  "node_step (EvRequestVote args) r = Inr (snd (RequestVote args r))"
| "node_step (EvAppendEntries args) r = map_sum id snd (AppendEntries args r)"
| "node_step (EvInstallSnapshot args) r = map_sum id snd (InstallSnapshot args r)"
| "node_step (EvPropose c) r = Inr (snd (Propose c r))"
| "node_step EvElectionTimeout r = Inr (snd (electionTimeout r))"
| "node_step EvTimerReset r = Inr (takeTimerReset r)"
| "node_step (EvVoteReply reply el) r = Inr (snd (startElection_reply reply el r))"
| "node_step (EvAppendReply peer args reply) r = Inr (replicateToPeer_reply peer args reply r)"
| "node_step (EvSnapshotReply peer args reply) r = Inr (sendInstallSnapshot_reply peer args reply r)"
| "node_step EvDeliverSnapshot r = Inr (deliverPendingSnapshot r)"
| "node_step EvApplyOne r =
     map_sum id (\<lambda>o'. case o' of None \<Rightarrow> r | Some r' \<Rightarrow> r') (applyPendingStep r)"
| "node_step (EvSnapshot index data) r = Snapshot index data r"

section \<open>Frame facts\<close>

lemma advanceCommitIndexLocked_frame [simp]:
  "rid (advanceCommitIndexLocked r) = rid r" "peers (advanceCommitIndexLocked r) = peers r"
  "persister (advanceCommitIndexLocked r) = persister r"
  "state (advanceCommitIndexLocked r) = state r"
  "currentTerm (advanceCommitIndexLocked r) = currentTerm r"
  "votedFor (advanceCommitIndexLocked r) = votedFor r"
  "log (advanceCommitIndexLocked r) = log r"
  "lastIncludedIndex (advanceCommitIndexLocked r) = lastIncludedIndex r"
  "lastIncludedTerm (advanceCommitIndexLocked r) = lastIncludedTerm r"
  "snapshotData (advanceCommitIndexLocked r) = snapshotData r"
  "lastApplied (advanceCommitIndexLocked r) = lastApplied r"
  "nextIndex (advanceCommitIndexLocked r) = nextIndex r"
  "matchIndex (advanceCommitIndexLocked r) = matchIndex r"
  by (simp_all add: advanceCommitIndexLocked_def Let_def)

lemma advanceCommitIndexLocked_log_view [simp]:
  "lastLogInfoLocked (advanceCommitIndexLocked r) = lastLogInfoLocked r"
  "termAtLocked i (advanceCommitIndexLocked r) = termAtLocked i r"
  by (rule log_view_cong; simp)+

lemma becomeLeaderLocked_Inr:
  "becomeLeaderLocked r = Inr r' \<longleftrightarrow> state r = Candidate \<and>
     r' = r\<lparr>state := Leader,
            nextIndex := map_of (map (\<lambda>p. (p, fst (lastLogInfoLocked r) + 1)) (peers r)),
            matchIndex := map_of (map (\<lambda>p. (p, 0)) (peers r))\<rparr>"
proof -
  have "lastLogInfoLocked (r\<lparr>state := Leader\<rparr>) = lastLogInfoLocked r"
    by (rule log_view_cong; simp)
  then show ?thesis by (auto simp: becomeLeaderLocked_def Let_def)
qed

lemma raise_markers:
  "(if commitIndex r < i then r\<lparr>commitIndex := i\<rparr> else r) = r\<lparr>commitIndex := max (commitIndex r) i\<rparr>"
  "(if lastApplied r < i then r\<lparr>lastApplied := i\<rparr> else r) = r\<lparr>lastApplied := max (lastApplied r) i\<rparr>"
  by (cases r; simp add: max_def)+

lemma InstallSnapshot_Inr:
  assumes "InstallSnapshot args r = Inr (reply, r')"
  obtains
    (stale_term) "isTerm args < currentTerm r" "r' = r" "isrTerm reply = currentTerm r"
  | (stale_index) "currentTerm r \<le> isTerm args" "isLastIncludedIndex args \<le> lastIncludedIndex r"
      "r' = ResetElectionTimer (becomeFollowerLocked (isTerm args) r)" "isrTerm reply = isTerm args"
  | (installed) kept p where "currentTerm r \<le> isTerm args"
      "lastIncludedIndex r < isLastIncludedIndex args" "isrTerm reply = isTerm args"
      "kept = (if termAtLocked (isLastIncludedIndex args) r = Some (isLastIncludedTerm args)
               then drop (nat (isLastIncludedIndex args - lastIncludedIndex r)) (log r) else [])"
      "r' = persistSnapshotLocked (isData args)
              ((ResetElectionTimer (becomeFollowerLocked (isTerm args) r))
                 \<lparr>log := kept, lastIncludedIndex := isLastIncludedIndex args,
                  lastIncludedTerm := isLastIncludedTerm args, snapshotData := isData args,
                  commitIndex := max (commitIndex r) (isLastIncludedIndex args),
                  lastApplied := max (lastApplied r) (isLastIncludedIndex args)\<rparr>)
              \<lparr>pendingSnapshot := Some p\<rparr>"
      "p = SnapshotMsg (isData args) (isLastIncludedIndex args) (isLastIncludedTerm args)"
proof (cases "isTerm args < currentTerm r")
  case True
  with assms show ?thesis by (intro that(1)) (auto simp: InstallSnapshot_def)
next
  case False
  then have le: "currentTerm r \<le> isTerm args" by simp
  show ?thesis
  proof (cases "isLastIncludedIndex args \<le> lastIncludedIndex r")
    case True
    with assms le show ?thesis by (intro that(2)) (auto simp: InstallSnapshot_def Let_def)
  next
    case False
    with assms le show ?thesis
      unfolding InstallSnapshot_def Let_def raise_markers
      by (intro that(3)) (auto simp: slice_iffs physicalIndexLocked_def split: if_splits)
  qed
qed

section \<open>The node invariant\<close>

text \<open>
  The order of the four progress markers of a node, and that a node without a compacted prefix
  holds no snapshot.
\<close>

definition node_inv :: "('c, 'd) Raft \<Rightarrow> bool" where
  "node_inv r \<longleftrightarrow>
     0 \<le> lastIncludedIndex r \<and> lastIncludedIndex r \<le> lastApplied r \<and>
     lastApplied r \<le> commitIndex r \<and> commitIndex r \<le> fst (lastLogInfoLocked r) \<and>
     (lastIncludedIndex r = 0 \<longrightarrow> snapshotData r = None)"

text \<open>
  What the callers of the two replication handlers must respect: a batch of entries reaches at
  least as far as what this node has committed, and a snapshot either covers everything this
  node has committed or agrees with its log.
\<close>

fun event_safe :: "('c, 'd) nodeEvent \<Rightarrow> ('c, 'd) Raft \<Rightarrow> bool" where
  "event_safe (EvAppendEntries args) r \<longleftrightarrow>
     aeEntries args = [] \<or> aeTerm args < currentTerm r \<or> \<not> aeConsistent args r \<or>
     commitIndex r \<le> aePrevLogIndex args + int (length (aeEntries args))"
| "event_safe (EvInstallSnapshot args) r \<longleftrightarrow>
     commitIndex r \<le> isLastIncludedIndex args \<or>
     termAtLocked (isLastIncludedIndex args) r = Some (isLastIncludedTerm args)"
| "event_safe _ r \<longleftrightarrow> True"

lemma node_inv_cong:
  assumes "log r = log r'" "lastIncludedIndex r = lastIncludedIndex r'"
    "snapshotData r = snapshotData r'" "commitIndex r = commitIndex r'"
    "lastApplied r = lastApplied r'"
  shows "node_inv r = node_inv r'"
  using assms by (simp add: node_inv_def fst_lastLogInfoLocked)

lemma node_inv_newRaft_None [simp]: "node_inv (newRaft i ps None)"
  by (simp add: node_inv_def newRaft_def restoreLocked_def fst_lastLogInfoLocked)

lemma node_inv_RequestVote [inv_intros]: "node_inv r \<Longrightarrow> node_inv (snd (RequestVote args r))"
  by (subst node_inv_cong [where r' = r]) simp_all

lemma node_inv_becomeFollower [inv_intros]: "node_inv r \<Longrightarrow> node_inv (becomeFollowerLocked t r)"
  by (subst node_inv_cong [where r' = r]) simp_all

lemma node_inv_AppendEntries [inv_intros]:
  assumes "AppendEntries args r = Inr (reply, r')" "node_inv r" "event_safe (EvAppendEntries args) r"
  shows "node_inv r'"
proof -
  consider (same) "r' = r" | (rej) "r' = ResetElectionTimer (becomeFollowerLocked (aeTerm args) r)"
    | (acc) r2 where "aeConsistent args r" "\<not> aeTerm args < currentTerm r"
        "aeAppend args (becomeFollowerLocked (aeTerm args) r) = Inr r2"
        "r' = ResetElectionTimer (aeCommit args r2)"
    using assms(1) by (auto simp: AppendEntries_Inr)
  then show ?thesis
  proof cases
    case acc
    then have "commitIndex r2 \<le> fst (lastLogInfoLocked r2)"
      using assms(2,3) by (auto simp: aeAppend_Inr fst_lastLogInfoLocked node_inv_def)
    moreover have "lastIncludedIndex r2 = lastIncludedIndex r" "snapshotData r2 = snapshotData r"
        "lastApplied r2 = lastApplied r" "commitIndex r2 = commitIndex r"
      using acc(3) by (auto simp: aeAppend_Inr)
    ultimately show ?thesis
      using acc(4) assms(2)
      by (auto simp: node_inv_def commitIndex_aeCommit fst_lastLogInfoLocked)
  qed (use assms(2) in \<open>auto simp: node_inv_def\<close>)
qed

lemma node_inv_InstallSnapshot [inv_intros]:
  assumes "InstallSnapshot args r = Inr (reply, r')" "node_inv r" "event_safe (EvInstallSnapshot args) r"
  shows "node_inv r'"
  using assms(1)
proof (cases rule: InstallSnapshot_Inr)
  case (installed kept p)
  have "termAtLocked (isLastIncludedIndex args) r = Some t \<Longrightarrow>
      isLastIncludedIndex args \<le> fst (lastLogInfoLocked r)" for t
    using termAtLocked_Some_iff by blast
  with installed assms(2,3) show ?thesis
    by (auto simp: node_inv_def fst_lastLogInfoLocked)
qed (use assms(2) in \<open>auto simp: node_inv_def\<close>)

lemma node_inv_advance [inv_intros]: "node_inv r \<Longrightarrow> node_inv (advanceCommitIndexLocked r)"
  by (auto simp: node_inv_def advanceCommitIndexLocked_def Let_def fst_lastLogInfoLocked)

lemma node_inv_append:
  "node_inv r \<Longrightarrow> node_inv (persistLocked (r\<lparr>log := log r @ es\<rparr>))"
  by (auto simp: node_inv_def fst_lastLogInfoLocked)

lemma node_inv_Propose [inv_intros]: "node_inv r \<Longrightarrow> node_inv (snd (Propose c r))"
  by (auto simp: Propose_def Let_def intro: node_inv_advance node_inv_append)

lemma node_inv_electionTimeout [inv_intros]: "node_inv r \<Longrightarrow> node_inv (snd (electionTimeout r))"
  by (subst node_inv_cong [where r' = r])
     (simp_all add: electionTimeout_def becomeCandidateLocked_def)

lemma node_inv_startElection_reply [inv_intros]:
  "node_inv r \<Longrightarrow> node_inv (snd (startElection_reply reply el r))"
  by (subst node_inv_cong [where r' = r])
     (auto simp: startElection_reply_def becomeLeaderLocked_def Let_def)

lemma node_inv_replication_fields:
  "node_inv (r\<lparr>nextIndex := n\<rparr>) = node_inv r" "node_inv (r\<lparr>matchIndex := m\<rparr>) = node_inv r"
  by (rule node_inv_cong; simp)+

lemma node_inv_replicateToPeer_reply [inv_intros]:
  "node_inv r \<Longrightarrow> node_inv (replicateToPeer_reply peer args reply r)"
  by (auto simp: replicateToPeer_reply_def Let_def node_inv_replication_fields
      intro!: node_inv_advance node_inv_becomeFollower)

lemma node_inv_sendInstallSnapshot_reply [inv_intros]:
  "node_inv r \<Longrightarrow> node_inv (sendInstallSnapshot_reply peer args reply r)"
  by (auto simp: sendInstallSnapshot_reply_def Let_def node_inv_replication_fields
      intro!: node_inv_advance node_inv_becomeFollower)

lemma node_inv_takeTimerReset [inv_intros]: "node_inv r \<Longrightarrow> node_inv (takeTimerReset r)"
  by (subst node_inv_cong [where r' = r]) (simp_all add: takeTimerReset_def)

lemma node_inv_deliver [inv_intros]: "node_inv r \<Longrightarrow> node_inv (deliverPendingSnapshot r)"
  by (subst node_inv_cong [where r' = r]) (simp_all add: deliverPendingSnapshot_def split: option.split)

lemma node_inv_applyPendingStep [inv_intros]:
  "node_inv r \<Longrightarrow> applyPendingStep r = Inr (Some r') \<Longrightarrow> node_inv r'"
  by (auto simp: applyPendingStep_Some node_inv_def fst_lastLogInfoLocked)

lemma Snapshot_Inr:
  "Snapshot index data r = Inr r' \<longleftrightarrow>
     (index \<le> lastIncludedIndex r \<and> r' = r) \<or>
     (lastIncludedIndex r < index \<and> index \<le> fst (lastLogInfoLocked r) \<and> index \<le> lastApplied r \<and>
      r' = persistSnapshotLocked data
             (r\<lparr>log := drop (nat (index - lastIncludedIndex r)) (log r), lastIncludedIndex := index,
                lastIncludedTerm := entryTerm (log r ! nat (index - lastIncludedIndex r - 1)),
                snapshotData := data\<rparr>))"
  by (auto simp: Snapshot_def Let_def slice_iffs physicalIndexLocked_def fst_lastLogInfoLocked
      termAtLocked_log)

lemma node_inv_Snapshot [inv_intros]: "node_inv r \<Longrightarrow> Snapshot index data r = Inr r' \<Longrightarrow> node_inv r'"
  by (auto simp: Snapshot_Inr node_inv_def fst_lastLogInfoLocked)


lemma exOverwrite_safe:
  "node_inv exFollower" "event_safe (EvAppendEntries exOverwrite) exFollower"
  by (simp_all add: node_inv_def exFollower_def exOverwrite_def newRaft_def restoreLocked_def
      fst_lastLogInfoLocked)


section \<open>Durability\<close>

text \<open>
  A node is durable when a restart from its persister recovers exactly the persistent state it
  has now: term, vote, log, compaction point and snapshot.
\<close>

definition durable :: "('c, 'd) Raft \<Rightarrow> bool" where
  "durable r \<longleftrightarrow>
     (\<forall>p. persister r = Some p \<longrightarrow>
        encodeStateLocked (NewRaftWithPersister (rid r) (peers r) p) = encodeStateLocked r \<and>
        ReadSnapshot (NewRaftWithPersister (rid r) (peers r) p) = ReadSnapshot r)"

definition bootState :: "'c persistedState" where
  "bootState = \<lparr>CurrentTerm = 0, VotedFor = -1, Log = [], LastIncludedIndex = 0, LastIncludedTerm = 0\<rparr>"

lemma encodeStateLocked_restart:
  "encodeStateLocked (NewRaftWithPersister i ps p) =
     (case pstate p of None \<Rightarrow> bootState | Some st \<Rightarrow> st)"
  by (auto simp: NewRaftWithPersister_def newRaft_def restoreLocked_def encodeStateLocked_def
      ReadState_def bootState_def Let_def split: option.split)

lemma snapshotData_restart:
  "snapshotData (NewRaftWithPersister i ps p) =
     (case pstate p of None \<Rightarrow> None
      | Some st \<Rightarrow> if LastIncludedIndex st > 0 then psnapshot p else None)"
  by (auto simp: NewRaftWithPersister_def newRaft_def restoreLocked_def ReadState_def
      ReadPersistedSnapshot_def Let_def split: option.split)

lemma durable_iff:
  "durable r \<longleftrightarrow>
     (\<forall>p. persister r = Some p \<longrightarrow>
        encodeStateLocked r = (case pstate p of None \<Rightarrow> bootState | Some st \<Rightarrow> st) \<and>
        snapshotData r = (if pstate p \<noteq> None \<and> lastIncludedIndex r > 0 then psnapshot p else None))"
proof -
  have lii: "LastIncludedIndex (encodeStateLocked r) = lastIncludedIndex r"
    by (simp add: encodeStateLocked_def)
  show ?thesis
  proof (cases "persister r")
    case (Some p)
    then show ?thesis
      unfolding durable_def encodeStateLocked_restart snapshotData_restart ReadSnapshot_def
      by (cases "pstate p") (auto simp: lii [symmetric])
  qed (simp add: durable_def)
qed

lemma durable_cong:
  assumes "persister r = persister r'" "encodeStateLocked r = encodeStateLocked r'"
    "snapshotData r = snapshotData r'"
  shows "durable r = durable r'"
proof -
  have "lastIncludedIndex r = lastIncludedIndex r'"
    using assms(2) by (simp add: encodeStateLocked_def)
  with assms show ?thesis by (simp add: durable_iff)
qed

text \<open>
  What persisting needs of the snapshot: a compacted node's persister already holds it, and an
  uncompacted node has none.
\<close>

definition snapshot_saved :: "('c, 'd) Raft \<Rightarrow> bool" where
  "snapshot_saved r \<longleftrightarrow>
     (\<forall>p. persister r = Some p \<longrightarrow>
        snapshotData r = (if lastIncludedIndex r > 0 then psnapshot p else None))"

lemma durable_snapshot_saved: "durable r \<Longrightarrow> snapshot_saved r"
  by (auto simp: durable_iff snapshot_saved_def encodeStateLocked_def bootState_def
      split: option.splits)

lemma encodeStateLocked_persist [simp]:
  "encodeStateLocked (persistLocked r) = encodeStateLocked r"
  "encodeStateLocked (persistSnapshotLocked d r) = encodeStateLocked r"
  by (simp_all add: encodeStateLocked_def)

lemma durable_persistLocked: "snapshot_saved r \<Longrightarrow> durable (persistLocked r)"
  by (auto simp: durable_iff snapshot_saved_def SaveState_def)

lemma durable_persistSnapshotLocked:
  "snapshotData r = d \<Longrightarrow> 0 < lastIncludedIndex r \<Longrightarrow> durable (persistSnapshotLocked d r)"
  by (auto simp: durable_iff SaveStateAndSnapshot_def)

lemma snapshot_saved_cong:
  assumes "persister r = persister r'" "lastIncludedIndex r = lastIncludedIndex r'"
    "snapshotData r = snapshotData r'"
  shows "snapshot_saved r = snapshot_saved r'"
  using assms by (simp add: snapshot_saved_def)

lemma durable_becomeFollower:
  "durable r \<Longrightarrow> durable (becomeFollowerLocked t r)"
  unfolding becomeFollowerLocked_def Let_def
  by (rule durable_persistLocked, subst snapshot_saved_cong [where r' = r])
     (auto simp: durable_snapshot_saved)

lemma durable_timer [simp]: "durable (ResetElectionTimer r) = durable r"
  by (rule durable_cong) (simp_all add: encodeStateLocked_def)

lemma durable_RequestVote: "durable r \<Longrightarrow> durable (snd (RequestVote args r))"
proof -
  assume "durable r"
  let ?r1 = "if rvTerm args > currentTerm r then becomeFollowerLocked (rvTerm args) r else r"
  have d: "durable ?r1" using \<open>durable r\<close> by (simp add: durable_becomeFollower)
  then have "snapshot_saved (?r1\<lparr>votedFor := v\<rparr>)" for v
    by (subst snapshot_saved_cong [where r' = ?r1]) (auto simp: durable_snapshot_saved)
  with d show ?thesis by (auto simp: RequestVote_def Let_def durable_persistLocked)
qed

lemma durable_aeCommit [simp]: "durable (aeCommit args r) = durable r"
  by (rule durable_cong) (simp_all add: encodeStateLocked_def)

lemma durable_log_append:
  "durable r \<Longrightarrow> durable (persistLocked (r\<lparr>log := es\<rparr>))"
  by (rule durable_persistLocked, subst snapshot_saved_cong [where r' = r])
     (auto simp: durable_snapshot_saved)

lemma durable_AppendEntries:
  "AppendEntries args r = Inr (reply, r') \<Longrightarrow> durable r \<Longrightarrow> durable r'"
  by (auto simp: AppendEntries_Inr aeAppend_Inr
      intro: durable_becomeFollower durable_log_append [OF durable_becomeFollower])

lemma durable_InstallSnapshot:
  assumes "InstallSnapshot args r = Inr (reply, r')" "durable r" "0 \<le> lastIncludedIndex r"
  shows "durable r'"
  using assms(1)
proof (cases rule: InstallSnapshot_Inr)
  case (installed kept p)
  have "durable (r''\<lparr>pendingSnapshot := q\<rparr>) = durable r''" for r'' :: "('a, 'b) Raft" and q
    by (rule durable_cong) (simp_all add: encodeStateLocked_def)
  with installed assms(3) show ?thesis by (simp add: durable_persistSnapshotLocked)
qed (use assms(2) in \<open>auto intro: durable_becomeFollower\<close>)

lemma durable_advance [simp]: "durable (advanceCommitIndexLocked r) = durable r"
  by (rule durable_cong) (simp_all add: encodeStateLocked_def)

lemma durable_volatile [simp]:
  "durable (r\<lparr>nextIndex := n\<rparr>) = durable r" "durable (r\<lparr>matchIndex := m\<rparr>) = durable r"
  "durable (r\<lparr>resetElectionTimer := b\<rparr>) = durable r"
  "durable (r\<lparr>pendingSnapshot := q, ApplyCh := ch\<rparr>) = durable r"
  "durable (r\<lparr>lastApplied := a, ApplyCh := ch\<rparr>) = durable r"
  "durable (r\<lparr>state := s\<rparr>) = durable r"
  by (rule durable_cong; simp add: encodeStateLocked_def)+

lemma durable_electionTimeout: "durable r \<Longrightarrow> durable (snd (electionTimeout r))"
proof -
  assume d: "durable r"
  have "snapshot_saved (r\<lparr>state := Candidate, currentTerm := t, votedFor := v\<rparr>)" for t v
    using durable_snapshot_saved [OF d] by (subst snapshot_saved_cong [where r' = r]) auto
  with d show ?thesis
    by (auto simp: electionTimeout_def becomeCandidateLocked_def durable_persistLocked)
qed

lemma durable_Snapshot:
  "Snapshot index data r = Inr r' \<Longrightarrow> durable r \<Longrightarrow> 0 \<le> lastIncludedIndex r \<Longrightarrow> durable r'"
  by (auto simp: Snapshot_Inr intro!: durable_persistSnapshotLocked)

lemma durable_replies:
  assumes "durable r"
  shows "durable (snd (startElection_reply vreply el r))"
    "durable (replicateToPeer_reply peer args areply r)"
    "durable (sendInstallSnapshot_reply peer sargs sreply r)"
  using assms
  by (auto simp: startElection_reply_def becomeLeaderLocked_def replicateToPeer_reply_def
      sendInstallSnapshot_reply_def Let_def durable_becomeFollower)

lemma durable_node_step:
  assumes "node_step ev r = Inr r'" "durable r" "0 \<le> lastIncludedIndex r"
  shows "durable r'"
  using assms
  by (cases ev)
     (auto simp: Propose_def takeTimerReset_def deliverPendingSnapshot_def applyPendingStep_Some Let_def
       intro: durable_RequestVote durable_AppendEntries durable_InstallSnapshot
         durable_electionTimeout durable_Snapshot durable_replies durable_log_append
       split: option.splits)

text \<open>
  (C7) Durability: after every locked section of a node, restarting it from its persister gives
  back the same term, vote, log, compaction point and snapshot.
\<close>

theorem node_step_durable:
  assumes "node_step ev r = Inr r'" "durable r" "0 \<le> lastIncludedIndex r"
    and "persister r' = Some p"
  shows "let r'' = NewRaftWithPersister (rid r') (peers r') p in
     currentTerm r'' = currentTerm r' \<and> votedFor r'' = votedFor r' \<and> log r'' = log r' \<and>
     lastIncludedIndex r'' = lastIncludedIndex r' \<and> lastIncludedTerm r'' = lastIncludedTerm r' \<and>
     snapshotData r'' = snapshotData r'"
  using durable_node_step [OF assms(1-3)] assms(4)
  by (simp add: durable_def encodeStateLocked_def ReadSnapshot_def)

theorem node_step_durable_witness:
  "\<exists>r' p. node_step EvElectionTimeout
          (NewRaftWithPersister 1 [2, 3] NewMemoryPersister :: (nat, nat) Raft) = Inr r' \<and>
        persister r' = Some p \<and> votedFor (NewRaftWithPersister (rid r') (peers r') p) = 1"
proof -
  let ?r = "NewRaftWithPersister 1 [2, 3] NewMemoryPersister :: (nat, nat) Raft"
  let ?r' = "snd (electionTimeout ?r)"
  have pre: "node_step EvElectionTimeout ?r = Inr ?r'" "durable ?r" "0 \<le> lastIncludedIndex ?r"
    by (simp_all add: durable_iff NewRaftWithPersister_def newRaft_def restoreLocked_def
        NewMemoryPersister_def ReadState_def encodeStateLocked_def bootState_def)
  have "votedFor ?r' = 1" "persister ?r' \<noteq> None"
    by (simp_all add: electionTimeout_def becomeCandidateLocked_def NewRaftWithPersister_def
        newRaft_def restoreLocked_def NewMemoryPersister_def ReadState_def)
  then show ?thesis
    using node_step_durable [OF pre] pre(1) by (auto simp: Let_def)
qed

end
