(* ===== verification/Raft_Commit.thy ===== *)
theory Raft_Commit
  imports Raft_Loops
begin

text \<open>
  What the locked sections of a node achieve: terms and votes only move forward, the commit rule
  computes the largest index the Raft paper allows, the apply loop hands every committed entry to
  the state machine once and in order, compaction loses no information, and one successful
  replication exchange makes the follower's log agree with the leader's.
\<close>

section \<open>Terms and votes\<close>

text \<open>\<open>vote_le r r'\<close>: the term did not go back, and within a term a cast vote stands.\<close>

definition vote_le :: "('c, 'd) Raft \<Rightarrow> ('c, 'd) Raft \<Rightarrow> bool" where
  "vote_le r r' \<longleftrightarrow> currentTerm r \<le> currentTerm r' \<and>
     (currentTerm r' = currentTerm r \<longrightarrow> votedFor r = -1 \<or> votedFor r' = votedFor r)"

lemma vote_le_same: "currentTerm r' = currentTerm r \<Longrightarrow> votedFor r' = votedFor r \<Longrightarrow> vote_le r r'"
  by (simp add: vote_le_def)

lemma vote_le_becomeFollower [simp]: "vote_le r (becomeFollowerLocked t r)"
  by (simp add: vote_le_def)

lemma vote_le_refl [simp]: "vote_le r r"
  by (simp add: vote_le_def)

lemma InstallSnapshot_frame:
  assumes "InstallSnapshot args r = Inr (reply, r')"
  shows "rid r' = rid r" "peers r' = peers r"
    "currentTerm r' = max (isTerm args) (currentTerm r)"
    "isrTerm reply = max (isTerm args) (currentTerm r)"
    "votedFor r' = (if isTerm args > currentTerm r then -1 else votedFor r)"
    "state r' = (if isTerm args < currentTerm r then state r else Follower)"
    "nextIndex r' = nextIndex r" "matchIndex r' = matchIndex r"
  using assms by (cases rule: InstallSnapshot_Inr; simp)+

lemma vote_le_RequestVote: "vote_le r (snd (RequestVote args r))"
  by (auto simp: vote_le_def RequestVote_votedFor grantsVote_def max_def split: if_splits)

lemma vote_le_AppendEntries: "AppendEntries args r = Inr (reply, r') \<Longrightarrow> vote_le r r'"
  by (simp add: vote_le_def AppendEntries_frame(3,5))

lemma vote_le_InstallSnapshot: "InstallSnapshot args r = Inr (reply, r') \<Longrightarrow> vote_le r r'"
  by (simp add: vote_le_def InstallSnapshot_frame(3,5))

lemma vote_le_electionTimeout: "vote_le r (snd (electionTimeout r))"
  by (simp add: vote_le_def electionTimeout_def becomeCandidateLocked_def)

lemma vote_le_replies:
  "vote_le r (snd (startElection_reply vreply el r))"
  "vote_le r (replicateToPeer_reply peer args areply r)"
  "vote_le r (sendInstallSnapshot_reply peer sargs sreply r)"
  by (simp_all add: startElection_reply_def becomeLeaderLocked_def replicateToPeer_reply_def
      sendInstallSnapshot_reply_def Let_def vote_le_same)

lemma vote_le_local:
  "vote_le r (snd (Propose c r))" "vote_le r (takeTimerReset r)" "vote_le r (deliverPendingSnapshot r)"
  "applyPendingStep r = Inr (Some r') \<Longrightarrow> vote_le r r'"
  "Snapshot index data r = Inr r' \<Longrightarrow> vote_le r r'"
  by (auto simp: Propose_def takeTimerReset_def deliverPendingSnapshot_def applyPendingStep_Some
      Snapshot_Inr Let_def intro: vote_le_same split: option.split)

lemmas vote_le_intros = vote_le_RequestVote vote_le_AppendEntries vote_le_InstallSnapshot
  vote_le_electionTimeout vote_le_replies vote_le_local

lemma node_step_vote_le: "node_step ev r = Inr r' \<Longrightarrow> vote_le r r'"
  by (cases ev) (auto intro: vote_le_intros split: option.splits)

text \<open>
  A node votes at most once per term: under every locked section the term never decreases, and
  while the term stays the same a vote, once cast, is never changed.
\<close>

theorem node_step_vote_once:
  assumes "node_step ev r = Inr r'"
  shows "currentTerm r \<le> currentTerm r' \<and>
     (currentTerm r' = currentTerm r \<longrightarrow> votedFor r = -1 \<or> votedFor r' = votedFor r)"
  using node_step_vote_le [OF assms] by (simp add: vote_le_def)

theorem node_step_vote_once_witness:
  "\<exists>r'. node_step (EvRequestVote \<lparr>rvTerm = 2, rvCandidateID = 3, rvLastLogIndex = 9, rvLastLogTerm = 9\<rparr>)
          (exFollower\<lparr>votedFor := 2\<rparr>) = Inr r' \<and> votedFor r' = 2"
proof -
  let ?ev = "EvRequestVote \<lparr>rvTerm = 2, rvCandidateID = 3, rvLastLogIndex = 9, rvLastLogTerm = 9\<rparr>"
  obtain r' where r': "node_step ?ev (exFollower\<lparr>votedFor := 2\<rparr>) = Inr r'" by simp
  then have "currentTerm r' = 2"
    by (auto simp: exFollower_def newRaft_def restoreLocked_def)
  with node_step_vote_once [OF r'] r' show ?thesis
    by (simp add: exFollower_def newRaft_def restoreLocked_def)
qed

section \<open>The commit rule\<close>

text \<open>
  The rule of the Raft paper (sections 5.3 and 5.4.2): an index beyond the commit index, in the
  leader's log, of the leader's own term, that more than half of the cluster has stored; the
  leader itself counts as one.
\<close>

definition stored_by :: "int \<Rightarrow> ('c, 'd) Raft \<Rightarrow> nat" where
  "stored_by n r = 1 + length (filter (\<lambda>p. n \<le> get0 (matchIndex r) p) (peers r))"

definition committable :: "int \<Rightarrow> ('c, 'd) Raft \<Rightarrow> bool" where
  "committable n r \<longleftrightarrow>
     commitIndex r < n \<and> 1 \<le> n \<and> n \<le> fst (lastLogInfoLocked r) \<and>
     termAtLocked n r = Some (currentTerm r) \<and> length (peers r) + 1 < 2 * stored_by n r"

text \<open>Terms along a log never decrease and never pass the node's term.\<close>

definition terms_ordered :: "('c, 'd) Raft \<Rightarrow> bool" where
  "terms_ordered r \<longleftrightarrow>
     (\<forall>i j t u. i \<le> j \<longrightarrow> termAtLocked i r = Some t \<longrightarrow> termAtLocked j r = Some u \<longrightarrow>
        t \<le> u \<and> u \<le> currentTerm r)"

lemma stored_by_matches:
  assumes "n \<le> fst (lastLogInfoLocked r)"
  shows "length (filter (\<lambda>m. n \<le> m) (fst (lastLogInfoLocked r) # map (get0 (matchIndex r)) (peers r)))
    = stored_by n r"
  using assms by (simp add: stored_by_def filter_map o_def)

lemma commitCandidate_bounds:
  shows "commitCandidate r \<le> fst (lastLogInfoLocked r) \<Longrightarrow>
      length (peers r) + 1 < 2 * stored_by (commitCandidate r) r"
    and "n \<le> fst (lastLogInfoLocked r) \<Longrightarrow> length (peers r) + 1 < 2 * stored_by n r \<Longrightarrow>
      n \<le> commitCandidate r"
proof -
  let ?ms = "fst (lastLogInfoLocked r) # map (get0 (matchIndex r)) (peers r)"
  let ?k = "length ?ms div 2"
  have len: "length ?ms = length (peers r) + 1" by simp
  have cand: "commitCandidate r = sort_desc ?ms ! ?k" by (simp add: commitCandidate_def Let_def)
  have k: "?k < length ?ms" unfolding len by arith
  {
    assume "commitCandidate r \<le> fst (lastLogInfoLocked r)"
    then have "?k < stored_by (commitCandidate r) r"
      using sort_desc_nth_count [OF k] stored_by_matches unfolding cand by metis
    then show "length (peers r) + 1 < 2 * stored_by (commitCandidate r) r"
      unfolding len by arith
  next
    assume "n \<le> fst (lastLogInfoLocked r)" "length (peers r) + 1 < 2 * stored_by n r"
    then have "?k < length (filter (\<lambda>m. n \<le> m) ?ms)"
      unfolding stored_by_matches [OF \<open>n \<le> fst (lastLogInfoLocked r)\<close>] len by arith
    then show "n \<le> commitCandidate r"
      unfolding cand by (rule sort_desc_nth_maximal [OF k])
  }
qed

lemma advance_sound:
  "commitIndex (advanceCommitIndexLocked r) = commitIndex r \<or>
   committable (commitIndex (advanceCommitIndexLocked r)) r"
  using commitCandidate_bounds(1) [of r]
  by (auto simp: advanceCommitIndexLocked_def committable_def Let_def)

text \<open>
  (C6) The commit rule, soundness and maximality: reading the middle of the sorted match indices, a
  leader moves its commit index only to an index the paper's rule allows, and, as terms along its
  log are ordered and no follower is recorded ahead of it, to the largest such index.
\<close>

theorem advanceCommitIndexLocked_is_paper_rule:
  assumes "state r = Leader" "terms_ordered r"
    and "\<forall>p \<in> set (peers r). get0 (matchIndex r) p \<le> fst (lastLogInfoLocked r)"
  shows "(commitIndex (advanceCommitIndexLocked r) = commitIndex r \<or>
          committable (commitIndex (advanceCommitIndexLocked r)) r) \<and>
         (\<forall>n. committable n r \<longrightarrow> n \<le> commitIndex (advanceCommitIndexLocked r))"
proof (intro conjI allI impI)
  fix n assume n: "committable n r"
  let ?c = "commitCandidate r"
  have le: "n \<le> ?c" using n commitCandidate_bounds(2) by (auto simp: committable_def)
  have "?c \<in> set (fst (lastLogInfoLocked r) # map (get0 (matchIndex r)) (peers r))"
    unfolding commitCandidate_def Let_def
    by (subst set_sort_desc [symmetric], rule nth_mem) simp
  then have last: "?c \<le> fst (lastLogInfoLocked r)" using assms(3) by auto
  from n have tn: "termAtLocked n r = Some (currentTerm r)" by (simp add: committable_def)
  then have "lastIncludedIndex r \<le> n" using termAtLocked_Some_iff by blast
  with le last obtain u where u: "termAtLocked ?c r = Some u"
    using termAtLocked_Some_iff [of ?c r] by auto
  with assms(2) le tn have "u = currentTerm r" unfolding terms_ordered_def by force
  with u n le last show "n \<le> commitIndex (advanceCommitIndexLocked r)"
    using assms(1) by (auto simp: advanceCommitIndexLocked_def committable_def Let_def)
qed (rule advance_sound)

text \<open>A leader of term 2 with three entries whose first follower has stored all of them.\<close>

definition exLeader :: "(nat, nat) Raft" where
  "exLeader = (newRaft 1 [2, 3] None)\<lparr>state := Leader, currentTerm := 2,
     log := [\<lparr>entryTerm = 1, entryCommand = 10\<rparr>, \<lparr>entryTerm = 2, entryCommand = 11\<rparr>,
             \<lparr>entryTerm = 2, entryCommand = 12\<rparr>],
     nextIndex := [2 \<mapsto> 4, 3 \<mapsto> 1], matchIndex := [2 \<mapsto> 3, 3 \<mapsto> 0]\<rparr>"

lemmas exLeader_eval = exLeader_def newRaft_def restoreLocked_def

lemma exLeader_termAt:
  "termAtLocked i exLeader =
     (if i = 0 then Some 0 else if i = 1 then Some 1 else if i = 2 \<or> i = 3 then Some 2 else None)"
proof -
  consider "i = 1" | "i = 2" | "i = 3" | "i \<le> 0" | "i > 3" by linarith
  then show ?thesis
    by cases (auto simp: exLeader_eval termAtLocked_def physicalIndexLocked_def Let_def)
qed

theorem advanceCommitIndexLocked_is_paper_rule_witness:
  "3 \<le> commitIndex (advanceCommitIndexLocked exLeader)"
proof -
  have last: "fst (lastLogInfoLocked exLeader) = 3"
    by (simp add: exLeader_eval fst_lastLogInfoLocked)
  have "terms_ordered exLeader"
    unfolding terms_ordered_def exLeader_termAt by (auto simp: exLeader_eval split: if_splits)
  moreover have "committable 3 exLeader"
    unfolding committable_def exLeader_termAt last
    by (simp add: stored_by_def exLeader_eval get0_def)
  moreover have "state exLeader = Leader"
    "\<forall>p \<in> set (peers exLeader). get0 (matchIndex exLeader) p \<le> fst (lastLogInfoLocked exLeader)"
    unfolding last by (simp_all add: exLeader_eval get0_def)
  ultimately show ?thesis using advanceCommitIndexLocked_is_paper_rule by blast
qed

section \<open>The apply loop\<close>

text \<open>The messages for the committed entries from index \<open>a + 1\<close> up to \<open>b\<close>.\<close>

definition commandMsgs :: "('c, 'd) Raft \<Rightarrow> int \<Rightarrow> int \<Rightarrow> ('c, 'd) ApplyMsg list" where
  "commandMsgs r a b =
     map (\<lambda>i. CommandMsg i (entryTerm (log r ! nat (i - lastIncludedIndex r - 1)))
                (entryCommand (log r ! nat (i - lastIncludedIndex r - 1)))) [a + 1..b]"

lemma commandMsgs_step:
  "a < b \<Longrightarrow> commandMsgs r a b =
     CommandMsg (a + 1) (entryTerm (log r ! nat (a - lastIncludedIndex r)))
       (entryCommand (log r ! nat (a - lastIncludedIndex r))) # commandMsgs r (a + 1) b"
  by (simp add: commandMsgs_def upto.simps [of "a + 1" b])

lemma commandMsgs_cong:
  "log r = log r' \<Longrightarrow> lastIncludedIndex r = lastIncludedIndex r' \<Longrightarrow>
     commandMsgs r a b = commandMsgs r' a b"
  by (simp add: commandMsgs_def)

lemma applyPending_eq:
  assumes "node_inv r"
  shows "applyPending r =
     Inr (r\<lparr>lastApplied := commitIndex r,
            ApplyCh := ApplyCh r @ commandMsgs r (lastApplied r) (commitIndex r)\<rparr>)"
  using assms
proof (induction r rule: applyPending.induct)
  case (1 r)
  show ?case
  proof (cases "lastApplied r < commitIndex r")
    case False
    with "1.prems" have "lastApplied r = commitIndex r" by (simp add: node_inv_def)
    moreover from this have "applyPendingStep r = Inr None" by (simp add: applyPendingStep_def)
    ultimately show ?thesis by (subst applyPending.simps) (simp add: commandMsgs_def)
  next
    case True
    with "1.prems" obtain r' where step: "applyPendingStep r = Inr (Some r')"
      by (auto simp: applyPendingStep_Some node_inv_def fst_lastLogInfoLocked)
    have inv: "node_inv r'" using node_inv_applyPendingStep [OF "1.prems" step] .
    have "commandMsgs r' a b = commandMsgs r a b" for a b
      using step by (intro commandMsgs_cong) (auto simp: applyPendingStep_Some)
    moreover have "applyPending r = applyPending r'"
      using step by (subst applyPending.simps) simp
    ultimately show ?thesis
      using "1.IH" [OF step refl inv] step True
      by (auto simp: applyPendingStep_Some commandMsgs_step)
  qed
qed

text \<open>
  Delivery: one uninterrupted tick of the apply loop terminates and appends to \<open>ApplyCh\<close> first
  the pending snapshot, if there is one, and then every entry between the last applied and the
  commit index, each once and in index order; afterwards nothing committed is left undelivered.
\<close>

theorem applyTick_delivers:
  assumes "node_inv r"
  shows "applyTick r =
     Inr (r\<lparr>pendingSnapshot := None, lastApplied := commitIndex r,
            ApplyCh := ApplyCh r
              @ (case pendingSnapshot r of None \<Rightarrow> [] | Some m \<Rightarrow> [m])
              @ commandMsgs r (lastApplied r) (commitIndex r)\<rparr>)"
proof -
  let ?r = "deliverPendingSnapshot r"
  have "commandMsgs ?r a b = commandMsgs r a b" for a b
    by (rule commandMsgs_cong) (simp_all add: deliverPendingSnapshot_def split: option.split)
  then have "applyTick r = Inr (?r\<lparr>lastApplied := commitIndex ?r,
      ApplyCh := ApplyCh ?r @ commandMsgs r (lastApplied ?r) (commitIndex ?r)\<rparr>)"
    using applyPending_eq [OF node_inv_deliver [OF assms]] by (simp add: applyTick_def)
  then show ?thesis
    by (cases r) (auto simp: deliverPendingSnapshot_def split: option.split)
qed

theorem applyTick_delivers_witness:
  "\<exists>r'. applyTick (exFollower\<lparr>commitIndex := 2\<rparr>) = Inr r' \<and>
     ApplyCh r' = [CommandMsg 1 1 10, CommandMsg 2 1 11]"
proof -
  have "node_inv (exFollower\<lparr>commitIndex := 2\<rparr>)"
    by (simp add: node_inv_def exFollower_def newRaft_def restoreLocked_def fst_lastLogInfoLocked)
  from applyTick_delivers [OF this] show ?thesis
    by (simp add: exFollower_def newRaft_def restoreLocked_def commandMsgs_def upto.simps)
qed

definition exLagging :: "(nat, nat) Raft" where
  "exLagging = (newRaft 3 [1, 2] None)\<lparr>currentTerm := 1,
     log := [\<lparr>entryTerm = 1, entryCommand = 1\<rparr>, \<lparr>entryTerm = 1, entryCommand = 2\<rparr>],
     commitIndex := 2\<rparr>"

definition exInstall :: "nat InstallSnapshotArgs" where
  "exInstall = \<lparr>isTerm = 1, isLeaderID = 1, isLastIncludedIndex = 10, isLastIncludedTerm = 1,
     isData = Some 0\<rparr>"

definition exEleven :: "nat AppendEntriesArgs" where
  "exEleven = \<lparr>aeTerm = 1, aeLeaderID = 1, aePrevLogIndex = 10, aePrevLogTerm = 1,
     aeEntries = [\<lparr>entryTerm = 1, entryCommand = 11\<rparr>], aeLeaderCommit = 11\<rparr>"

fun node_steps :: "('c, 'd) nodeEvent list \<Rightarrow> ('c, 'd) Raft \<Rightarrow> ('c, 'd) Raft res" where
  "node_steps [] r = Inr r"
| "node_steps (ev # evs) r = bind_res (node_step ev r) (node_steps evs)"

lemmas delivery_eval = exLagging_def exInstall_def exEleven_def newRaft_def restoreLocked_def
  applyPendingStep_def AppendEntries_def InstallSnapshot_def aeConsistent_def aeAppend_def
  aeCommit_def becomeFollowerLocked_def ResetElectionTimer_def persistLocked_def
  persistSnapshotLocked_def termAtLocked_def physicalIndexLocked_def lastLogInfoLocked_def
  slice_to_def index_at_def deliverPendingSnapshot_def


section \<open>Compaction\<close>

text \<open>
  Compaction: an accepted \<open>Snapshot\<close> call moves the compaction point to the given index and
  keeps every later entry, so the term at every index from there on and the last log position are
  unchanged; a call at or below the compaction point changes nothing, and a call past what the node
  has applied is an error.
\<close>

theorem Snapshot_preserves_suffix:
  assumes "node_inv r"
  shows "(lastApplied r < index \<longrightarrow> (\<exists>e. Snapshot index data r = Inl (Error e))) \<and>
     (index \<le> lastApplied r \<longrightarrow>
        (\<exists>r'. Snapshot index data r = Inr r' \<and>
           lastIncludedIndex r' = max index (lastIncludedIndex r) \<and>
           lastLogInfoLocked r' = lastLogInfoLocked r \<and>
           (\<forall>i \<ge> lastIncludedIndex r'. termAtLocked i r' = termAtLocked i r) \<and>
           (lastIncludedIndex r < index \<longrightarrow> ReadSnapshot r' = data)))"
proof (intro conjI impI)
  assume "lastApplied r < index"
  with assms show "\<exists>e. Snapshot index data r = Inl (Error e)"
    by (auto simp: Snapshot_def node_inv_def)
next
  assume le: "index \<le> lastApplied r"
  show "\<exists>r'. Snapshot index data r = Inr r' \<and>
      lastIncludedIndex r' = max index (lastIncludedIndex r) \<and>
      lastLogInfoLocked r' = lastLogInfoLocked r \<and>
      (\<forall>i \<ge> lastIncludedIndex r'. termAtLocked i r' = termAtLocked i r) \<and>
      (lastIncludedIndex r < index \<longrightarrow> ReadSnapshot r' = data)"
  proof (cases "index \<le> lastIncludedIndex r")
    case True
    then show ?thesis by (simp add: Snapshot_def)
  next
    case False
    let ?n = "nat (index - lastIncludedIndex r)"
    have bounds: "0 < ?n" "?n \<le> length (log r)" "index \<le> fst (lastLogInfoLocked r)"
      using False le assms by (auto simp: node_inv_def fst_lastLogInfoLocked)
    obtain r' where r': "Snapshot index data r = Inr r'" and
      fields: "log r' = drop ?n (log r)" "lastIncludedIndex r' = index" "snapshotData r' = data"
        "lastIncludedTerm r' = entryTerm (log r ! nat (index - lastIncludedIndex r - 1))"
      using False le bounds by (simp add: Snapshot_Inr)
    have "lastLogInfoLocked r' = lastLogInfoLocked r"
      using False bounds by (auto simp: lastLogInfoLocked_def fields last_conv_nth nat_diff_distrib')
    moreover have "termAtLocked i r' = termAtLocked i r" if "index \<le> i" for i
    proof (cases "index < i \<and> i \<le> fst (lastLogInfoLocked r)")
      case True
      then have "?n + nat (i - index - 1) = nat (i - lastIncludedIndex r - 1)"
        using False by arith
      then show ?thesis
        using True False bounds
        by (auto simp: termAtLocked_def physicalIndexLocked_def Let_def fields fst_lastLogInfoLocked
            nth_drop)
    next
      case outside: False
      with that False bounds show ?thesis
        by (auto simp: termAtLocked_def physicalIndexLocked_def Let_def fields fst_lastLogInfoLocked)
    qed
    ultimately show ?thesis using r' False by (auto simp: fields ReadSnapshot_def)
  qed
qed

theorem Snapshot_preserves_suffix_witness:
  "\<exists>r'. Snapshot 1 (Some 5) (exFollower\<lparr>commitIndex := 2, lastApplied := 2\<rparr>) = Inr r' \<and>
     lastIncludedIndex r' = 1 \<and> ReadSnapshot r' = Some 5"
proof -
  let ?r = "exFollower\<lparr>commitIndex := 2, lastApplied := 2\<rparr>"
  have "node_inv ?r" "1 \<le> lastApplied ?r" "lastIncludedIndex ?r = 0"
    by (simp_all add: node_inv_def exFollower_def newRaft_def restoreLocked_def fst_lastLogInfoLocked)
  with Snapshot_preserves_suffix [of ?r 1 "Some 5"] show ?thesis by auto
qed

section \<open>One replication exchange\<close>

text \<open>The entry a node holds at an absolute index, if it has not compacted it away.\<close>

definition entryAt :: "int \<Rightarrow> ('c, 'd) Raft \<Rightarrow> 'c LogEntry option" where
  "entryAt i r =
     (if lastIncludedIndex r < i \<and> i \<le> fst (lastLogInfoLocked r)
      then Some (log r ! nat (i - lastIncludedIndex r - 1)) else None)"

lemma replicateToPeer_begin_AE:
  assumes "replicateToPeer_begin peer r = Inr (ReplAppendEntries args)"
  shows "state r = Leader" "aeTerm args = currentTerm r" "aeLeaderID args = rid r"
    "aePrevLogIndex args = get0 (nextIndex r) peer - 1" "lastIncludedIndex r \<le> aePrevLogIndex args"
    "aeEntries args = drop (nat (aePrevLogIndex args - lastIncludedIndex r)) (log r)"
    "1 \<le> aePrevLogIndex args \<Longrightarrow> aePrevLogIndex args \<le> fst (lastLogInfoLocked r) \<Longrightarrow>
       termAtLocked (aePrevLogIndex args) r = Some (aePrevLogTerm args)"
    "aeLeaderCommit args = commitIndex r"
  using assms termAtLocked_Some_iff [of "get0 (nextIndex r) peer - 1" r]
  by (auto simp: replicateToPeer_begin_def Let_def slice_iffs physicalIndexLocked_def
      cancel_ab_semigroup_add_class.diff_right_commute [of _ "1::int"] split: if_splits option.splits)

lemma entries_cover:
  assumes "lastIncludedIndex r \<le> p" "p \<le> fst (lastLogInfoLocked r)"
    "es = drop (nat (p - lastIncludedIndex r)) (log r)"
  shows "p + int (length es) = fst (lastLogInfoLocked r)"
    "p < i \<Longrightarrow> i \<le> fst (lastLogInfoLocked r) \<Longrightarrow> entryAt i r = Some (es ! nat (i - p - 1))"
proof -
  show "p + int (length es) = fst (lastLogInfoLocked r)"
    using assms by (simp add: fst_lastLogInfoLocked)
  assume i: "p < i" "i \<le> fst (lastLogInfoLocked r)"
  have "nat (p - lastIncludedIndex r) + nat (i - p - 1) = nat (i - lastIncludedIndex r - 1)"
    using assms(1) i(1) by arith
  then show "entryAt i r = Some (es ! nat (i - p - 1))"
    using assms i by (simp add: entryAt_def fst_lastLogInfoLocked)
qed

lemma entryAt_append:
  assumes "0 \<le> k" "k \<le> int (length (log r))" "log r' = take (nat k) (log r) @ es"
    "lastIncludedIndex r' = lastIncludedIndex r" "lastIncludedIndex r + k < i"
    "i \<le> lastIncludedIndex r + k + int (length es)"
  shows "entryAt i r' = Some (es ! nat (i - (lastIncludedIndex r + k) - 1))"
proof -
  have "nat (i - lastIncludedIndex r - 1) = nat k + nat (i - (lastIncludedIndex r + k) - 1)"
    using assms(1,5) by arith
  then show ?thesis
    using assms by (simp add: entryAt_def fst_lastLogInfoLocked nth_append)
qed

text \<open>
  One replication exchange: when a follower accepts the call a leader built for it, then from
  the entry after \<open>PrevLogIndex\<close> to the leader's last index the follower holds exactly the leader's
  entries, the entry before them has the leader's term, a non-empty batch leaves the follower's log
  ending where the leader's ends, the leader never advertises a commit index beyond what it sends,
  and the match index it records for the follower is its own last index.
\<close>

theorem replication_exchange:
  assumes sent: "replicateToPeer_begin peer leader = Inr (ReplAppendEntries args)"
    and handled: "AppendEntries args follower = Inr (reply, follower')" "aerSuccess reply"
    and inv: "node_inv leader"
    and sane: "get0 (nextIndex leader) peer \<le> fst (lastLogInfoLocked leader) + 1"
  shows "(\<forall>i. aePrevLogIndex args < i \<and> i \<le> fst (lastLogInfoLocked leader) \<longrightarrow>
            entryAt i follower' = entryAt i leader) \<and>
     (1 \<le> aePrevLogIndex args \<longrightarrow>
        termAtLocked (aePrevLogIndex args) follower = termAtLocked (aePrevLogIndex args) leader) \<and>
     (aeEntries args \<noteq> [] \<longrightarrow>
        fst (lastLogInfoLocked follower') = fst (lastLogInfoLocked leader)) \<and>
     aeLeaderCommit args \<le> aePrevLogIndex args + int (length (aeEntries args)) \<and>
     aePrevLogIndex args + int (length (aeEntries args)) = fst (lastLogInfoLocked leader)"
proof -
  note b = replicateToPeer_begin_AE [OF sent]
  let ?p = "aePrevLogIndex args"
  have p: "?p \<le> fst (lastLogInfoLocked leader)" using b(4) sane by simp
  note cover = entries_cover [OF b(5) p b(6)]
  have cons: "aeConsistent args follower" and nstale: "\<not> aeTerm args < currentTerm follower"
    using handled by (auto simp: AppendEntries_Inr)
  obtain r2 where app: "aeAppend args (becomeFollowerLocked (aeTerm args) follower) = Inr r2"
    and f': "follower' = ResetElectionTimer (aeCommit args r2)"
    using handled by (auto simp: AppendEntries_Inr)
  have lii: "lastIncludedIndex follower' = lastIncludedIndex follower"
    using handled(1) by (simp add: AppendEntries_frame)
  have "entryAt i follower' = entryAt i leader"
    if i: "?p < i" "i \<le> fst (lastLogInfoLocked leader)" for i
  proof -
    from i cover(1) have "aeEntries args \<noteq> []" by auto
    then have "log follower' = take (nat (?p - lastIncludedIndex follower)) (log follower) @ aeEntries args"
        "0 \<le> ?p - lastIncludedIndex follower" "?p - lastIncludedIndex follower \<le> int (length (log follower))"
      using app f' by (auto simp: aeAppend_Inr)
    then have "entryAt i follower' = Some (aeEntries args ! nat (i - ?p - 1))"
      using entryAt_append [of "?p - lastIncludedIndex follower" follower follower' "aeEntries args" i]
        lii i cover(1) by simp
    then show ?thesis using cover(2) [OF i] by simp
  qed
  moreover have "1 \<le> ?p \<longrightarrow> termAtLocked ?p follower = termAtLocked ?p leader"
    using b(7) p aeConsistent_bounds(3) [OF cons] by auto
  moreover have "aeEntries args \<noteq> [] \<longrightarrow>
      fst (lastLogInfoLocked follower') = fst (lastLogInfoLocked leader)"
    using app f' lii cover(1) by (auto simp: aeAppend_Inr fst_lastLogInfoLocked)
  moreover have "aeLeaderCommit args \<le> fst (lastLogInfoLocked leader)"
    using b(8) inv by (simp add: node_inv_def)
  ultimately show ?thesis using cover(1) by auto
qed

definition exAccepts :: "nat AppendEntriesArgs" where
  "exAccepts = \<lparr>aeTerm = 2, aeLeaderID = 1, aePrevLogIndex = 1, aePrevLogTerm = 1,
     aeEntries = [\<lparr>entryTerm = 2, entryCommand = 11\<rparr>, \<lparr>entryTerm = 2, entryCommand = 12\<rparr>],
     aeLeaderCommit = 0\<rparr>"

lemma exAccepts_run:
  "replicateToPeer_begin 3 (exLeader\<lparr>nextIndex := [2 \<mapsto> 4, 3 \<mapsto> 2]\<rparr>) = Inr (ReplAppendEntries exAccepts)"
  "\<exists>f'. AppendEntries exAccepts exFollower = Inr (\<lparr>aerTerm = 2, aerSuccess = True\<rparr>, f')"
  by (simp_all add: replicateToPeer_begin_def exLeader_eval exAccepts_def exFollower_def get0_def
      termAtLocked_def physicalIndexLocked_def slice_from_def AppendEntries_Inr aeAppend_Inr
      aeConsistent_def lastLogInfoLocked_def)

theorem replication_exchange_witness:
  "\<exists>f'. AppendEntries exAccepts exFollower = Inr (\<lparr>aerTerm = 2, aerSuccess = True\<rparr>, f') \<and>
     entryAt 3 f' = Some \<lparr>entryTerm = 2, entryCommand = 12\<rparr>"
proof -
  let ?l = "exLeader\<lparr>nextIndex := [2 \<mapsto> 4, 3 \<mapsto> 2]\<rparr>"
  obtain f' where f': "AppendEntries exAccepts exFollower = Inr (\<lparr>aerTerm = 2, aerSuccess = True\<rparr>, f')"
    using exAccepts_run(2) by blast
  have l: "fst (lastLogInfoLocked ?l) = 3" "node_inv ?l" "get0 (nextIndex ?l) 3 \<le> 3 + 1"
    "entryAt 3 ?l = Some \<lparr>entryTerm = 2, entryCommand = 12\<rparr>"
    by (simp_all add: node_inv_def exLeader_eval fst_lastLogInfoLocked entryAt_def get0_def)
  have "entryAt 3 f' = entryAt 3 ?l"
    using replication_exchange [OF exAccepts_run(1) f' _ l(2)] l by (simp add: exAccepts_def)
  with f' l(4) show ?thesis by auto
qed

definition exDelayed :: "nat AppendEntriesArgs" where
  "exDelayed = \<lparr>aeTerm = 2, aeLeaderID = 2, aePrevLogIndex = 0, aePrevLogTerm = 0,
     aeEntries = [\<lparr>entryTerm = 1, entryCommand = 10\<rparr>], aeLeaderCommit = 0\<rparr>"


end
