(* ===== verification/Raft_Cluster.thy ===== *)
theory Raft_Cluster
  imports Raft_Commit
begin

text \<open>
  A cluster of Raft nodes (\<open>election_timer.go\<close>, \<open>election.go\<close>): every node runs the locked sections
  of \<open>Raft_Loops\<close> in any order, interleaved with the goroutines of its elections, with lost,
  delayed and reordered messages, and with crashes followed by a restart from the persister.

  \<^item> \<open>spawned\<close> counts the \<open>startElection\<close> goroutines a node has launched (\<open>go r.startElection()\<close>)
    that have not yet read the node's state; a node may have moved to another term when one does.
  \<^item> \<open>elections\<close> holds every election that has read it, with the vote counter and the state of the
    goroutine of each peer: the call is on its way, has been answered, has been counted as a vote,
    or has been dismissed.
  \<^item> \<open>epoch\<close> counts the restarts of a node; the goroutines of an earlier epoch are gone.
  \<^item> Requests and replies of \<open>AppendEntries\<close> and \<open>InstallSnapshot\<close> are arbitrary, so election safety
    is shown for every behaviour of the replication traffic.
  \<^item> \<open>votes\<close> and \<open>leaders\<close> are history variables: all votes (voter, term, candidate) that were ever
    on record and all pairs (term, node) of leaderships. No step reads them.
\<close>

datatype voteCall = Pending | Replied RequestVoteReply | Counted | Dismissed

record Run =
  runNode :: int
  runEpoch :: nat
  runEl :: Election
  runCalls :: "int \<Rightarrow> voteCall"

record ('c, 'd) Cluster =
  node :: "int \<Rightarrow> ('c, 'd) Raft"
  spawned :: "int \<Rightarrow> nat"
  epoch :: "int \<Rightarrow> nat"
  elections :: "Run list"
  votes :: "(int \<times> int \<times> int) set"
  leaders :: "(int \<times> int) set"

definition setNode :: "int \<Rightarrow> ('c, 'd) Raft \<Rightarrow> ('c, 'd) Cluster \<Rightarrow> ('c, 'd) Cluster" where
  "setNode i r c = c\<lparr>node := (node c)(i := r),
     votes := votes c \<union> (if votedFor r = -1 then {} else {(i, currentTerm r, votedFor r)}),
     leaders := leaders c \<union> (if state r = Leader then {(currentTerm r, i)} else {})\<rparr>"

text \<open>The events that involve no election goroutine.\<close>

fun is_local :: "('c, 'd) nodeEvent \<Rightarrow> bool" where
  "is_local (EvRequestVote _) = False"
| "is_local EvElectionTimeout = False"
| "is_local (EvVoteReply _ _) = False"
| "is_local _ = True"

definition newRun :: "int \<Rightarrow> ('c, 'd) Cluster \<Rightarrow> Run" where
  "newRun i c = \<lparr>runNode = i, runEpoch = epoch c i, runEl = startElection_begin (node c i),
                 runCalls = (\<lambda>_. Pending)\<rparr>"

definition restartNode :: "int \<Rightarrow> ('c, 'd) MemoryPersister \<Rightarrow> ('c, 'd) Cluster \<Rightarrow> ('c, 'd) Cluster" where
  "restartNode i p c =
     (setNode i (NewRaftWithPersister i (peers (node c i)) p) c)
       \<lparr>epoch := (epoch c)(i := epoch c i + 1), spawned := (spawned c)(i := 0)\<rparr>"

inductive cstep :: "int set \<Rightarrow> ('c, 'd) Cluster \<Rightarrow> ('c, 'd) Cluster \<Rightarrow> bool" for E where
  local: "i \<in> E \<Longrightarrow> is_local ev \<Longrightarrow> node_step ev (node c i) = Inr r' \<Longrightarrow>
     cstep E c (setNode i r' c)"
| timeout: "i \<in> E \<Longrightarrow> electionTimeout (node c i) = (True, r') \<Longrightarrow>
     cstep E c ((setNode i r' c)\<lparr>spawned := (spawned c)(i := spawned c i + 1)\<rparr>)"
| begins: "i \<in> E \<Longrightarrow> 0 < spawned c i \<Longrightarrow>
     cstep E c (c\<lparr>spawned := (spawned c)(i := spawned c i - 1),
                  elections := elections c @ [newRun i c]\<rparr>)"
| request: "k < length (elections c) \<Longrightarrow> run = elections c ! k \<Longrightarrow> p \<in> set (elPeers (runEl run)) \<Longrightarrow>
     runCalls run p = Pending \<Longrightarrow> RequestVote (elArgs (runEl run)) (node c p) = (reply, r') \<Longrightarrow>
     cstep E c ((setNode p r' c)\<lparr>elections := (elections c)[k :=
        run\<lparr>runCalls := (runCalls run)(p := Replied reply)\<rparr>]\<rparr>)"
| reply: "k < length (elections c) \<Longrightarrow> run = elections c ! k \<Longrightarrow> p \<in> set (elPeers (runEl run)) \<Longrightarrow>
     runCalls run p = Replied reply \<Longrightarrow> i = runNode run \<Longrightarrow> epoch c i = runEpoch run \<Longrightarrow>
     startElection_reply reply (runEl run) (node c i) = (el', r') \<Longrightarrow>
     cstep E c ((setNode i r' c)\<lparr>elections := (elections c)[k :=
        run\<lparr>runEl := el', runCalls := (runCalls run)
          (p := (if elVotes (runEl run) < elVotes el' then Counted else Dismissed))\<rparr>]\<rparr>)"
| crash: "i \<in> E \<Longrightarrow> persister (node c i) = Some p \<Longrightarrow> cstep E c (restartNode i p c)"
| panic: "i \<in> E \<Longrightarrow> AppendEntries args (node c i) = Inl e \<Longrightarrow>
     persister (becomeFollowerLocked (aeTerm args) (node c i)) = Some p \<Longrightarrow>
     cstep E c (restartNode i p c)"

inductive_cases cstepE: "cstep E c c'"

text \<open>The cluster at first boot: every node built by \<open>NewRaftWithPersister\<close> on an empty persister.\<close>

definition initCluster :: "(int \<Rightarrow> int list) \<Rightarrow> ('c, 'd) Cluster" where
  "initCluster ps =
     \<lparr>node = (\<lambda>i. NewRaftWithPersister i (ps i) NewMemoryPersister), spawned = (\<lambda>_. 0),
      epoch = (\<lambda>_. 0), elections = [], votes = {}, leaders = {}\<rparr>"

inductive reachableC :: "int set \<Rightarrow> (int \<Rightarrow> int list) \<Rightarrow> ('c, 'd) Cluster \<Rightarrow> bool" for E ps where
  init: "reachableC E ps (initCluster ps)"
| step: "reachableC E ps c \<Longrightarrow> cstep E c c' \<Longrightarrow> reachableC E ps c'"

text \<open>
  A proper cluster configuration: finitely many nodes, no id is the \<open>votedFor\<close> sentinel, and every
  node lists each other node once.
\<close>

definition peersOK :: "int set \<Rightarrow> (int \<Rightarrow> int list) \<Rightarrow> bool" where
  "peersOK E ps \<longleftrightarrow> finite E \<and> -1 \<notin> E \<and> (\<forall>i\<in>E. distinct (ps i) \<and> set (ps i) = E - {i})"

lemma peersOK_length: "peersOK E ps \<Longrightarrow> i \<in> E \<Longrightarrow> length (ps i) + 1 = card E"
  using distinct_card [of "ps i"] card_Suc_Diff1 [of E i] by (auto simp: peersOK_def)

section \<open>Invariants\<close>

definition voteRecorded :: "('c, 'd) Cluster \<Rightarrow> int \<Rightarrow> bool" where
  "voteRecorded c i \<longleftrightarrow>
     (votedFor (node c i) \<noteq> -1 \<longrightarrow> (i, currentTerm (node c i), votedFor (node c i)) \<in> votes c) \<and>
     (\<forall>t v. (i, t, v) \<in> votes c \<longrightarrow>
        t \<le> currentTerm (node c i) \<and> (t = currentTerm (node c i) \<longrightarrow> v = votedFor (node c i)) \<and> v \<noteq> -1)"

definition votesUnique :: "('c, 'd) Cluster \<Rightarrow> bool" where
  "votesUnique c \<longleftrightarrow> (\<forall>i t v w. (i, t, v) \<in> votes c \<longrightarrow> (i, t, w) \<in> votes c \<longrightarrow> v = w)"

definition nodeOK :: "int set \<Rightarrow> (int \<Rightarrow> int list) \<Rightarrow> int \<Rightarrow> ('c, 'd) Raft \<Rightarrow> bool" where
  "nodeOK E ps i r \<longleftrightarrow>
     rid r = i \<and> peers r = ps i \<and> 0 \<le> lastIncludedIndex r \<and> durable r \<and> persister r \<noteq> None \<and>
     (state r \<noteq> Follower \<longrightarrow> votedFor r = i)"

definition runOK :: "int set \<Rightarrow> (int \<Rightarrow> int list) \<Rightarrow> ('c, 'd) Cluster \<Rightarrow> Run \<Rightarrow> bool" where
  "runOK E ps c run \<longleftrightarrow>
     (let el = runEl run in
      runNode run \<in> E \<and> rvCandidateID (elArgs el) = runNode run \<and> elPeers el = ps (runNode run) \<and>
      elVotes el = 1 + card {p \<in> set (elPeers el). runCalls run p = Counted} \<and>
      (\<forall>p \<in> set (elPeers el).
         runCalls run p = Counted \<or> (\<exists>reply. runCalls run p = Replied reply \<and> rvrVoteGranted reply) \<longrightarrow>
         (p, rvTerm (elArgs el), runNode run) \<in> votes c))"

definition electedBy :: "int set \<Rightarrow> ('c, 'd) Cluster \<Rightarrow> int \<Rightarrow> int \<Rightarrow> bool" where
  "electedBy E c t i \<longleftrightarrow>
     (\<exists>S \<subseteq> E. card E div 2 < card S \<and> (\<forall>s\<in>S. (s, t, i) \<in> votes c))"

definition cinv :: "int set \<Rightarrow> (int \<Rightarrow> int list) \<Rightarrow> ('c, 'd) Cluster \<Rightarrow> bool" where
  "cinv E ps c \<longleftrightarrow>
     (\<forall>i\<in>E. nodeOK E ps i (node c i) \<and> voteRecorded c i) \<and> votesUnique c \<and>
     (\<forall>run \<in> set (elections c). runOK E ps c run) \<and>
     (\<forall>t i. (t, i) \<in> leaders c \<longrightarrow> electedBy E c t i) \<and>
     (\<forall>i\<in>E. state (node c i) = Leader \<longrightarrow> (currentTerm (node c i), i) \<in> leaders c)"

section \<open>Node facts\<close>

lemma persister_None [simp]:
  "persister (becomeFollowerLocked t r) = None \<longleftrightarrow> persister r = None"
  "persister (persistSnapshotLocked d r) = None \<longleftrightarrow> persister r = None"
  by (simp_all add: becomeFollowerLocked_def persistSnapshotLocked_def Let_def split: option.split)

lemma handler_frame:
  "persister (snd (RequestVote vargs r)) = None \<longleftrightarrow> persister r = None"
  "AppendEntries args r = Inr (reply, r') \<Longrightarrow> persister r' = None \<longleftrightarrow> persister r = None"
  "InstallSnapshot sargs r = Inr (sreply, r') \<Longrightarrow> persister r' = None \<longleftrightarrow> persister r = None"
  "InstallSnapshot sargs r = Inr (sreply, r') \<Longrightarrow> lastIncludedIndex r \<le> lastIncludedIndex r'"
     apply (simp add: RequestVote_def Let_def)
    apply (auto simp: AppendEntries_Inr aeAppend_Inr) [1]
   apply (erule InstallSnapshot_Inr; simp)
  apply (erule InstallSnapshot_Inr; simp)
  done

text \<open>
  \<open>frame_le r r'\<close>: what every locked section keeps. A node that is not a follower has voted for
  itself in its term (\<open>selfVoted\<close>).
\<close>

definition selfVoted :: "('c, 'd) Raft \<Rightarrow> bool" where
  "selfVoted r \<longleftrightarrow> (state r \<noteq> Follower \<longrightarrow> votedFor r = rid r)"

definition frame_le :: "('c, 'd) Raft \<Rightarrow> ('c, 'd) Raft \<Rightarrow> bool" where
  "frame_le r r' \<longleftrightarrow> rid r' = rid r \<and> peers r' = peers r \<and>
     (persister r' = None \<longleftrightarrow> persister r = None) \<and> lastIncludedIndex r \<le> lastIncludedIndex r' \<and>
     (selfVoted r \<longrightarrow> rid r \<noteq> -1 \<longrightarrow> selfVoted r')"

lemma frame_le_same:
  assumes "rid r' = rid r" "peers r' = peers r" "persister r' = persister r"
    "lastIncludedIndex r' = lastIncludedIndex r" "state r' = state r" "votedFor r' = votedFor r"
  shows "frame_le r r'"
  using assms by (simp add: frame_le_def selfVoted_def)

lemma frame_le_becomeFollower: "frame_le r (becomeFollowerLocked t r)"
  by (simp add: frame_le_def selfVoted_def)

lemma frame_le_refl: "frame_le r r"
  by (simp add: frame_le_def)

lemma frame_le_handlers:
  "frame_le r (snd (RequestVote vargs r))"
  "AppendEntries args r = Inr (reply, r') \<Longrightarrow> frame_le r r'"
  "InstallSnapshot sargs r = Inr (sreply, r') \<Longrightarrow> frame_le r r'"
    apply (auto simp: frame_le_def selfVoted_def handler_frame(1) RequestVote_votedFor RequestVote_state
      grantsVote_def) [1]
   apply (auto simp: frame_le_def selfVoted_def handler_frame(2) AppendEntries_frame) [1]
  apply (auto simp: frame_le_def selfVoted_def handler_frame(3,4) InstallSnapshot_frame) [1]
  done

lemma frame_le_replies:
  "frame_le r (snd (startElection_reply vreply el r))"
  "frame_le r (replicateToPeer_reply peer args areply r)"
  "frame_le r (sendInstallSnapshot_reply peer sargs sreply r)"
  by (simp_all add: startElection_reply_def becomeLeaderLocked_def replicateToPeer_reply_def
      sendInstallSnapshot_reply_def Let_def frame_le_same frame_le_refl frame_le_becomeFollower)
    (simp_all add: frame_le_def selfVoted_def)

lemma frame_le_local:
  "frame_le r (snd (Propose c r))" "frame_le r (takeTimerReset r)"
  "frame_le r (deliverPendingSnapshot r)" "frame_le r (snd (electionTimeout r))"
  "applyPendingStep r = Inr (Some r') \<Longrightarrow> frame_le r r'"
  "Snapshot index data r = Inr r' \<Longrightarrow> frame_le r r'"
  by (auto simp: Propose_def takeTimerReset_def deliverPendingSnapshot_def applyPendingStep_Some
      Snapshot_Inr electionTimeout_def becomeCandidateLocked_def Let_def frame_le_def selfVoted_def
      split: option.split)

lemmas frame_le_intros = frame_le_handlers frame_le_replies frame_le_local frame_le_refl

lemma node_step_frame_le: "node_step ev r = Inr r' \<Longrightarrow> frame_le r r'"
  by (cases ev) (auto intro: frame_le_intros split: option.splits)

text \<open>Only a counted vote makes a leader.\<close>

lemma leader_local:
  assumes "node_step ev r = Inr r'" "state r' = Leader" "is_local ev"
  shows "state r = Leader \<and> currentTerm r' = currentTerm r"
proof (cases ev)
  case (EvAppendReply peer args reply)
  with assms(1,2) show ?thesis
    by (auto simp: replicateToPeer_reply_def Let_def split: if_splits)
next
  case (EvSnapshotReply peer args reply)
  with assms(1,2) show ?thesis
    by (auto simp: sendInstallSnapshot_reply_def Let_def split: if_splits)
next
  case (EvAppendEntries args)
  with assms(1) obtain reply where "AppendEntries args r = Inr (reply, r')" by auto
  from AppendEntries_frame(3,6) [OF this] assms(2) show ?thesis by (auto split: if_splits)
next
  case (EvInstallSnapshot args)
  with assms(1) obtain reply where "InstallSnapshot args r = Inr (reply, r')" by auto
  from InstallSnapshot_frame(3,6) [OF this] assms(2) show ?thesis by (auto split: if_splits)
next
  case (EvPropose c)
  with assms(1,2) show ?thesis by (auto simp: Propose_def Let_def split: if_splits)
next
  case EvDeliverSnapshot
  with assms(1,2) show ?thesis by (auto simp: deliverPendingSnapshot_def split: option.splits)
next
  case EvApplyOne
  then obtain o' where "applyPendingStep r = Inr o'" "r' = (case o' of None \<Rightarrow> r | Some r1 \<Rightarrow> r1)"
    using assms(1) by auto
  then show ?thesis
    using assms(2) by (cases o') (simp_all add: applyPendingStep_Some)
next
  case (EvSnapshot index data)
  with assms(1,2) show ?thesis by (auto simp: Snapshot_Inr)
qed (use assms in \<open>auto simp: takeTimerReset_def\<close>)

section \<open>Cluster facts\<close>

lemma setNode_simps [simp]:
  "node (setNode i r c) = (node c)(i := r)" "elections (setNode i r c) = elections c"
  "spawned (setNode i r c) = spawned c" "epoch (setNode i r c) = epoch c"
  "votes c \<subseteq> votes (setNode i r c)" "leaders c \<subseteq> leaders (setNode i r c)"
  by (auto simp: setNode_def)

lemma runOK_mono: "runOK E ps c run \<Longrightarrow> votes c \<subseteq> votes c' \<Longrightarrow> runOK E ps c' run"
  by (fastforce simp: runOK_def Let_def)

lemma electedBy_mono: "electedBy E c t i \<Longrightarrow> votes c \<subseteq> votes c' \<Longrightarrow> electedBy E c' t i"
  by (fastforce simp: electedBy_def)

lemma voteRecorded_setNode:
  assumes "voteRecorded c i" "vote_le (node c i) r"
  shows "voteRecorded (setNode i r c) i"
proof -
  have "t \<le> currentTerm r \<and> (t = currentTerm r \<longrightarrow> v = votedFor r) \<and> v \<noteq> -1"
    if "(i, t, v) \<in> votes c" for t v
  proof -
    from that assms(1) have "t \<le> currentTerm (node c i)" "v \<noteq> -1"
      "t = currentTerm (node c i) \<Longrightarrow> v = votedFor (node c i)"
      by (auto simp: voteRecorded_def)
    with assms(2) show ?thesis unfolding vote_le_def by (metis order.antisym order.trans)
  qed
  then show ?thesis by (simp add: voteRecorded_def setNode_def)
qed

lemma voteRecorded_other: "j \<noteq> i \<Longrightarrow> voteRecorded (setNode i r c) j = voteRecorded c j"
  by (simp add: voteRecorded_def setNode_def)

lemma votesUnique_setNode:
  assumes "votesUnique c" "voteRecorded c i" "vote_le (node c i) r"
  shows "votesUnique (setNode i r c)"
proof -
  have "w = votedFor r" if "(i, currentTerm r, w) \<in> votes c" "votedFor r \<noteq> -1" for w
    using that assms(2,3) by (fastforce simp: voteRecorded_def vote_le_def)
  with assms(1) show ?thesis by (auto simp: votesUnique_def setNode_def)
qed

lemma cinv_cong:
  assumes "cinv E ps c" "node c' = node c" "votes c' = votes c" "leaders c' = leaders c"
    and runs: "\<And>run. run \<in> set (elections c') \<Longrightarrow> run \<in> set (elections c) \<or> runOK E ps c run"
  shows "cinv E ps c'"
proof -
  have "runOK E ps c' run" if "run \<in> set (elections c')" for run
    using runs [OF that] assms(1,3) by (auto simp: cinv_def intro: runOK_mono)
  then show ?thesis
    using assms(1-4) by (simp add: cinv_def voteRecorded_def votesUnique_def electedBy_def)
qed

lemma cinv_setNode:
  assumes "cinv E ps c" "i \<in> E" "nodeOK E ps i r" "vote_le (node c i) r"
    and "state r = Leader \<Longrightarrow> electedBy E (setNode i r c) (currentTerm r) i"
  shows "cinv E ps (setNode i r c)"
proof -
  have rec: "voteRecorded (setNode i r c) j" if "j \<in> E" for j
    using assms that by (cases "j = i") (simp_all add: cinv_def voteRecorded_setNode voteRecorded_other)
  have lead: "electedBy E (setNode i r c) t j" if "(t, j) \<in> leaders (setNode i r c)" for t j
  proof (cases "(t, j) \<in> leaders c")
    case True
    then have "electedBy E c t j" using assms(1) by (simp add: cinv_def)
    then show ?thesis by (rule electedBy_mono) simp
  qed (use that assms(5) in \<open>auto simp: setNode_def split: if_splits\<close>)
  have runs: "runOK E ps (setNode i r c) run" if "run \<in> set (elections c)" for run
    using assms(1) that by (auto simp: cinv_def intro: runOK_mono [OF _ setNode_simps(5)])
  have "votesUnique (setNode i r c)"
    using assms(1,2,4) by (simp add: cinv_def votesUnique_setNode)
  moreover have "(currentTerm (node (setNode i r c) j), j) \<in> leaders (setNode i r c)"
    if "j \<in> E" "state (node (setNode i r c) j) = Leader" for j
    using assms(1) that by (cases "j = i") (auto simp: cinv_def setNode_def)
  ultimately show ?thesis
    using assms(1,3) rec lead runs unfolding cinv_def by auto
qed

text \<open>A node's own step: everything but a counted vote keeps the invariant without further ado.\<close>

lemma nodeOK_alt:
  "nodeOK E ps i r \<longleftrightarrow> rid r = i \<and> peers r = ps i \<and> 0 \<le> lastIncludedIndex r \<and> durable r \<and>
     persister r \<noteq> None \<and> selfVoted r"
  by (auto simp: nodeOK_def selfVoted_def)

lemma nodeOK_node_step:
  assumes "nodeOK E ps i r" "node_step ev r = Inr r'" "i \<noteq> -1"
  shows "nodeOK E ps i r'"
  using node_step_frame_le [OF assms(2)] durable_node_step [OF assms(2)] assms(1,3)
  by (auto simp: nodeOK_alt frame_le_def)

lemma cinv_node_step:
  assumes "cinv E ps c" "peersOK E ps" "i \<in> E" "node_step ev (node c i) = Inr r"
    and "state r = Leader \<Longrightarrow>
      (state (node c i) = Leader \<and> currentTerm r = currentTerm (node c i)) \<or>
      electedBy E (setNode i r c) (currentTerm r) i"
  shows "cinv E ps (setNode i r c)"
proof (rule cinv_setNode [OF assms(1,3)])
  show "nodeOK E ps i r"
    using assms(1-4) nodeOK_node_step unfolding cinv_def peersOK_def by metis
  show "vote_le (node c i) r" using assms(4) by (rule node_step_vote_le)
  assume L: "state r = Leader"
  show "electedBy E (setNode i r c) (currentTerm r) i"
  proof (cases "state (node c i) = Leader \<and> currentTerm r = currentTerm (node c i)")
    case True
    then have "electedBy E c (currentTerm r) i" using assms(1,3) by (simp add: cinv_def)
    then show ?thesis by (rule electedBy_mono) simp
  qed (use assms(5) [OF L] in auto)
qed

lemma restart_facts:
  assumes "nodeOK E ps i r" "persister r = Some p"
  shows "nodeOK E ps i (NewRaftWithPersister i (ps i) p)"
    "currentTerm (NewRaftWithPersister i (ps i) p) = currentTerm r"
    "votedFor (NewRaftWithPersister i (ps i) p) = votedFor r"
proof -
  let ?r' = "NewRaftWithPersister i (ps i) p"
  have frame: "rid ?r' = i" "peers ?r' = ps i" "persister ?r' = Some p" "state ?r' = Follower"
    by (simp_all add: NewRaftWithPersister_def newRaft_def restoreLocked_def Let_def split: option.split)
  have enc: "encodeStateLocked ?r' = encodeStateLocked r" "snapshotData ?r' = snapshotData r"
    using assms by (auto simp: nodeOK_def durable_def ReadSnapshot_def)
  then have same: "currentTerm ?r' = currentTerm r" "votedFor ?r' = votedFor r"
      "lastIncludedIndex ?r' = lastIncludedIndex r"
    by (simp_all add: encodeStateLocked_def)
  have "durable ?r' = durable r"
    using enc frame assms by (intro durable_cong) auto
  then show "nodeOK E ps i ?r'" using frame same assms(1) by (simp add: nodeOK_def)
  show "currentTerm ?r' = currentTerm r" "votedFor ?r' = votedFor r" by (fact same)+
qed

lemma state_restart: "state (NewRaftWithPersister i ps p) = Follower"
  by (simp add: NewRaftWithPersister_def newRaft_def restoreLocked_def Let_def split: option.split)

lemma cinv_restart:
  assumes "cinv E ps c" "i \<in> E" "nodeOK E ps i r" "persister r = Some p" "vote_le (node c i) r"
  shows "cinv E ps (restartNode i p c)"
proof -
  let ?r' = "NewRaftWithPersister i (ps i) p"
  have "peers (node c i) = ps i" using assms(1,2) by (simp add: cinv_def nodeOK_def)
  moreover have "vote_le (node c i) ?r'"
    using assms(5) restart_facts(2,3) [OF assms(3,4)] by (simp add: vote_le_def)
  ultimately have "cinv E ps (setNode i (NewRaftWithPersister i (peers (node c i)) p) c)"
    using assms(1,2) restart_facts(1) [OF assms(3,4)] state_restart [of i "ps i" p]
    by (intro cinv_setNode) simp_all
  then show ?thesis
    unfolding restartNode_def by (rule cinv_cong) simp_all
qed

lemma cinv_begins: "cinv E ps c \<Longrightarrow> i \<in> E \<Longrightarrow> runOK E ps c (newRun i c)"
  by (auto simp: runOK_def newRun_def startElection_begin_def cinv_def nodeOK_def Let_def)

lemma set_update_cases: "x \<in> set (xs[k := y]) \<Longrightarrow> x = y \<or> x \<in> set xs"
  using set_update_subset_insert by fastforce

lemma cinv_update_run:
  "cinv E ps c \<Longrightarrow> runOK E ps c run \<Longrightarrow> es = elections c \<Longrightarrow> cinv E ps (c\<lparr>elections := es[k := run]\<rparr>)"
  by (rule cinv_cong [of E ps c]) (auto dest!: set_update_cases)

lemma runOK_peer:
  assumes "runOK E ps c run" "peersOK E ps" "p \<in> set (elPeers (runEl run))"
  shows "p \<in> E" "p \<noteq> runNode run" "runNode run \<in> E" "runNode run \<noteq> -1"
  using assms by (auto simp: runOK_def peersOK_def Let_def)

lemma cinv_request:
  assumes "cinv E ps c" "peersOK E ps" "k < length (elections c)" "run = elections c ! k"
    "p \<in> set (elPeers (runEl run))" "runCalls run p = Pending"
    "RequestVote (elArgs (runEl run)) (node c p) = (reply, r')"
  shows "cinv E ps ((setNode p r' c)\<lparr>elections := (elections c)[k :=
           run\<lparr>runCalls := (runCalls run)(p := Replied reply)\<rparr>]\<rparr>)"
proof -
  let ?c = "setNode p r' c" and ?run = "run\<lparr>runCalls := (runCalls run)(p := Replied reply)\<rparr>"
  let ?a = "elArgs (runEl run)"
  have runok: "runOK E ps c run" using assms(1,3,4) by (auto simp: cinv_def)
  note pr = runOK_peer [OF runok assms(2,5)]
  have r': "r' = snd (RequestVote ?a (node c p))" and reply: "reply = fst (RequestVote ?a (node c p))"
    using assms(7) by simp_all
  have c': "cinv E ps ?c"
    using assms(1,2) pr(1)
    by (rule cinv_node_step [where ev = "EvRequestVote ?a"])
      (auto simp: r' RequestVote_state split: if_splits)
  have granted: "(p, rvTerm ?a, runNode run) \<in> votes ?c" if "rvrVoteGranted reply"
    using that runok pr(4)
    by (auto simp: reply r' RequestVote_granted_iff RequestVote_votedFor setNode_def runOK_def
        grantsVote_def Let_def max_def)
  have same: "{q \<in> set (elPeers (runEl run)). runCalls ?run q = Counted} =
      {q \<in> set (elPeers (runEl run)). runCalls run q = Counted}"
    using assms(6) by auto
  have "runOK E ps ?c ?run"
    using runOK_mono [OF runok setNode_simps(5)] granted same by (auto simp: runOK_def Let_def)
  with c' show ?thesis by (intro cinv_update_run) simp_all
qed

lemma startElection_reply_cases:
  assumes "startElection_reply reply el r = (el', r')"
  obtains (dismissed) "el' = el" "state r' = Leader \<Longrightarrow> r' = r"
  | (counted) "el' = el\<lparr>elVotes := elVotes el + 1\<rparr>" "rvrVoteGranted reply" "state r = Candidate"
      "currentTerm r = rvTerm (elArgs el)" "currentTerm r' = currentTerm r" "votedFor r' = votedFor r"
      "state r' = Leader \<Longrightarrow> elMajority el \<le> elVotes el + 1"
  using assms
  by (auto simp: startElection_reply_def becomeLeaderLocked_def elMajority_def Let_def
      split: if_splits)

lemma cinv_reply:
  assumes "cinv E ps c" "peersOK E ps" "k < length (elections c)" "run = elections c ! k"
    "p \<in> set (elPeers (runEl run))" "runCalls run p = Replied reply" "i = runNode run"
    "startElection_reply reply (runEl run) (node c i) = (el', r')"
  shows "cinv E ps ((setNode i r' c)\<lparr>elections := (elections c)[k :=
           run\<lparr>runEl := el', runCalls := (runCalls run)
             (p := (if elVotes (runEl run) < elVotes el' then Counted else Dismissed))\<rparr>]\<rparr>)"
proof -
  let ?c = "setNode i r' c" and ?el = "runEl run"
  let ?run = "run\<lparr>runEl := el', runCalls := (runCalls run)
             (p := (if elVotes ?el < elVotes el' then Counted else Dismissed))\<rparr>"
  let ?cs = "\<lambda>run. {q \<in> set (elPeers (runEl run)). runCalls run q = Counted}"
  have runok: "runOK E ps c run" using assms(1,3,4) by (auto simp: cinv_def)
  have runok1: "runOK E ps ?c run" by (rule runOK_mono [OF runok setNode_simps(5)])
  note pr = runOK_peer [OF runok assms(2,5)]
  have iE: "i \<in> E" using pr(3) assms(7) by simp
  have stp: "node_step (EvVoteReply reply ?el) (node c i) = Inr r'" using assms(8) by simp
  have "runOK E ps ?c ?run \<and> cinv E ps ?c"
    using assms(8)
  proof (cases rule: startElection_reply_cases)
    case dismissed
    have "?cs ?run = ?cs run" using assms(6) dismissed(1) by auto
    then have "runOK E ps ?c ?run"
      using runok1 dismissed(1) by (auto simp: runOK_def Let_def)
    moreover have "cinv E ps ?c"
      using assms(1,2) iE stp by (rule cinv_node_step) (use dismissed(2) in auto)
    ultimately show ?thesis by simp
  next
    case counted
    let ?t = "rvTerm (elArgs ?el)"
    have cs: "?cs ?run = insert p (?cs run)" "p \<notin> ?cs run"
      using assms(5,6) counted(1) by auto
    then have num: "card (?cs ?run) = elVotes ?el" "elVotes el' = 1 + card (?cs ?run)"
      using runok counted(1) by (simp_all add: runOK_def Let_def)
    have yes: "(q, ?t, i) \<in> votes ?c" if "q \<in> ?cs ?run" for q
      using that runok1 counted(2) assms(5,6,7) unfolding cs(1) by (auto simp: runOK_def Let_def)
    have "votedFor (node c i) = i" "voteRecorded c i"
      using assms(1) iE counted(3) by (simp_all add: cinv_def nodeOK_def)
    then have "(i, ?t, i) \<in> votes c"
      using counted(4) pr(4) assms(7) unfolding voteRecorded_def by metis
    then have self: "(i, ?t, i) \<in> votes ?c" using subsetD [OF setNode_simps(5)] by fast
    have "runOK E ps ?c ?run"
      using runok1 counted(1) num(2) yes assms(7)
      by (auto simp: runOK_def Let_def)
    moreover have "electedBy E ?c ?t i" if "state r' = Leader"
    proof -
      let ?S = "insert i (?cs ?run)"
      have E: "set (elPeers ?el) = E - {i}" "length (elPeers ?el) + 1 = card E"
        using runok peersOK_length [OF assms(2) iE] assms(2,7) iE
        by (simp_all add: runOK_def peersOK_def Let_def)
      have fin: "finite (?cs ?run)" unfolding cs(1) by simp
      have "i \<notin> ?cs ?run" using E(1) counted(1) by simp
      then have "card ?S = elVotes ?el + 1"
        unfolding card_insert_disjoint [OF fin \<open>i \<notin> ?cs ?run\<close>] num(1) by simp
      then have "card E div 2 < card ?S"
        using counted(7) [OF that] E(2) by (simp add: elMajority_def)
      moreover have "?S \<subseteq> E" using E(1) iE counted(1) by auto
      moreover have "\<forall>s\<in>?S. (s, ?t, i) \<in> votes ?c" using yes self by blast
      ultimately show ?thesis unfolding electedBy_def by blast
    qed
    then have "cinv E ps ?c"
      using counted(4,5) by (intro cinv_node_step [OF assms(1,2) iE stp]) auto
    ultimately show ?thesis by simp
  qed
  then show ?thesis by (intro cinv_update_run) simp_all
qed

lemma cinv_cstep:
  assumes "cstep E c c'" "peersOK E ps" "cinv E ps c"
  shows "cinv E ps c'"
  using assms(1)
proof cases
  case (local i ev r')
  then show ?thesis using assms leader_local by (auto intro!: cinv_node_step)
next
  case (timeout i r')
  have "cinv E ps (setNode i r' c)"
    using assms(3,2) timeout(2) by (rule cinv_node_step [where ev = EvElectionTimeout])
      (use timeout(3) in \<open>auto simp: electionTimeout_def becomeCandidateLocked_def split: if_splits\<close>)
  then show ?thesis unfolding timeout(1) by (rule cinv_cong) simp_all
next
  case (begins i)
  from assms(3) show ?thesis unfolding begins(1)
    by (rule cinv_cong) (use assms(3) begins cinv_begins in auto)
next
  case (request k run p reply r')
  show ?thesis unfolding request(1) by (rule cinv_request [OF assms(3,2) request(2-)])
next
  case (reply k run p reply i el' r')
  show ?thesis unfolding reply(1) by (rule cinv_reply [OF assms(3,2) reply(2-6) reply(8)])
next
  case (crash i p)
  show ?thesis unfolding crash(1)
    by (rule cinv_restart [OF assms(3) crash(2) _ crash(3)]) (use assms(3) crash in \<open>auto simp: cinv_def\<close>)
next
  case (panic i args e p)
  have "nodeOK E ps i (becomeFollowerLocked (aeTerm args) (node c i))"
    using assms(3) panic(2) by (simp add: cinv_def nodeOK_def durable_becomeFollower)
  then show ?thesis unfolding panic(1)
    by (rule cinv_restart [OF assms(3) panic(2) _ panic(4)]) simp
qed

lemma cinv_init: "cinv E ps (initCluster ps)"
  by (simp add: cinv_def initCluster_def nodeOK_def voteRecorded_def votesUnique_def durable_iff
      NewRaftWithPersister_def newRaft_def restoreLocked_def NewMemoryPersister_def ReadState_def
      encodeStateLocked_def bootState_def)

lemma cinv_reachable: "reachableC E ps c \<Longrightarrow> peersOK E ps \<Longrightarrow> cinv E ps c"
  by (induction rule: reachableC.induct) (auto intro: cinv_init cinv_cstep)

section \<open>Election safety\<close>

lemma elected_unique:
  assumes "cinv E ps c" "finite E" "electedBy E c t i" "electedBy E c t j"
  shows "i = j"
proof -
  obtain S T where S: "S \<subseteq> E" "card E div 2 < card S" "\<forall>s\<in>S. (s, t, i) \<in> votes c"
    and T: "T \<subseteq> E" "card E div 2 < card T" "\<forall>s\<in>T. (s, t, j) \<in> votes c"
    using assms(3,4) unfolding electedBy_def by metis
  obtain x where "x \<in> S" "x \<in> T" using majorities_meet [OF assms(2) S(1) T(1) S(2) T(2)] .
  then show ?thesis
    using S(3) T(3) assms(1) unfolding cinv_def votesUnique_def by blast
qed

text \<open>
  (C2) Election safety: in every reachable state of a cluster, over the whole history of the run, at
  most one node has been leader in any given term, and every node that is leader now is that one,
  whatever messages are lost, delayed or reordered and however often nodes crash and restart from
  their persister.
\<close>

theorem election_safety:
  assumes "reachableC E ps c" "peersOK E ps"
  shows "(\<forall>t i j. (t, i) \<in> leaders c \<and> (t, j) \<in> leaders c \<longrightarrow> i = j) \<and>
     (\<forall>i\<in>E. state (node c i) = Leader \<longrightarrow> (currentTerm (node c i), i) \<in> leaders c) \<and>
     (\<forall>i\<in>E. \<forall>j\<in>E. state (node c i) = Leader \<and> state (node c j) = Leader \<and>
        currentTerm (node c i) = currentTerm (node c j) \<longrightarrow> i = j)"
proof -
  have inv: "cinv E ps c" and fin: "finite E"
    using assms cinv_reachable by (auto simp: peersOK_def)
  have hist: "(t, i) \<in> leaders c \<Longrightarrow> (t, j) \<in> leaders c \<Longrightarrow> i = j" for t i j
    using elected_unique [OF inv fin] inv unfolding cinv_def by blast
  have now: "i \<in> E \<Longrightarrow> state (node c i) = Leader \<Longrightarrow> (currentTerm (node c i), i) \<in> leaders c" for i
    using inv by (simp add: cinv_def)
  show ?thesis using hist now by metis
qed

text \<open>Three nodes: node 1 stands for election, node 2 votes for it, node 1 leads term 1.\<close>

definition exPeers :: "int \<Rightarrow> int list" where
  "exPeers i = filter (\<lambda>j. j \<noteq> i) [1, 2, 3]"

definition ex1 :: "(nat, nat) Cluster" where
  "ex1 = (setNode 1 (snd (electionTimeout (node (initCluster exPeers) 1))) (initCluster exPeers))
           \<lparr>spawned := (spawned (initCluster exPeers :: (nat, nat) Cluster))(1 := 1)\<rparr>"

definition ex2 :: "(nat, nat) Cluster" where
  "ex2 = ex1\<lparr>spawned := (spawned ex1)(1 := 0), elections := [newRun 1 ex1]\<rparr>"

definition exReply :: RequestVoteReply where
  "exReply = \<lparr>rvrTerm = 1, rvrVoteGranted = True\<rparr>"

definition ex3 :: "(nat, nat) Cluster" where
  "ex3 = (setNode 2 (snd (RequestVote (elArgs (runEl (newRun 1 ex1))) (node ex2 2))) ex2)
     \<lparr>elections := [(newRun 1 ex1)\<lparr>runCalls := (\<lambda>_. Pending)(2 := Replied exReply)\<rparr>]\<rparr>"

lemma boot_node:
  "node (initCluster ps) i = NewRaftWithPersister i (ps i) NewMemoryPersister"
  "spawned (initCluster ps) i = 0" "epoch (initCluster ps) i = 0" "elections (initCluster ps) = []"
  by (simp_all add: initCluster_def)

lemma boot_fields:
  "state (NewRaftWithPersister i ps NewMemoryPersister) = Follower"
  "currentTerm (NewRaftWithPersister i ps NewMemoryPersister) = 0"
  "votedFor (NewRaftWithPersister i ps NewMemoryPersister) = -1"
  "rid (NewRaftWithPersister i ps NewMemoryPersister) = i"
  "peers (NewRaftWithPersister i ps NewMemoryPersister) = ps"
  "log (NewRaftWithPersister i ps NewMemoryPersister) = []"
  "lastIncludedIndex (NewRaftWithPersister i ps NewMemoryPersister) = 0"
  "lastIncludedTerm (NewRaftWithPersister i ps NewMemoryPersister) = 0"
  by (simp_all add: NewRaftWithPersister_def newRaft_def restoreLocked_def NewMemoryPersister_def
      ReadState_def)

lemma ex1_reach: "reachableC {1, 2, 3} exPeers ex1"
proof -
  have "cstep {1, 2, 3} (initCluster exPeers) ex1"
    unfolding ex1_def
    using cstep.timeout [of 1 "{1, 2, 3}" "initCluster exPeers" "snd (electionTimeout (node (initCluster exPeers) 1))"]
    by (simp add: boot_node boot_fields electionTimeout_def becomeCandidateLocked_def)
  then show ?thesis by (rule reachableC.step [OF reachableC.init])
qed

lemma ex1_facts:
  "state (node ex1 1) = Candidate" "currentTerm (node ex1 1) = 1" "rid (node ex1 1) = 1"
  "peers (node ex1 1) = [2, 3]" "lastLogInfoLocked (node ex1 1) = (0, 0)"
  "node ex1 2 = NewRaftWithPersister 2 [1, 3] NewMemoryPersister"
  "spawned ex1 1 = 1" "epoch ex1 1 = 0" "elections ex1 = []"
  by (simp_all add: ex1_def boot_node boot_fields electionTimeout_def becomeCandidateLocked_def
      exPeers_def lastLogInfoLocked_def)

lemma ex2_reach: "reachableC {1, 2, 3} exPeers ex2"
  using cstep.begins [of 1 "{1, 2, 3}" ex1] reachableC.step [OF ex1_reach]
  by (simp add: ex2_def ex1_facts)

lemma ex2_run:
  "elArgs (runEl (newRun 1 ex1)) =
     \<lparr>rvTerm = 1, rvCandidateID = 1, rvLastLogIndex = 0, rvLastLogTerm = 0\<rparr>"
  "elPeers (runEl (newRun 1 ex1)) = [2, 3]" "elVotes (runEl (newRun 1 ex1)) = 1"
  "runNode (newRun 1 ex1) = 1" "runEpoch (newRun 1 ex1) = 0" "runCalls (newRun 1 ex1) = (\<lambda>_. Pending)"
  by (simp_all add: newRun_def startElection_begin_def ex1_facts)

lemma ex2_elections: "elections ex2 = [newRun 1 ex1]" "node ex2 = node ex1" "epoch ex2 = epoch ex1"
  by (simp_all add: ex2_def)

lemma ex3_reach: "reachableC {1, 2, 3} exPeers ex3"
proof -
  let ?args = "elArgs (runEl (newRun 1 ex1))"
  have "RequestVote ?args (node ex2 2) = (exReply, snd (RequestVote ?args (node ex2 2)))"
    by (simp add: prod_eq_iff ex2_run exReply_def ex2_def ex1_facts RequestVote_def boot_fields
        candidateLogIsUpToDateLocked_def lastLogInfoLocked_def Let_def)
  then have "cstep {1, 2, 3} ex2 ((setNode 2 (snd (RequestVote ?args (node ex2 2))) ex2)\<lparr>elections :=
      (elections ex2)[0 := (newRun 1 ex1)\<lparr>runCalls := (runCalls (newRun 1 ex1))(2 := Replied exReply)\<rparr>]\<rparr>)"
    by (intro cstep.request) (simp_all only: ex2_elections ex2_run, simp_all)
  then have "cstep {1, 2, 3} ex2 ex3"
    unfolding ex3_def ex2_elections ex2_run(6) by (simp only: list_update.simps nat.case)
  then show ?thesis by (rule reachableC.step [OF ex2_reach])
qed

lemma ex4_reach:
  "\<exists>c :: (nat, nat) Cluster. reachableC {1, 2, 3} exPeers c \<and> (1, 1) \<in> leaders c"
proof -
  let ?run = "(newRun 1 ex1)\<lparr>runCalls := (\<lambda>_. Pending)(2 := Replied exReply)\<rparr>"
  let ?rep = "startElection_reply exReply (runEl ?run) (node ex3 1)"
  have n1: "node ex3 1 = node ex1 1" by (simp add: ex3_def ex2_def)
  have res: "state (snd ?rep) = Leader" "currentTerm (snd ?rep) = 1"
    by (simp_all add: n1 startElection_reply_def ex1_facts ex2_run exReply_def elMajority_def
        becomeLeaderLocked_def Let_def)
  have run: "elections ex3 = [?run]" "epoch ex3 = epoch ex1" by (simp_all add: ex3_def ex2_def)
  let ?c = "(setNode 1 (snd ?rep) ex3)\<lparr>elections := (elections ex3)[0 := ?run\<lparr>runEl := fst ?rep,
     runCalls := (runCalls ?run)
     (2 := (if elVotes (runEl ?run) < elVotes (fst ?rep) then Counted else Dismissed))\<rparr>]\<rparr>"
  have "cstep {1, 2, 3} ex3 ?c"
    by (rule cstep.reply [where reply = exReply]) (simp_all add: run ex2_run ex1_facts)
  then have "reachableC {1, 2, 3} exPeers ?c" by (rule reachableC.step [OF ex3_reach])
  moreover have "(1, 1) \<in> leaders ?c" using res by (simp add: setNode_def)
  ultimately show ?thesis by blast
qed

lemma exPeers_OK: "peersOK {1, 2, 3} exPeers"
  by (auto simp: peersOK_def exPeers_def)

theorem election_safety_witness:
  "\<exists>c :: (nat, nat) Cluster. reachableC {1, 2, 3} exPeers c \<and> {i. (1, i) \<in> leaders c} = {1}"
proof -
  obtain c :: "(nat, nat) Cluster" where c: "reachableC {1, 2, 3} exPeers c" "(1, 1) \<in> leaders c"
    using ex4_reach by blast
  with election_safety [OF c(1) exPeers_OK] show ?thesis by blast
qed

section \<open>A cluster of one\<close>

lemma lone_step:
  assumes "cstep {i} c c'" "cinv {i} ps c" "ps i = []" "leaders c = {}"
  shows "leaders c' = {}"
  using assms(1)
proof cases
  case (local j ev r')
  then have "state r' \<noteq> Leader"
    using leader_local [of ev "node c i" r'] assms(2,4) by (auto simp: cinv_def)
  with local assms(4) show ?thesis by (simp add: setNode_def)
next
  case (timeout j r')
  then have "state r' \<noteq> Leader"
    by (auto simp: electionTimeout_def becomeCandidateLocked_def split: if_splits)
  with timeout assms(4) show ?thesis by (simp add: setNode_def)
next
  case (request k run p reply r')
  then have "runOK {i} ps c run" using assms(2) by (auto simp: cinv_def)
  with request assms(3) show ?thesis by (simp add: runOK_def Let_def)
next
  case (reply k run p reply j el' r')
  then have "runOK {i} ps c run" using assms(2) by (auto simp: cinv_def)
  with reply assms(3) show ?thesis by (simp add: runOK_def Let_def)
qed (use assms(4) in \<open>auto simp: restartNode_def setNode_def state_restart\<close>)

lemma lone_reachable:
  assumes "reachableC {i} ps c" "ps i = []" "i \<noteq> -1"
  shows "leaders c = {}"
proof -
  have OK: "peersOK {i} ps" using assms(2,3) by (simp add: peersOK_def)
  show ?thesis using assms(1)
  proof (induction rule: reachableC.induct)
    case init
    show ?case by (simp add: initCluster_def)
  next
    case (step c c')
    then show ?case using lone_step assms(2) cinv_reachable [OF _ OK] by blast
  qed
qed

text \<open>
  (C10) A cluster of one node never elects a leader: the majority test of an election runs only when
  a peer answers, and there is none, so the node stays without a leader for ever and no proposal is
  ever accepted.
\<close>

theorem lone_node_never_leads:
  assumes "reachableC {i} ps c" "ps i = []" "i \<noteq> -1"
  shows "state (node c i) \<noteq> Leader \<and> fst (Propose cmd (node c i)) = (0, 0, False)"
proof -
  have OK: "peersOK {i} ps" using assms(2,3) by (simp add: peersOK_def)
  have "state (node c i) \<noteq> Leader"
    using cinv_reachable [OF assms(1) OK] lone_reachable [OF assms] by (auto simp: cinv_def)
  then show ?thesis by (simp add: Propose_def)
qed

theorem lone_node_never_leads_witness:
  "fst (Propose 7 (node (initCluster (\<lambda>_. []) :: (nat, nat) Cluster) 1)) = (0, 0, False)"
  by (rule conjunct2 [OF lone_node_never_leads [where ps = "\<lambda>_. []"]])
     (simp_all add: reachableC.init)

end
