(* ===== verification/Raft_Logs.thy ===== *)
theory Raft_Logs
  imports Raft_Node
begin

text \<open>
  Logs and the leaders that wrote them. The argument for Raft's safety speaks about the log of the leader of each term: \<open>lead\<close> maps
  a term to the log of its leader, as far as that leader ever extended it. A log is well formed if each of its entries,
  together with everything before it, is what the leader of the entry's term had there; log matching is then immediate.
\<close>

type_synonym 'c log = "'c LogEntry list"
type_synonym 'c leadMap = "int \<rightharpoonup> 'c log"

definition agrees :: "'c log \<Rightarrow> 'c log \<Rightarrow> nat \<Rightarrow> bool" where
  "agrees X Y n \<longleftrightarrow> n \<le> length X \<and> n \<le> length Y \<and> take n X = take n Y"

definition sortedTerms :: "'c log \<Rightarrow> bool" where
  "sortedTerms X \<longleftrightarrow> sorted (map entryTerm X)"

definition termsLe :: "'c log \<Rightarrow> int \<Rightarrow> bool" where
  "termsLe X t \<longleftrightarrow> (\<forall>e \<in> set X. entryTerm e \<le> t)"

definition wfLog :: "'c leadMap \<Rightarrow> 'c log \<Rightarrow> bool" where
  "wfLog L X \<longleftrightarrow> sortedTerms X \<and> (\<forall>k < length X. \<exists>Y. L (entryTerm (X ! k)) = Some Y \<and> agrees X Y (Suc k))"

definition wfMap :: "'c leadMap \<Rightarrow> bool" where
  "wfMap L \<longleftrightarrow> (\<forall>t Y. L t = Some Y \<longrightarrow> wfLog L Y \<and> termsLe Y t)"

definition leadGrows :: "'c leadMap \<Rightarrow> 'c leadMap \<Rightarrow> bool" where
  "leadGrows L L' \<longleftrightarrow> (\<forall>t Y. L t = Some Y \<longrightarrow> (\<exists>Z. L' t = Some (Y @ Z) \<and> (\<forall>e \<in> set Z. entryTerm e = t)))"

text \<open>Some leader of a term after \<open>t\<close>, up to \<open>b\<close>, does not have the first \<open>n\<close> entries of the leader of \<open>t\<close>.\<close>

definition overtaken :: "'c leadMap \<Rightarrow> int \<Rightarrow> nat \<Rightarrow> int \<Rightarrow> bool" where
  "overtaken L t n b \<longleftrightarrow> (\<exists>X s Y. L t = Some X \<and> t < s \<and> s \<le> b \<and> L s = Some Y \<and> \<not> agrees X Y n)"

section \<open>Agreement\<close>

lemma agrees_sym: "agrees X Y n \<Longrightarrow> agrees Y X n"
  by (simp add: agrees_def)

lemma agrees_refl [simp]: "agrees X X n \<longleftrightarrow> n \<le> length X"
  by (simp add: agrees_def)

lemma agrees_0 [simp]: "agrees X Y 0"
  by (simp add: agrees_def)

lemma agrees_trans: "agrees X Y n \<Longrightarrow> agrees Y Z n \<Longrightarrow> agrees X Z n"
  by (simp add: agrees_def)

lemma agrees_mono:
  assumes "agrees X Y n" "m \<le> n"
  shows "agrees X Y m"
proof -
  have "take m (take n X) = take m (take n Y)" using assms(1) by (simp add: agrees_def)
  then show ?thesis using assms by (simp add: agrees_def min_absorb1)
qed

lemma agrees_append [simp]: "n \<le> length X \<Longrightarrow> agrees (X @ Z) Y n = agrees X Y n" "n \<le> length X \<Longrightarrow> agrees Y (X @ Z) n = agrees Y X n"
  by (auto simp: agrees_def)

lemma agrees_take: "n \<le> m \<Longrightarrow> m \<le> length X \<Longrightarrow> agrees (take m X) X n"
  by (simp add: agrees_def min_absorb1)

lemma agrees_nth:
  assumes "agrees X Y n" "k < n"
  shows "X ! k = Y ! k"
proof -
  have "X ! k = take n X ! k" "Y ! k = take n Y ! k" using assms(2) by simp_all
  then show ?thesis using assms(1) by (simp add: agrees_def)
qed

section \<open>Well-formed logs\<close>

lemma wfLog_nil [simp]: "wfLog L []"
  by (simp add: wfLog_def sortedTerms_def)

lemma termsLe_nil [simp]: "termsLe [] t"
  by (simp add: termsLe_def)

lemma termsLe_mono: "termsLe X t \<Longrightarrow> t \<le> s \<Longrightarrow> termsLe X s"
  by (force simp: termsLe_def)

lemma termsLe_nth: "termsLe X t \<Longrightarrow> k < length X \<Longrightarrow> entryTerm (X ! k) \<le> t"
  by (simp add: termsLe_def)

lemma termsLe_take: "termsLe X t \<Longrightarrow> termsLe (take m X) t"
  by (auto simp: termsLe_def dest: in_set_takeD)

lemma wfLog_take:
  assumes "wfLog L X"
  shows "wfLog L (take m X)"
proof -
  have "sortedTerms (take m X)" using assms by (simp add: wfLog_def sortedTerms_def take_map [symmetric] sorted_wrt_take)
  moreover have "\<exists>Y. L (entryTerm (take m X ! k)) = Some Y \<and> agrees (take m X) Y (Suc k)" if "k < length (take m X)" for k
  proof -
    have k: "k < length X" "k < m" using that by auto
    then obtain Y where Y: "L (entryTerm (X ! k)) = Some Y" "agrees X Y (Suc k)" using assms by (auto simp: wfLog_def)
    have "agrees (take m X) X (Suc k)" using k by (simp add: agrees_def min_def)
    then show ?thesis using Y agrees_trans k by (intro exI [of _ Y]) auto
  qed
  ultimately show ?thesis by (simp add: wfLog_def)
qed

lemma wfLog_grows:
  assumes "wfLog L X" "leadGrows L L'"
  shows "wfLog L' X"
proof -
  have "\<exists>Y'. L' (entryTerm (X ! k)) = Some Y' \<and> agrees X Y' (Suc k)" if k: "k < length X" for k
  proof -
    obtain Y where Y: "L (entryTerm (X ! k)) = Some Y" "agrees X Y (Suc k)" using assms(1) k by (auto simp: wfLog_def)
    then obtain Z where "L' (entryTerm (X ! k)) = Some (Y @ Z)" using assms(2) unfolding leadGrows_def by blast
    moreover have "agrees X (Y @ Z) (Suc k)" using Y(2) by (simp add: agrees_def)
    ultimately show ?thesis by blast
  qed
  then show ?thesis using assms(1) by (simp add: wfLog_def)
qed

lemma wfMap_D: "wfMap L \<Longrightarrow> L t = Some Y \<Longrightarrow> wfLog L Y \<and> termsLe Y t"
  by (simp add: wfMap_def)

lemma leadGrows_refl [simp]: "leadGrows L L"
  by (auto simp: leadGrows_def)

lemma leadGrows_D:
  assumes "leadGrows L L'" "L t = Some Y"
  obtains Z where "L' t = Some (Y @ Z)" "\<forall>e \<in> set Z. entryTerm e = t"
  using assms unfolding leadGrows_def by blast

text \<open>Log matching: two logs with the same term at an index agree up to that index.\<close>

lemma log_matching:
  assumes "wfLog L X" "wfLog L Y" "k < length X" "k < length Y" "entryTerm (X ! k) = entryTerm (Y ! k)"
  shows "agrees X Y (Suc k)"
proof -
  obtain A where A: "L (entryTerm (X ! k)) = Some A" "agrees X A (Suc k)" using assms(1,3) by (auto simp: wfLog_def)
  obtain B where B: "L (entryTerm (Y ! k)) = Some B" "agrees Y B (Suc k)" using assms(2,4) by (auto simp: wfLog_def)
  have "A = B" using A(1) B(1) assms(5) by simp
  then show ?thesis using A(2) B(2) agrees_trans agrees_sym by blast
qed

lemma wfLog_of_lead: "wfMap L \<Longrightarrow> L t = Some X \<Longrightarrow> wfLog L (take m X)"
  using wfLog_take wfMap_D by blast

text \<open>A leader appends entries of its own term.\<close>

lemma wfLog_snoc:
  assumes "wfLog L X" "termsLe X (entryTerm e)" "L' (entryTerm e) = Some (X @ [e])" "leadGrows L L'"
  shows "wfLog L' (X @ [e])"
proof -
  have "sortedTerms (X @ [e])" using assms(1,2) by (auto simp: wfLog_def sortedTerms_def termsLe_def sorted_append)
  moreover have "\<exists>Y. L' (entryTerm ((X @ [e]) ! k)) = Some Y \<and> agrees (X @ [e]) Y (Suc k)" if "k < length (X @ [e])" for k
  proof (cases "k < length X")
    case True
    then obtain Y where "L' (entryTerm (X ! k)) = Some Y" "agrees X Y (Suc k)"
      using wfLog_grows [OF assms(1,4)] by (auto simp: wfLog_def)
    then show ?thesis using True by (simp add: nth_append)
  next
    case False
    then have "k = length X" using that by simp
    then show ?thesis using assms(3) by simp
  qed
  ultimately show ?thesis by (simp add: wfLog_def)
qed

lemma sortedTerms_last:
  assumes "sortedTerms X" "k < length X"
  shows "entryTerm (X ! k) \<le> entryTerm (last X)"
proof -
  have "X \<noteq> []" using assms(2) by auto
  have "map entryTerm X ! k \<le> map entryTerm X ! (length X - 1)"
    using assms by (intro sorted_nth_mono) (auto simp: sortedTerms_def)
  then show ?thesis using assms(2) \<open>X \<noteq> []\<close> by (simp add: last_conv_nth)
qed

section \<open>Overtaken entries\<close>

lemma overtaken_grows:
  assumes "wfMap L" "leadGrows L L'" "L t = Some X" "n \<le> length X" "overtaken L t n b" "b \<le> b'"
  shows "overtaken L' t n b'"
proof -
  obtain s Y where Y: "t < s" "s \<le> b" "L s = Some Y" "\<not> agrees X Y n" using assms(3,5) by (auto simp: overtaken_def)
  obtain Z where Z: "L' s = Some (Y @ Z)" "\<forall>e \<in> set Z. entryTerm e = s" using leadGrows_D [OF assms(2) Y(3)] by blast
  obtain W where W: "L' t = Some (X @ W)" using leadGrows_D [OF assms(2,3)] by blast
  have "\<not> agrees X (Y @ Z) n"
  proof
    assume a: "agrees X (Y @ Z) n"
    show False
    proof (cases "n \<le> length Y")
      case True
      then show False using a Y(4) by simp
    next
      case False
      then have "Z \<noteq> []" using a by (auto simp: agrees_def)
      then have "(Y @ Z) ! length Y \<in> set Z" by (simp add: nth_append)
      then have "entryTerm ((Y @ Z) ! length Y) = s" using Z(2) by blast
      moreover have "X ! length Y = (Y @ Z) ! length Y" using agrees_nth [OF a] False by simp
      moreover have "entryTerm (X ! length Y) \<le> t" using wfMap_D [OF assms(1,3)] False assms(4) by (simp add: termsLe_nth)
      ultimately show False using Y(1) by simp
    qed
  qed
  then have "\<not> agrees (X @ W) (Y @ Z) n" using assms(4) by simp
  then show ?thesis using W Z(1) Y(1,2) assms(6) unfolding overtaken_def by fastforce
qed

text \<open>
  The step of the argument where a candidate wins: a log at least as up to date as one that holds the first \<open>n\<close> entries of
  the leader of \<open>t\<close>, the last of them written by that leader, holds them too, or a leader in between lacked them.
\<close>

definition lastTermOf :: "'c log \<Rightarrow> int" where
  "lastTermOf X = (if X = [] then 0 else entryTerm (last X))"

definition upToDate :: "nat \<Rightarrow> int \<Rightarrow> 'c log \<Rightarrow> bool" where
  "upToDate len tm V \<longleftrightarrow> (if tm \<noteq> lastTermOf V then tm > lastTermOf V else len \<ge> length V)"

lemma up_to_date_prefix:
  assumes map: "wfMap L" and C: "wfLog L C" "termsLe C (b - 1)" and V: "wfLog L V"
    and X: "L t = Some X" "agrees V X n" "1 \<le> n" "entryTerm (X ! (n - 1)) = t" "0 \<le> t"
    and up: "upToDate (length C) (lastTermOf C) V"
  shows "agrees C X n \<or> overtaken L t n (b - 1)"
proof -
  have n: "n \<le> length V" "n \<le> length X" "V \<noteq> []" using X(2,3) by (auto simp: agrees_def)
  have "V ! (n - 1) = X ! (n - 1)" using agrees_nth [OF X(2)] X(3) by simp
  then have "t \<le> entryTerm (last V)" using sortedTerms_last [of V "n - 1"] V n X(3,4) by (simp add: wfLog_def)
  then have tV: "t \<le> lastTermOf V" using n(3) by (simp add: lastTermOf_def)
  show ?thesis
  proof (cases "lastTermOf C = lastTermOf V")
    case True
    then have len: "length V \<le> length C" using up by (simp add: upToDate_def)
    then have C0: "C \<noteq> []" using n(3) by auto
    let ?u = "lastTermOf V"
    have "entryTerm (V ! (length V - 1)) = ?u" "entryTerm (C ! (length C - 1)) = ?u"
      using n(3) C0 True by (simp_all add: lastTermOf_def last_conv_nth)
    then obtain Y Y' where "L ?u = Some Y" "agrees V Y (length V)" "L ?u = Some Y'" "agrees C Y' (length C)"
      using V C(1) n(3) C0 unfolding wfLog_def by (metis Suc_diff_1 diff_less length_greater_0_conv less_one)
    then have "agrees V C (length V)" using len agrees_mono agrees_trans agrees_sym by (metis option.inject)
    then have "agrees C X n" using agrees_mono n(1) agrees_trans agrees_sym X(2) by blast
    then show ?thesis ..
  next
    case False
    then have gt: "lastTermOf V < lastTermOf C" using up by (simp add: upToDate_def)
    then have C0: "C \<noteq> []" using tV X(5) by (auto simp: lastTermOf_def)
    let ?u = "lastTermOf C"
    have u: "entryTerm (C ! (length C - 1)) = ?u" using C0 by (simp add: lastTermOf_def last_conv_nth)
    then obtain Y where Y: "L ?u = Some Y" "agrees C Y (length C)"
      using C(1) C0 unfolding wfLog_def by (metis Suc_diff_1 diff_less length_greater_0_conv less_one)
    have ub: "?u \<le> b - 1" using termsLe_nth [OF C(2), of "length C - 1"] u C0 by simp
    show ?thesis
    proof (cases "agrees X Y n")
      case True
      have "n \<le> length C"
      proof (rule ccontr)
        assume short: "\<not> n \<le> length C"
        then have "X ! (length C - 1) = Y ! (length C - 1)" using agrees_nth [OF True] by simp
        also have "\<dots> = C ! (length C - 1)" using agrees_nth [OF Y(2), of "length C - 1"] C0 by simp
        finally have "entryTerm (X ! (length C - 1)) = ?u" using u by simp
        moreover have "entryTerm (X ! (length C - 1)) \<le> t"
          using wfMap_D [OF map X(1)] short n(2) by (intro termsLe_nth) auto
        ultimately show False using gt tV by simp
      qed
      then have "agrees C Y n" using agrees_mono [OF Y(2)] by simp
      then show ?thesis using True agrees_trans agrees_sym by blast
    next
      case False
      then show ?thesis using X(1) Y(1) gt tV ub unfolding overtaken_def by fastforce
    qed
  qed
qed

section \<open>Extending the map of leaders\<close>

lemma lead_new:
  assumes "wfMap L" "L t = None" "wfLog L X" "termsLe X t"
  shows "leadGrows L (L(t \<mapsto> X)) \<and> wfMap (L(t \<mapsto> X))"
proof -
  have g: "leadGrows L (L(t \<mapsto> X))" using assms(2) by (auto simp: leadGrows_def)
  have "wfLog (L(t \<mapsto> X)) Y \<and> termsLe Y u" if "(L(t \<mapsto> X)) u = Some Y" for u Y
    using that assms g wfMap_D [OF assms(1), of u Y] wfLog_grows [OF _ g] by (auto split: if_splits)
  then show ?thesis using g by (simp add: wfMap_def)
qed

lemma lead_append:
  assumes "wfMap L" "L t = Some X" "entryTerm e = t"
  shows "leadGrows L (L(t \<mapsto> X @ [e])) \<and> wfMap (L(t \<mapsto> X @ [e]))"
proof -
  let ?L = "L(t \<mapsto> X @ [e])"
  have g: "leadGrows L ?L"
    unfolding leadGrows_def using assms(2,3) by auto
  have X: "wfLog L X" "termsLe X t" using wfMap_D [OF assms(1,2)] by auto
  have "wfLog ?L (X @ [e])" using wfLog_snoc [OF X(1) _ _ g] X(2) assms(3) by simp
  moreover have "termsLe (X @ [e]) t" using X(2) assms(3) by (simp add: termsLe_def)
  ultimately have "wfLog ?L Y \<and> termsLe Y u" if "?L u = Some Y" for u Y
    using that wfMap_D [OF assms(1), of u Y] wfLog_grows [OF _ g] by (auto split: if_splits)
  then show ?thesis using g by (simp add: wfMap_def)
qed

end
