(* ===== verification/Raft_Replication.thy ===== *)
theory Raft_Replication
  imports Raft_Cluster Raft_Logs
begin

text \<open>
  The cluster with its replication traffic (\<open>RunHeartbeats\<close>, \<open>replicate\<close> and \<open>replicateToPeer\<close> in \<open>heartbeat.go\<close> and
  \<open>log_replication.go\<close>). \<open>replicate\<close> waits for all its calls before the next round starts, so a node has at most one call to each
  peer under way: \<open>calls i p\<close> is that call, sent, answered or none. A call may fail before or after the peer handled it. As
  over \<open>FakeTransport\<close>, a call that has returned is not handled afterwards (a delayed call can remove entries:
  \<open>Raft_Commit.delayed_AppendEntries_truncates\<close>), and the calls of a node that crashes end with it. The nodes run
  every locked section of \<open>Raft_Loops\<close> except that the state machines take no snapshots, so that nothing is compacted and no
  \<open>InstallSnapshot\<close> is sent.

  \<open>lead\<close>, \<open>acked\<close>, \<open>vlogs\<close> and \<open>applied\<close> are history variables that no step reads: the log of the leader of each term as far as
  it got; the triples (node, term, \<open>n\<close>) such that the node has acknowledged the first \<open>n\<close> entries of the leader of the term; the log
  of each voter when it voted; and every message delivered to a state machine.
\<close>

datatype 'c replCall = NoCall | Sent "'c AppendEntriesArgs" | Answered "'c AppendEntriesArgs" AppendEntriesReply

record ('c, 'd) Net =
  cl :: "('c, 'd) Cluster"
  calls :: "int \<Rightarrow> int \<Rightarrow> 'c replCall"
  lead :: "'c leadMap"
  acked :: "(int \<times> int \<times> nat) set"
  vlogs :: "(int \<times> int \<times> 'c log) set"
  applied :: "(int \<times> ('c, 'd) ApplyMsg) set"

abbreviation nd :: "('c, 'd) Net \<Rightarrow> int \<Rightarrow> ('c, 'd) Raft" where
  "nd S i \<equiv> node (cl S) i"

definition putNode :: "int \<Rightarrow> ('c, 'd) Raft \<Rightarrow> ('c, 'd) Net \<Rightarrow> ('c, 'd) Net" where
  "putNode i r S = S\<lparr>cl := setNode i r (cl S),
     lead := (if state r = Leader then (lead S)(currentTerm r \<mapsto> log r) else lead S),
     acked := acked S \<union> (if state r = Leader then {(i, currentTerm r, n) |n. n \<le> length (log r)} else {})\<rparr>"

definition setCall :: "int \<Rightarrow> int \<Rightarrow> 'c replCall \<Rightarrow> ('c, 'd) Net \<Rightarrow> ('c, 'd) Net" where
  "setCall i p x S = S\<lparr>calls := (calls S)(i := (calls S i)(p := x))\<rparr>"

definition aeEnd :: "'c AppendEntriesArgs \<Rightarrow> int" where
  "aeEnd args = aePrevLogIndex args + int (length (aeEntries args))"

inductive rstep :: "int set \<Rightarrow> ('c, 'd) Net \<Rightarrow> ('c, 'd) Net \<Rightarrow> bool" for E where
  propose: "i \<in> E \<Longrightarrow> Propose cmd (nd S i) = (res, r') \<Longrightarrow> rstep E S (putNode i r' S)"
| timer: "i \<in> E \<Longrightarrow> rstep E S (putNode i (takeTimerReset (nd S i)) S)"
| deliver: "i \<in> E \<Longrightarrow> applyPendingStep (nd S i) = Inr (Some r') \<Longrightarrow>
    rstep E S ((putNode i r' S)\<lparr>applied := insert (i, last (ApplyCh r')) (applied S)\<rparr>)"
| timeout: "i \<in> E \<Longrightarrow> electionTimeout (nd S i) = (True, r') \<Longrightarrow>
    rstep E S ((putNode i r' S)\<lparr>cl := (setNode i r' (cl S))\<lparr>spawned := (spawned (cl S))(i := spawned (cl S) i + 1)\<rparr>,
      vlogs := insert (i, currentTerm r', log r') (vlogs S)\<rparr>)"
| begins: "i \<in> E \<Longrightarrow> 0 < spawned (cl S) i \<Longrightarrow>
    rstep E S (S\<lparr>cl := (cl S)\<lparr>spawned := (spawned (cl S))(i := spawned (cl S) i - 1),
      elections := elections (cl S) @ [newRun i (cl S)]\<rparr>\<rparr>)"
| request: "k < length (elections (cl S)) \<Longrightarrow> run = elections (cl S) ! k \<Longrightarrow> p \<in> set (elPeers (runEl run)) \<Longrightarrow>
    runCalls run p = Pending \<Longrightarrow> RequestVote (elArgs (runEl run)) (nd S p) = (reply, r') \<Longrightarrow>
    rstep E S ((putNode p r' S)\<lparr>cl := (setNode p r' (cl S))\<lparr>elections := (elections (cl S))[k :=
        run\<lparr>runCalls := (runCalls run)(p := Replied reply)\<rparr>]\<rparr>,
      vlogs := (if rvrVoteGranted reply then insert (p, rvTerm (elArgs (runEl run)), log (nd S p)) (vlogs S) else vlogs S)\<rparr>)"
| reply: "k < length (elections (cl S)) \<Longrightarrow> run = elections (cl S) ! k \<Longrightarrow> p \<in> set (elPeers (runEl run)) \<Longrightarrow>
    runCalls run p = Replied reply \<Longrightarrow> i = runNode run \<Longrightarrow> epoch (cl S) i = runEpoch run \<Longrightarrow>
    startElection_reply reply (runEl run) (nd S i) = (el', r') \<Longrightarrow>
    rstep E S ((putNode i r' S)\<lparr>cl := (setNode i r' (cl S))\<lparr>elections := (elections (cl S))[k :=
        run\<lparr>runEl := el', runCalls := (runCalls run)
          (p := (if elVotes (runEl run) < elVotes el' then Counted else Dismissed))\<rparr>]\<rparr>\<rparr>)"
| crash: "i \<in> E \<Longrightarrow> persister (nd S i) = Some p \<Longrightarrow>
    rstep E S (S\<lparr>cl := restartNode i p (cl S), calls := (calls S)(i := (\<lambda>_. NoCall))\<rparr>)"
| send: "i \<in> E \<Longrightarrow> p \<in> set (peers (nd S i)) \<Longrightarrow> calls S i p = NoCall \<Longrightarrow>
    replicateToPeer_begin p (nd S i) = Inr (ReplAppendEntries args) \<Longrightarrow> rstep E S (setCall i p (Sent args) S)"
| handle: "calls S i p = Sent args \<Longrightarrow> AppendEntries args (nd S p) = Inr (rep, r') \<Longrightarrow>
    rstep E S (let S1 = setCall i p (Answered args rep) (putNode p r' S)
      in S1\<lparr>acked := acked S1 \<union> (if aerSuccess rep then {(p, aeTerm args, n) |n. int n \<le> aeEnd args} else {})\<rparr>)"
| fails: "rstep E S (setCall i p NoCall S)"
| returns: "calls S i p = Answered args rep \<Longrightarrow>
    rstep E S (setCall i p NoCall (putNode i (replicateToPeer_reply p args rep (nd S i)) S))"

definition initNet :: "(int \<Rightarrow> int list) \<Rightarrow> ('c, 'd) Net" where
  "initNet ps = \<lparr>cl = initCluster ps, calls = (\<lambda>_ _. NoCall), lead = Map.empty, acked = {}, vlogs = {}, applied = {}\<rparr>"

inductive reachableN :: "int set \<Rightarrow> (int \<Rightarrow> int list) \<Rightarrow> ('c, 'd) Net \<Rightarrow> bool" for E ps where
  init: "reachableN E ps (initNet ps)"
| step: "reachableN E ps S \<Longrightarrow> rstep E S S' \<Longrightarrow> reachableN E ps S'"

lemma putNode_simps [simp]:
  "cl (putNode i r S) = setNode i r (cl S)" "calls (putNode i r S) = calls S" "vlogs (putNode i r S) = vlogs S"
  "applied (putNode i r S) = applied S"
  by (simp_all add: putNode_def)

lemma setCall_simps [simp]:
  "cl (setCall i p x S) = cl S" "lead (setCall i p x S) = lead S" "acked (setCall i p x S) = acked S"
  "vlogs (setCall i p x S) = vlogs S" "applied (setCall i p x S) = applied S"
  "calls (setCall i p x S) = (calls S)(i := (calls S i)(p := x))"
  by (simp_all add: setCall_def)

section \<open>Every step is a step of the cluster\<close>

text \<open>The calls go only between nodes of the cluster.\<close>

definition callsIn :: "int set \<Rightarrow> ('c, 'd) Net \<Rightarrow> bool" where
  "callsIn E S \<longleftrightarrow> (\<forall>i p. calls S i p \<noteq> NoCall \<longrightarrow> i \<in> E \<and> p \<in> E \<and> p \<noteq> i)"

lemma callsInD: "callsIn E S \<Longrightarrow> calls S i p = x \<Longrightarrow> x \<noteq> NoCall \<Longrightarrow> i \<in> E \<and> p \<in> E \<and> p \<noteq> i"
  by (auto simp: callsIn_def)

lemma rstep_cstep:
  assumes "rstep E S S'" "callsIn E S"
  shows "cstep E (cl S) (cl S') \<or> cl S' = cl S"
  using assms(1)
proof cases
  case (propose i cmd res r')
  then show ?thesis using cstep.local [of i E "EvPropose cmd" "cl S" r'] by simp
next
  case (timer i)
  then show ?thesis using cstep.local [of i E EvTimerReset "cl S"] by simp
next
  case (deliver i r')
  then show ?thesis using cstep.local [of i E EvApplyOne "cl S" r'] by simp
next
  case (timeout i r')
  then show ?thesis using cstep.timeout [of i E "cl S" r'] by simp
next
  case (begins i)
  then show ?thesis using cstep.begins [of i E "cl S"] by simp
next
  case (request k run p reply r')
  then show ?thesis using cstep.request [of k "cl S" run p reply r' E] by simp
next
  case (reply k run p reply i el' r')
  then show ?thesis using cstep.reply [of k "cl S" run p reply i el' r' E] by simp
next
  case (crash i p)
  then show ?thesis using cstep.crash [of i E "cl S" p] by simp
next
  case (handle i p args rep r')
  then have "p \<in> E" using callsInD [OF assms(2)] by blast
  then show ?thesis using handle cstep.local [of p E "EvAppendEntries args" "cl S" r'] by (simp add: Let_def)
next
  case (returns i p args rep)
  then have "i \<in> E" using callsInD [OF assms(2)] by blast
  then show ?thesis using returns cstep.local [of i E "EvAppendReply p args rep" "cl S"] by simp
qed simp_all

lemma rstep_callsIn:
  assumes "rstep E S S'" "callsIn E S" "cinv E ps (cl S)" "peersOK E ps"
  shows "callsIn E S'"
  using assms(1)
proof cases
  case (send i p args)
  have "set (peers (nd S i)) = E - {i}" using assms(3,4) send(2) by (simp add: cinv_def nodeOK_def peersOK_def)
  then show ?thesis using send assms(2) by (auto simp: callsIn_def)
next
  case (handle i p args rep r')
  have "calls S i p \<noteq> NoCall" using handle(2) by simp
  then show ?thesis using handle(1) assms(2) by (auto simp: callsIn_def Let_def)
qed (use assms(2) in \<open>auto simp: callsIn_def\<close>)

lemma cinv_rstep:
  assumes "rstep E S S'" "peersOK E ps" "cinv E ps (cl S)" "callsIn E S"
  shows "cinv E ps (cl S')"
  using rstep_cstep [OF assms(1,4)] cinv_cstep [OF _ assms(2,3)] assms(3) by auto

end
