(* ===== verification/Raft_Spec.thy ===== *)
theory Raft_Spec
  imports Raft_Logs
begin

text \<open>
  The abstract specification of replication: what the nodes of a Raft cluster may do to their terms, logs and commit indices, with no
  messages, roles or goroutines. \<open>Raft_Safety\<close> shows that the code implements it. The state carries the history that the
  safety argument needs: the log of every leader, who acknowledged how much of it, and the logs of voters.
\<close>

record 'c spec =
  sterm :: "int \<Rightarrow> int"
  slog :: "int \<Rightarrow> 'c log"
  scommit :: "int \<Rightarrow> nat"
  slead :: "'c leadMap"
  sacked :: "(int \<times> int \<times> nat) set"
  svlogs :: "(int \<times> int \<times> 'c log) set"

definition majority :: "int set \<Rightarrow> int set \<Rightarrow> bool" where
  "majority E Q \<longleftrightarrow> Q \<subseteq> E \<and> card E div 2 < card Q"

text \<open>An entry is committed when a majority acknowledged it to the leader of the term in which it was written.\<close>

definition committed :: "int set \<Rightarrow> 'c leadMap \<Rightarrow> (int \<times> int \<times> nat) set \<Rightarrow> int \<Rightarrow> nat \<Rightarrow> bool" where
  "committed E L A t n \<longleftrightarrow> (\<exists>Q. majority E Q \<and> (\<forall>v \<in> Q. (v, t, n) \<in> A)) \<and>
     (\<exists>X. L t = Some X \<and> 1 \<le> n \<and> n \<le> length X \<and> entryTerm (X ! (n - 1)) = t)"

definition mayCommit :: "int set \<Rightarrow> 'c spec \<Rightarrow> int \<Rightarrow> nat \<Rightarrow> bool" where
  "mayCommit E s v k \<longleftrightarrow> (\<exists>t n X. committed E (slead s) (sacked s) t n \<and> k \<le> n \<and> slead s t = Some X \<and> agrees (slog s v) X k \<and>
     (t < sterm s v \<or> t = sterm s v \<and> (v, t, k) \<in> sacked s))"

inductive astep :: "int set \<Rightarrow> 'c spec \<Rightarrow> 'c spec \<Rightarrow> bool" for E where
  bump: "v \<in> E \<Longrightarrow> sterm s v \<le> t \<Longrightarrow> astep E s (s\<lparr>sterm := (sterm s)(v := t)\<rparr>)"
| vote: "v \<in> E \<Longrightarrow> astep E s (s\<lparr>svlogs := insert (v, sterm s v, slog s v) (svlogs s)\<rparr>)"
| win: "i \<in> E \<Longrightarrow> slead s (sterm s i) = None \<Longrightarrow> 0 \<le> sterm s i \<Longrightarrow> termsLe (slog s i) (sterm s i - 1) \<Longrightarrow> majority E Q \<Longrightarrow>
    \<forall>v \<in> Q. \<exists>V. (v, sterm s i, V) \<in> svlogs s \<and> upToDate (length (slog s i)) (lastTermOf (slog s i)) V \<Longrightarrow>
    astep E s (s\<lparr>slead := (slead s)(sterm s i \<mapsto> slog s i),
      sacked := sacked s \<union> {(i, sterm s i, n) |n. n \<le> length (slog s i)}\<rparr>)"
| append: "i \<in> E \<Longrightarrow> slead s (sterm s i) = Some (slog s i) \<Longrightarrow> entryTerm e = sterm s i \<Longrightarrow> X = slog s i @ [e] \<Longrightarrow>
    astep E s (s\<lparr>slog := (slog s)(i := X), slead := (slead s)(sterm s i \<mapsto> X),
      sacked := sacked s \<union> {(i, sterm s i, n) |n. n \<le> length X}\<rparr>)"
| accept: "v \<in> E \<Longrightarrow> sterm s v \<le> t \<Longrightarrow> slead s t = Some X \<Longrightarrow> m \<le> length X \<Longrightarrow>
    (Y = slog s v \<and> agrees Y X m) \<or>
    (Y = take m X \<and> (\<forall>n. (v, t, n) \<in> sacked s \<longrightarrow> n \<le> m) \<and> (\<forall>k < length X. m \<le> k \<longrightarrow> entryTerm (X ! k) = t)) \<Longrightarrow>
    astep E s (s\<lparr>sterm := (sterm s)(v := t), slog := (slog s)(v := Y), sacked := sacked s \<union> {(v, t, n) |n. n \<le> m}\<rparr>)"
| commit: "v \<in> E \<Longrightarrow> mayCommit E s v k \<Longrightarrow> astep E s (s\<lparr>scommit := (scommit s)(v := k)\<rparr>)"
| restart: "v \<in> E \<Longrightarrow> astep E s (s\<lparr>scommit := (scommit s)(v := 0)\<rparr>)"

section \<open>The invariant\<close>

definition ackOk :: "int set \<Rightarrow> 'c spec \<Rightarrow> int \<Rightarrow> int \<Rightarrow> nat \<Rightarrow> bool" where
  "ackOk E s v t n \<longleftrightarrow> v \<in> E \<and> t \<le> sterm s v \<and>
     (\<exists>X. slead s t = Some X \<and> n \<le> length X \<and> (agrees (slog s v) X n \<or> overtaken (slead s) t n (sterm s v)))"

definition vlogOk :: "int set \<Rightarrow> 'c spec \<Rightarrow> int \<Rightarrow> int \<Rightarrow> 'c log \<Rightarrow> bool" where
  "vlogOk E s v b V \<longleftrightarrow> v \<in> E \<and> b \<le> sterm s v \<and> wfLog (slead s) V \<and>
     (\<forall>t n X. (v, t, n) \<in> sacked s \<and> t < b \<and> slead s t = Some X \<longrightarrow> agrees V X n \<or> overtaken (slead s) t n b)"

definition electedOk :: "int set \<Rightarrow> 'c spec \<Rightarrow> int \<Rightarrow> 'c log \<Rightarrow> bool" where
  "electedOk E s b Y \<longleftrightarrow> (\<exists>Q. majority E Q \<and> (\<forall>v \<in> Q. b \<le> sterm s v \<and>
     (\<forall>t n X. (v, t, n) \<in> sacked s \<and> t < b \<and> slead s t = Some X \<and> 1 \<le> n \<and> entryTerm (X ! (n - 1)) = t \<longrightarrow>
        agrees Y X n \<or> overtaken (slead s) t n (b - 1))))"

definition ainv :: "int set \<Rightarrow> 'c spec \<Rightarrow> bool" where
  "ainv E s \<longleftrightarrow> wfMap (slead s) \<and> (\<forall>t X. slead s t = Some X \<longrightarrow> 0 \<le> t \<and> electedOk E s t X) \<and>
     (\<forall>v \<in> E. wfLog (slead s) (slog s v) \<and> termsLe (slog s v) (sterm s v)) \<and>
     (\<forall>v t n. (v, t, n) \<in> sacked s \<longrightarrow> ackOk E s v t n) \<and>
     (\<forall>v b V. (v, b, V) \<in> svlogs s \<longrightarrow> vlogOk E s v b V) \<and>
     (\<forall>v \<in> E. scommit s v = 0 \<or> mayCommit E s v (scommit s v))"

section \<open>Leader completeness\<close>

lemma majorities_share:
  assumes "finite E" "majority E P" "majority E Q"
  obtains v where "v \<in> P" "v \<in> Q"
  using majorities_meet [OF assms(1)] assms(2,3) unfolding majority_def by metis

lemma leader_complete:
  assumes inv: "ainv E s" and fin: "finite E" and c: "committed E (slead s) (sacked s) t n" and X: "slead s t = Some X"
  shows "t < b \<Longrightarrow> slead s b = Some Y \<Longrightarrow> agrees X Y n"
proof (induction "nat (b - t)" arbitrary: b Y rule: less_induct)
  case less
  obtain P where P: "majority E P" "\<forall>v \<in> P. (v, t, n) \<in> sacked s" and n: "1 \<le> n" "entryTerm (X ! (n - 1)) = t"
    using c X by (auto simp: committed_def)
  have "electedOk E s b Y" using inv less.prems(2) by (simp add: ainv_def)
  then obtain Q where Q: "majority E Q" "\<forall>v \<in> Q. \<forall>t n X. (v, t, n) \<in> sacked s \<and> t < b \<and> slead s t = Some X \<and> 1 \<le> n \<and>
      entryTerm (X ! (n - 1)) = t \<longrightarrow> agrees Y X n \<or> overtaken (slead s) t n (b - 1)"
    by (auto simp: electedOk_def)
  obtain v where v: "v \<in> P" "v \<in> Q" using majorities_share [OF fin P(1) Q(1)] .
  then have "agrees Y X n \<or> overtaken (slead s) t n (b - 1)" using Q(2) P(2) X n less.prems(1) by blast
  then show ?case
  proof
    assume "overtaken (slead s) t n (b - 1)"
    then obtain u Z where u: "t < u" "u \<le> b - 1" "slead s u = Some Z" "\<not> agrees X Z n" using X by (auto simp: overtaken_def)
    then have "agrees X Z n" using less.hyps [of u Z] by simp
    then show ?thesis using u(4) by simp
  qed (rule agrees_sym)
qed

text \<open>Two commit indices never cover different entries.\<close>

lemma commits_agree:
  assumes inv: "ainv E s" and fin: "finite E" and v: "mayCommit E s v k" and w: "mayCommit E s w l"
  shows "agrees (slog s v) (slog s w) (min k l)"
proof -
  obtain t n X where a: "committed E (slead s) (sacked s) t n" "k \<le> n" "slead s t = Some X" "agrees (slog s v) X k"
    using v by (auto simp: mayCommit_def)
  obtain u m Y where b: "committed E (slead s) (sacked s) u m" "l \<le> m" "slead s u = Some Y" "agrees (slog s w) Y l"
    using w by (auto simp: mayCommit_def)
  have kl: "min k l \<le> k" "min k l \<le> l" "min k l \<le> n" "min k l \<le> m" using a(2) b(2) by auto
  have "agrees X Y (min k l)"
  proof (cases t u rule: linorder_cases)
    case less
    then show ?thesis using leader_complete [OF inv fin a(1,3) less b(3)] agrees_mono kl(3) by blast
  next
    case equal
    then have "X = Y" "k \<le> length X" using a(3,4) b(3) by (auto simp: agrees_def)
    then show ?thesis using kl(1) by simp
  next
    case greater
    then show ?thesis using leader_complete [OF inv fin b(1,3) greater a(3)] agrees_mono kl(4) agrees_sym by blast
  qed
  then show ?thesis using agrees_mono [OF a(4) kl(1)] agrees_mono [OF b(4) kl(2)] agrees_trans agrees_sym by blast
qed

text \<open>A leader has everything that a node of an earlier or the same term has committed.\<close>

lemma commits_in_leader:
  assumes inv: "ainv E s" and fin: "finite E" and v: "mayCommit E s v k" and b: "slead s b = Some Y" "sterm s v \<le> b"
  shows "agrees (slog s v) Y k"
proof -
  obtain t n X where a: "committed E (slead s) (sacked s) t n" "k \<le> n" "slead s t = Some X" "agrees (slog s v) X k" "t \<le> sterm s v"
    using v by (auto simp: mayCommit_def)
  show ?thesis
  proof (cases "t = b")
    case True
    then show ?thesis using a(3,4) b(1) by simp
  next
    case False
    then have "agrees X Y k" using leader_complete [OF inv fin a(1,3) _ b(1)] a(2,5) b(2) agrees_mono by fastforce
    then show ?thesis using a(4) agrees_trans by blast
  qed
qed

section \<open>Growth of the history\<close>

text \<open>Every step only adds to the history, and a node acknowledges no leader of a term before its own.\<close>

definition grows :: "'c spec \<Rightarrow> 'c spec \<Rightarrow> bool" where
  "grows s s' \<longleftrightarrow> leadGrows (slead s) (slead s') \<and> wfMap (slead s') \<and> sacked s \<subseteq> sacked s' \<and> (\<forall>v. sterm s v \<le> sterm s' v) \<and>
     (\<forall>v t n. (v, t, n) \<in> sacked s' \<longrightarrow> (v, t, n) \<notin> sacked s \<longrightarrow> sterm s v \<le> t)"

lemma growsD:
  assumes "grows s s'"
  shows "leadGrows (slead s) (slead s')" "wfMap (slead s')" "sacked s \<subseteq> sacked s'" "sterm s v \<le> sterm s' v"
    "(v, t, n) \<in> sacked s' \<Longrightarrow> t < sterm s v \<Longrightarrow> (v, t, n) \<in> sacked s"
  using assms unfolding grows_def by (blast, blast, blast, blast, force)

lemma ainvD:
  assumes "ainv E s"
  shows "wfMap (slead s)" "slead s t = Some X \<Longrightarrow> 0 \<le> t" "slead s t = Some X \<Longrightarrow> electedOk E s t X"
    "v \<in> E \<Longrightarrow> wfLog (slead s) (slog s v)" "v \<in> E \<Longrightarrow> termsLe (slog s v) (sterm s v)"
    "(v, t, n) \<in> sacked s \<Longrightarrow> ackOk E s v t n" "(v, b, V) \<in> svlogs s \<Longrightarrow> vlogOk E s v b V"
    "v \<in> E \<Longrightarrow> scommit s v = 0 \<or> mayCommit E s v (scommit s v)"
  using assms by (simp_all add: ainv_def)

lemma ackedD:
  assumes "ainv E s" "(v, t, n) \<in> sacked s"
  obtains X where "v \<in> E" "t \<le> sterm s v" "slead s t = Some X" "n \<le> length X"
    "agrees (slog s v) X n \<or> overtaken (slead s) t n (sterm s v)"
  using ainvD(6) [OF assms] by (auto simp: ackOk_def)

text \<open>What was true of an acknowledgement and a log stays true as the leaders' logs grow.\<close>

lemma kept_grows:
  assumes inv: "ainv E s" and g: "grows s s'" and ack: "(v, t, n) \<in> sacked s" and X': "slead s' t = Some X'"
    and old: "\<And>X. slead s t = Some X \<Longrightarrow> (\<exists>W. X' = X @ W) \<Longrightarrow> n \<le> length X \<Longrightarrow> agrees Y X n \<or> overtaken (slead s) t n b"
    and "b \<le> b'"
  shows "agrees Y X' n \<or> overtaken (slead s') t n b'"
proof -
  obtain X where X: "slead s t = Some X" "n \<le> length X" using ackedD [OF inv ack] by metis
  obtain W where "slead s' t = Some (X @ W)" using leadGrows_D [OF growsD(1) [OF g] X(1)] by metis
  then have W: "X' = X @ W" using X' by simp
  then consider "agrees Y X n" | "overtaken (slead s) t n b" using old X by blast
  then show ?thesis
  proof cases
    case 1
    then show ?thesis using X(2) W by simp
  next
    case 2
    then show ?thesis using overtaken_grows [OF ainvD(1) [OF inv] growsD(1) [OF g] X _ assms(6)] by blast
  qed
qed

lemma electedOk_grows:
  assumes inv: "ainv E s" and g: "grows s s'" and Y: "slead s b = Some Y" "slead s' b = Some Y'"
  shows "electedOk E s' b Y'"
proof -
  obtain Z where Z: "Y' = Y @ Z" using leadGrows_D [OF growsD(1) [OF g] Y(1)] Y(2) by (metis option.inject)
  obtain Q where Q: "majority E Q" "\<forall>v \<in> Q. b \<le> sterm s v"
    "\<forall>v \<in> Q. \<forall>t n X. (v, t, n) \<in> sacked s \<and> t < b \<and> slead s t = Some X \<and> 1 \<le> n \<and> entryTerm (X ! (n - 1)) = t \<longrightarrow>
        agrees Y X n \<or> overtaken (slead s) t n (b - 1)"
    using ainvD(3) [OF inv Y(1)] by (auto simp: electedOk_def)
  have "agrees Y' X' n \<or> overtaken (slead s') t n (b - 1)"
    if "v \<in> Q" "(v, t, n) \<in> sacked s'" "t < b" "slead s' t = Some X'" "1 \<le> n" "entryTerm (X' ! (n - 1)) = t" for v t n X'
  proof (rule kept_grows [OF inv g])
    have "t < sterm s v" using Q(2) that(1,3) by fastforce
    then show "(v, t, n) \<in> sacked s" using growsD(5) [OF g that(2)] by simp
    show "slead s' t = Some X'" by (rule that)
  next
    fix X assume X: "slead s t = Some X" "\<exists>W. X' = X @ W" "n \<le> length X"
    have ack: "(v, t, n) \<in> sacked s" using Q(2) that(1,2,3) growsD(5) [OF g that(2)] by fastforce
    have "entryTerm (X ! (n - 1)) = t" using X(2,3) that(5,6) by (auto simp: nth_append)
    then have "agrees Y X n \<or> overtaken (slead s) t n (b - 1)" using Q(3) that(1,3,5) ack X(1) by blast
    then show "agrees Y' X n \<or> overtaken (slead s) t n (b - 1)" using Z by (auto simp: agrees_def)
  qed simp
  moreover have "b \<le> sterm s' v" if "v \<in> Q" for v using Q(2) that growsD(4) [OF g, of v] by fastforce
  ultimately show ?thesis using Q(1) unfolding electedOk_def by blast
qed

lemma vlogOk_grows:
  assumes inv: "ainv E s" and g: "grows s s'" and V: "vlogOk E s v b V"
  shows "vlogOk E s' v b V"
proof -
  have v: "v \<in> E" "b \<le> sterm s v" "wfLog (slead s) V" using V by (auto simp: vlogOk_def)
  have "agrees V X' n \<or> overtaken (slead s') t n b" if "(v, t, n) \<in> sacked s'" "t < b" "slead s' t = Some X'" for t n X'
  proof -
    have "t < sterm s v" using v(2) that(2) by simp
    then have ack: "(v, t, n) \<in> sacked s" using growsD(5) [OF g that(1)] by simp
    show ?thesis
      by (rule kept_grows [OF inv g ack that(3), where b = b]) (use V ack that(2) in \<open>simp_all add: vlogOk_def\<close>)
  qed
  moreover have "wfLog (slead s') V" using wfLog_grows [OF v(3) growsD(1) [OF g]] .
  moreover have "b \<le> sterm s' v" using v(2) growsD(4) [OF g, of v] by simp
  ultimately show ?thesis using v(1) unfolding vlogOk_def by blast
qed

lemma ackOk_grows:
  assumes inv: "ainv E s" and g: "grows s s'" and ack: "(v, t, n) \<in> sacked s"
    and log: "\<And>X. slead s t = Some X \<Longrightarrow> agrees (slog s v) X n \<Longrightarrow> agrees (slog s' v) X n \<or> overtaken (slead s) t n (sterm s' v)"
  shows "ackOk E s' v t n"
proof -
  obtain X where X: "v \<in> E" "t \<le> sterm s v" "slead s t = Some X" "n \<le> length X"
    "agrees (slog s v) X n \<or> overtaken (slead s) t n (sterm s v)" using ackedD [OF inv ack] by metis
  obtain W where W: "slead s' t = Some (X @ W)" using leadGrows_D [OF growsD(1) [OF g] X(3)] by metis
  have le: "sterm s v \<le> sterm s' v" using growsD(4) [OF g] .
  have "agrees (slog s' v) (X @ W) n \<or> overtaken (slead s') t n (sterm s' v)"
  proof (rule kept_grows [OF inv g ack W, where b = "sterm s' v"])
    fix X' assume "slead s t = Some X'"
    then have "X' = X" using X(3) by simp
    then show "agrees (slog s' v) X' n \<or> overtaken (slead s) t n (sterm s' v)"
      using X(3,5) log le unfolding overtaken_def by fastforce
  qed simp
  then show ?thesis using X(1,2,4) W le unfolding ackOk_def by fastforce
qed

lemma committed_grows:
  assumes g: "grows s s'" and c: "committed E (slead s) (sacked s) t n"
  shows "committed E (slead s') (sacked s') t n"
proof -
  obtain Q where Q: "majority E Q" "\<forall>v \<in> Q. (v, t, n) \<in> sacked s" using c by (auto simp: committed_def)
  obtain X where X: "slead s t = Some X" "1 \<le> n" "n \<le> length X" "entryTerm (X ! (n - 1)) = t" using c by (auto simp: committed_def)
  obtain W where W: "slead s' t = Some (X @ W)" using leadGrows_D [OF growsD(1) [OF g] X(1)] by metis
  have "\<forall>v \<in> Q. (v, t, n) \<in> sacked s'" using Q(2) growsD(3) [OF g] by blast
  moreover have "entryTerm ((X @ W) ! (n - 1)) = t" using X(2-4) by (auto simp: nth_append)
  ultimately show ?thesis using Q(1) X(2,3) W unfolding committed_def by fastforce
qed

lemma mayCommit_grows:
  assumes g: "grows s s'" and c: "mayCommit E s v k"
    and log: "\<And>t n X. committed E (slead s) (sacked s) t n \<Longrightarrow> k \<le> n \<Longrightarrow> slead s t = Some X \<Longrightarrow> agrees (slog s v) X k \<Longrightarrow>
      t < sterm s v \<or> t = sterm s v \<and> (v, t, k) \<in> sacked s \<Longrightarrow> agrees (slog s' v) X k"
  shows "mayCommit E s' v k"
proof -
  obtain t n X where a: "committed E (slead s) (sacked s) t n" "k \<le> n" "slead s t = Some X" "agrees (slog s v) X k"
    "t < sterm s v \<or> t = sterm s v \<and> (v, t, k) \<in> sacked s"
    using c by (auto simp: mayCommit_def)
  obtain W where W: "slead s' t = Some (X @ W)" using leadGrows_D [OF growsD(1) [OF g] a(3)] by metis
  have "agrees (slog s' v) X k" using log [OF a] .
  then have "agrees (slog s' v) (X @ W) k" by (auto simp: agrees_def)
  moreover have "t < sterm s' v \<or> t = sterm s' v \<and> (v, t, k) \<in> sacked s'"
    using a(5) growsD(3) [OF g] growsD(4) [OF g, of v] by (metis le_less less_le_trans subsetD)
  ultimately show ?thesis using committed_grows [OF g a(1)] a(2) W unfolding mayCommit_def by blast
qed

text \<open>The invariant after a step, from what is new in it.\<close>

lemma ainv_grows:
  assumes inv: "ainv E s" and g: "grows s s'"
    and leads: "\<And>t X. slead s t = None \<Longrightarrow> slead s' t = Some X \<Longrightarrow> 0 \<le> t \<and> electedOk E s' t X"
    and logs: "\<And>v. v \<in> E \<Longrightarrow> wfLog (slead s') (slog s' v) \<and> termsLe (slog s' v) (sterm s' v)"
    and old: "\<And>v t n X. (v, t, n) \<in> sacked s \<Longrightarrow> slead s t = Some X \<Longrightarrow> agrees (slog s v) X n \<Longrightarrow>
      agrees (slog s' v) X n \<or> overtaken (slead s) t n (sterm s' v)"
    and new: "\<And>v t n. (v, t, n) \<in> sacked s' \<Longrightarrow> (v, t, n) \<notin> sacked s \<Longrightarrow> ackOk E s' v t n"
    and votes: "\<And>v b V. (v, b, V) \<in> svlogs s' \<Longrightarrow> (v, b, V) \<notin> svlogs s \<Longrightarrow> vlogOk E s v b V"
    and commits: "\<And>v. v \<in> E \<Longrightarrow> scommit s' v = 0 \<or> mayCommit E s' v (scommit s' v)"
  shows "ainv E s'"
proof -
  have "0 \<le> t \<and> electedOk E s' t X" if X: "slead s' t = Some X" for t X
  proof (cases "slead s t")
    case None
    then show ?thesis using leads X by blast
  next
    case (Some Y)
    then show ?thesis using electedOk_grows [OF inv g Some X] ainvD(2) [OF inv Some] by simp
  qed
  moreover have "ackOk E s' v t n" if "(v, t, n) \<in> sacked s'" for v t n
    using new [OF that] ackOk_grows [OF inv g] old by blast
  moreover have "vlogOk E s' v b V" if "(v, b, V) \<in> svlogs s'" for v b V
    using votes [OF that] ainvD(7) [OF inv] vlogOk_grows [OF inv g] by blast
  ultimately show ?thesis using growsD(2) [OF g] logs commits unfolding ainv_def by blast
qed


section \<open>Every step keeps the invariant\<close>

lemma commit_kept:
  assumes inv: "ainv E s" and g: "grows s s'" and v: "v \<in> E" "scommit s' v = scommit s v"
    and log: "\<And>X k. agrees (slog s v) X k \<Longrightarrow> agrees (slog s' v) X k"
  shows "scommit s' v = 0 \<or> mayCommit E s' v (scommit s' v)"
  using ainvD(8) [OF inv v(1)] mayCommit_grows [OF g] log v(2) by metis

lemma bump_ainv:
  assumes inv: "ainv E s" and "v \<in> E" "sterm s v \<le> t"
  shows "ainv E (s\<lparr>sterm := (sterm s)(v := t)\<rparr>)" (is "ainv E ?s")
proof -
  have g: "grows s ?s" using ainvD(1) [OF inv] assms(3) by (simp add: grows_def)
  have "termsLe (slog s v) t" using termsLe_mono [OF ainvD(5) [OF inv assms(2)] assms(3)] .
  then show ?thesis
    using ainvD(4,5) [OF inv] commit_kept [OF inv g] by (intro ainv_grows [OF inv g]) simp_all
qed

lemma vote_ainv:
  assumes inv: "ainv E s" and v: "v \<in> E"
  shows "ainv E (s\<lparr>svlogs := insert (v, sterm s v, slog s v) (svlogs s)\<rparr>)" (is "ainv E ?s")
proof -
  have g: "grows s ?s" using ainvD(1) [OF inv] by (simp add: grows_def)
  have "agrees (slog s v) X n \<or> overtaken (slead s) t n (sterm s v)" if "(v, t, n) \<in> sacked s" "slead s t = Some X" for t n X
    using ackedD [OF inv that(1)] that(2) by (metis option.inject)
  then have "vlogOk E s v (sterm s v) (slog s v)" using v ainvD(4) [OF inv v] by (simp add: vlogOk_def)
  then show ?thesis
    using ainvD(4,5) [OF inv] commit_kept [OF inv g] by (intro ainv_grows [OF inv g]) auto
qed

lemma commit_ainv:
  assumes inv: "ainv E s" and v: "v \<in> E" and k: "k = 0 \<or> mayCommit E s v k"
  shows "ainv E (s\<lparr>scommit := (scommit s)(v := k)\<rparr>)" (is "ainv E ?s")
proof -
  have g: "grows s ?s" using ainvD(1) [OF inv] by (simp add: grows_def)
  have "scommit ?s w = 0 \<or> mayCommit E ?s w (scommit ?s w)" if "w \<in> E" for w
  proof (cases "w = v")
    case True
    then show ?thesis using k by (auto simp: mayCommit_def)
  next
    case False
    then show ?thesis using commit_kept [OF inv g that] by simp
  qed
  then show ?thesis using ainvD(4,5) [OF inv] by (intro ainv_grows [OF inv g]) simp_all
qed

lemma win_ainv:
  assumes inv: "ainv E s" and i: "i \<in> E" "slead s (sterm s i) = None" "0 \<le> sterm s i" "termsLe (slog s i) (sterm s i - 1)"
    and Q: "majority E Q"
      "\<forall>v \<in> Q. \<exists>V. (v, sterm s i, V) \<in> svlogs s \<and> upToDate (length (slog s i)) (lastTermOf (slog s i)) V"
  shows "ainv E (s\<lparr>slead := (slead s)(sterm s i \<mapsto> slog s i),
      sacked := sacked s \<union> {(i, sterm s i, n) |n. n \<le> length (slog s i)}\<rparr>)" (is "ainv E ?s")
proof -
  let ?b = "sterm s i" and ?C = "slog s i"
  have "termsLe ?C ?b" using termsLe_mono [OF i(4)] by simp
  then have new: "leadGrows (slead s) (slead ?s) \<and> wfMap (slead ?s)"
    using lead_new [OF ainvD(1) [OF inv] i(2) ainvD(4) [OF inv i(1)]] by simp
  then have g: "grows s ?s" by (auto simp: grows_def)
  have "agrees ?C X n \<or> overtaken (slead ?s) t n (?b - 1)"
    if v: "v \<in> Q" and ack: "(v, t, n) \<in> sacked ?s" and t: "t < ?b" "slead ?s t = Some X" "1 \<le> n" "entryTerm (X ! (n - 1)) = t"
    for v t n X
  proof -
    have old: "(v, t, n) \<in> sacked s" "slead s t = Some X" using ack t(1,2) by auto
    have len: "n \<le> length X" using ackedD [OF inv old(1)] old(2) by (metis option.inject)
    obtain V where V: "(v, ?b, V) \<in> svlogs s" "upToDate (length ?C) (lastTermOf ?C) V" using Q(2) v by blast
    have ok: "vlogOk E s v ?b V" using ainvD(7) [OF inv V(1)] .
    then have "agrees V X n \<or> overtaken (slead s) t n ?b" using old t(1) by (simp add: vlogOk_def)
    then have "agrees ?C X n \<or> overtaken (slead s) t n (?b - 1)"
    proof
      assume "agrees V X n"
      moreover have "wfLog (slead s) V" "0 \<le> t" using ok ainvD(2) [OF inv old(2)] by (auto simp: vlogOk_def)
      ultimately show ?thesis
        using up_to_date_prefix [OF ainvD(1) [OF inv] ainvD(4) [OF inv i(1)] i(4) _ old(2) _ t(3,4) _ V(2)] by blast
    next
      assume "overtaken (slead s) t n ?b"
      then obtain u Y where u: "t < u" "u \<le> ?b" "slead s u = Some Y" "\<not> agrees X Y n" using old(2) by (auto simp: overtaken_def)
      have "u \<noteq> ?b" using u(3) i(2) by auto
      then show ?thesis using u old(2) unfolding overtaken_def by force
    qed
    then show ?thesis using overtaken_grows [OF ainvD(1) [OF inv] conjunct1 [OF new] old(2) len] by blast
  qed
  moreover have "?b \<le> sterm s v" if "v \<in> Q" for v using Q(2) that ainvD(7) [OF inv] unfolding vlogOk_def by blast
  ultimately have el: "electedOk E ?s ?b ?C" using Q(1) unfolding electedOk_def by fastforce
  show ?thesis
  proof (rule ainv_grows [OF inv g])
    show "wfLog (slead ?s) (slog ?s v) \<and> termsLe (slog ?s v) (sterm ?s v)" if "v \<in> E" for v
      using ainvD(5) [OF inv that] wfLog_grows [OF ainvD(4) [OF inv that] conjunct1 [OF new]] by simp
    show "scommit ?s v = 0 \<or> mayCommit E ?s v (scommit ?s v)" if "v \<in> E" for v
      using commit_kept [OF inv g that] by simp
  qed (use el i(1,3) in \<open>auto simp: ackOk_def split: if_splits\<close>)
qed


lemma append_ainv:
  assumes inv: "ainv E s" and i: "i \<in> E" "slead s (sterm s i) = Some (slog s i)" "entryTerm e = sterm s i" "X = slog s i @ [e]"
  shows "ainv E (s\<lparr>slog := (slog s)(i := X), slead := (slead s)(sterm s i \<mapsto> X),
      sacked := sacked s \<union> {(i, sterm s i, n) |n. n \<le> length X}\<rparr>)" (is "ainv E ?s")
proof -
  have new: "leadGrows (slead s) (slead ?s)" "wfMap (slead ?s)"
    using lead_append [OF ainvD(1) [OF inv] i(2,3)] i(4) by simp_all
  then have g: "grows s ?s" by (auto simp: grows_def)
  have longer: "agrees (slog ?s v) Y n" if "agrees (slog s v) Y n" for v Y n
    using that i(4) by (auto simp: agrees_def)
  show ?thesis
  proof (rule ainv_grows [OF inv g])
    show "wfLog (slead ?s) (slog ?s v) \<and> termsLe (slog ?s v) (sterm ?s v)" if "v \<in> E" for v
    proof (cases "v = i")
      case True
      then show ?thesis using wfMap_D [OF new(2), of "sterm s i" X] by simp
    next
      case False
      then show ?thesis using ainvD(5) [OF inv that] wfLog_grows [OF ainvD(4) [OF inv that] new(1)] by simp
    qed
    show "scommit ?s v = 0 \<or> mayCommit E ?s v (scommit ?s v)" if "v \<in> E" for v
      using commit_kept [OF inv g that _ longer] by simp
    show "agrees (slog ?s v) Y n \<or> overtaken (slead s) t n (sterm ?s v)" if "agrees (slog s v) Y n" for v t n Y
      using longer [OF that] by simp
  qed (use i in \<open>auto simp: ackOk_def split: if_splits\<close>)
qed

text \<open>A node that takes over the log of a leader up to an entry of that leader's own keeps what an earlier leader shares with it.\<close>

lemma take_keeps:
  assumes map: "wfMap L" and L: "L u = Some Z" "u < t" and a: "agrees Z X n"
    and own: "\<forall>k < length X. m \<le> k \<longrightarrow> entryTerm (X ! k) = t"
  shows "agrees (take m X) Z n"
proof -
  have "n \<le> m"
  proof (rule ccontr)
    assume m: "\<not> n \<le> m"
    then have "m < length X" "m < length Z" using a by (auto simp: agrees_def)
    then have "entryTerm (X ! m) = t" "entryTerm (Z ! m) \<le> u" using own wfMap_D [OF map L(1)] by (auto simp: termsLe_nth)
    then show False using agrees_nth [OF a, of m] m L(2) by simp
  qed
  then show ?thesis using a by (auto simp: agrees_def min_def)
qed

lemma accept_ainv:
  assumes inv: "ainv E s" and fin: "finite E" and v: "v \<in> E" "sterm s v \<le> t" "slead s t = Some X" "m \<le> length X"
    and Y: "(Y = slog s v \<and> agrees Y X m) \<or>
      (Y = take m X \<and> (\<forall>n. (v, t, n) \<in> sacked s \<longrightarrow> n \<le> m) \<and> (\<forall>k < length X. m \<le> k \<longrightarrow> entryTerm (X ! k) = t))"
  shows "ainv E (s\<lparr>sterm := (sterm s)(v := t), slog := (slog s)(v := Y), sacked := sacked s \<union> {(v, t, n) |n. n \<le> m}\<rparr>)"
    (is "ainv E ?s")
proof -
  have map: "wfMap (slead s)" by (rule ainvD(1) [OF inv])
  have g: "grows s ?s" using map v(2) by (auto simp: grows_def)
  have m: "agrees Y X m" using Y v(4) by (auto simp: agrees_take)
  have keeps: "agrees Y Z n \<or> overtaken (slead s) u n t"
    if "(v, u, n) \<in> sacked s" "slead s u = Some Z" "agrees (slog s v) Z n" for u n Z
  proof (cases "Y = slog s v")
    case False
    then have T: "Y = take m X" "\<forall>n. (v, t, n) \<in> sacked s \<longrightarrow> n \<le> m" "\<forall>k < length X. m \<le> k \<longrightarrow> entryTerm (X ! k) = t" using Y by auto
    have u: "u \<le> t" using ackedD [OF inv that(1)] v(2) by (metis order_trans)
    show ?thesis
    proof (cases "u = t")
      case True
      then have "n \<le> m" "Z = X" using T(2) that(1,2) v(3) by auto
      then show ?thesis using m agrees_mono by blast
    next
      case False
      then have "u < t" using u by simp
      then show ?thesis using take_keeps [OF map that(2) _ _ T(3)] T(1) that(2) v(3) unfolding overtaken_def by blast
    qed
  qed (use that in simp)
  have commits: "agrees Y Z k" if c: "committed E (slead s) (sacked s) u n" "k \<le> n" "slead s u = Some Z" "agrees (slog s v) Z k"
    "u < sterm s v \<or> u = sterm s v \<and> (v, u, k) \<in> sacked s" for u n Z k
  proof (cases "Y = slog s v")
    case False
    then have T: "Y = take m X" "\<forall>n. (v, t, n) \<in> sacked s \<longrightarrow> n \<le> m" "\<forall>k < length X. m \<le> k \<longrightarrow> entryTerm (X ! k) = t" using Y by auto
    show ?thesis
    proof (cases "u < t")
      case True
      then have "agrees Z X k" using leader_complete [OF inv fin c(1,3) True v(3)] agrees_mono c(2) by blast
      then show ?thesis using take_keeps [OF map c(3) True _ T(3)] T(1) by blast
    next
      case False
      then have "u = t" "(v, t, k) \<in> sacked s" using c(5) v(2) by auto
      then show ?thesis using T(2) m agrees_mono c(3) v(3) by fastforce
    qed
  qed (use c(4) in simp)
  show ?thesis
  proof (rule ainv_grows [OF inv g])
    show "wfLog (slead ?s) (slog ?s w) \<and> termsLe (slog ?s w) (sterm ?s w)" if "w \<in> E" for w
    proof (cases "w = v")
      case True
      then show ?thesis
        using Y ainvD(4) [OF inv v(1)] termsLe_mono [OF ainvD(5) [OF inv v(1)] v(2)] wfMap_D [OF map v(3)] wfLog_take termsLe_take by auto
    next
      case False
      then show ?thesis using ainvD(4,5) [OF inv that] by simp
    qed
    show "agrees (slog ?s w) Z n \<or> overtaken (slead s) u n (sterm ?s w)"
      if "(w, u, n) \<in> sacked s" "slead s u = Some Z" "agrees (slog s w) Z n" for w u n Z
      using keeps that by (cases "w = v") auto
    show "ackOk E ?s w u n" if "(w, u, n) \<in> sacked ?s" "(w, u, n) \<notin> sacked s" for w u n
      using that v m agrees_mono by (fastforce simp: ackOk_def)
    show "scommit ?s w = 0 \<or> mayCommit E ?s w (scommit ?s w)" if "w \<in> E" for w
    proof (cases "w = v")
      case True
      then show ?thesis using ainvD(8) [OF inv v(1)] mayCommit_grows [OF g, of E v] commits by auto
    next
      case False
      then show ?thesis using commit_kept [OF inv g that] by simp
    qed
  qed simp_all
qed

lemma astep_ainv:
  assumes "astep E s s'" "ainv E s" "finite E"
  shows "ainv E s'"
  using assms(1)
proof cases
  case (bump v t)
  then show ?thesis using bump_ainv [OF assms(2)] by simp
next
  case (vote v)
  then show ?thesis using vote_ainv [OF assms(2)] by simp
next
  case (win i Q)
  then show ?thesis using win_ainv [OF assms(2)] by simp
next
  case (append i e X)
  then show ?thesis using append_ainv [OF assms(2)] by simp
next
  case (accept v t X m Y)
  then show ?thesis using accept_ainv [OF assms(2,3)] by simp
next
  case (commit v k)
  then show ?thesis using commit_ainv [OF assms(2)] by simp
next
  case (restart v)
  then show ?thesis using commit_ainv [OF assms(2)] by simp
qed

lemma astep_grows:
  assumes "astep E s s'" "ainv E s" "finite E"
  shows "grows s s'"
  using assms(1)
proof cases
  case (win i Q)
  then have "termsLe (slog s i) (sterm s i)" using termsLe_mono [of "slog s i"] by simp
  then show ?thesis using win lead_new [OF ainvD(1) [OF assms(2)] win(3) ainvD(4) [OF assms(2) win(2)]] by (auto simp: grows_def)
next
  case (append i e X)
  then show ?thesis using lead_append [OF ainvD(1) [OF assms(2)] append(3,4)] by (auto simp: grows_def)
qed (use ainvD(1) [OF assms(2)] in \<open>auto simp: grows_def\<close>)


lemma grows_trans:
  assumes "grows s1 s2" "grows s2 s3"
  shows "grows s1 s3"
proof -
  have "\<exists>Z. slead s3 t = Some (Y @ Z) \<and> (\<forall>e \<in> set Z. entryTerm e = t)" if Y: "slead s1 t = Some Y" for t Y
  proof -
    obtain Z where Z: "slead s2 t = Some (Y @ Z)" "\<forall>e \<in> set Z. entryTerm e = t" using leadGrows_D [OF growsD(1) [OF assms(1)] Y] by metis
    obtain W where W: "slead s3 t = Some ((Y @ Z) @ W)" "\<forall>e \<in> set W. entryTerm e = t" using leadGrows_D [OF growsD(1) [OF assms(2)] Z(1)] by metis
    show ?thesis using W Z(2) by (intro exI [of _ "Z @ W"]) auto
  qed
  then have "leadGrows (slead s1) (slead s3)" by (simp add: leadGrows_def)
  moreover have "sterm s1 v \<le> t" if "(v, t, n) \<in> sacked s3" "(v, t, n) \<notin> sacked s1" for v t n
  proof (cases "(v, t, n) \<in> sacked s2")
    case True
    then show ?thesis using growsD(5) [OF assms(1)] that(2) by force
  next
    case False
    then have "sterm s2 v \<le> t" using growsD(5) [OF assms(2)] that(1) by force
    then show ?thesis using growsD(4) [OF assms(1), of v] by simp
  qed
  moreover have "sterm s1 v \<le> sterm s3 v" for v using growsD(4) [OF assms(1), of v] growsD(4) [OF assms(2), of v] by simp
  ultimately show ?thesis using growsD(2) [OF assms(2)] growsD(3) [OF assms(1)] growsD(3) [OF assms(2)] unfolding grows_def by blast
qed

text \<open>Any number of steps keeps the invariant and only adds to the history.\<close>

lemma asteps_ainv:
  assumes "(astep E)\<^sup>*\<^sup>* s s'" "ainv E s" "finite E"
  shows "ainv E s' \<and> grows s s'"
  using assms(1)
proof (induction rule: rtranclp_induct)
  case base
  show ?case using assms(2) ainvD(1) [OF assms(2)] by (simp add: grows_def)
next
  case (step y z)
  then show ?case using astep_ainv [OF step.hyps(2) _ assms(3)] astep_grows [OF step.hyps(2) _ assms(3)] grows_trans by blast
qed

end
