(* ===== verification/Raft_Refine.thy ===== *)
theory Raft_Refine
  imports Raft_Replication Raft_Spec
begin

text \<open>
  The cluster of \<open>Raft_Replication\<close> implements the specification of \<open>Raft_Spec\<close>: every step of a node is a sequence of
  specification steps on the abstraction \<open>absN\<close>, given what the rest of the invariant \<open>ninv\<close> says about the calls under way, the
  elections, the candidates and the leaders.
\<close>

definition absN :: "('c, 'd) Net \<Rightarrow> 'c spec" where
  "absN S = \<lparr>sterm = (\<lambda>v. currentTerm (nd S v)), slog = (\<lambda>v. log (nd S v)), scommit = (\<lambda>v. nat (commitIndex (nd S v))),
     slead = lead S, sacked = acked S, svlogs = vlogs S\<rparr>"

lemma absN_simps [simp]:
  "sterm (absN S) v = currentTerm (nd S v)" "slog (absN S) v = log (nd S v)" "scommit (absN S) v = nat (commitIndex (nd S v))"
  "slead (absN S) = lead S" "sacked (absN S) = acked S" "svlogs (absN S) = vlogs S"
  by (simp_all add: absN_def)

section \<open>What one locked section does to a node\<close>

text \<open>Nothing is compacted, and terms and indices are not negative.\<close>

definition plain :: "('c, 'd) Raft \<Rightarrow> bool" where
  "plain r \<longleftrightarrow> lastIncludedIndex r = 0 \<and> lastIncludedTerm r = 0 \<and> 0 \<le> currentTerm r \<and> 0 \<le> commitIndex r \<and> 0 \<le> lastApplied r"

text \<open>A node becomes candidate only in a new term, leader only as candidate, and only a leader extends its log by itself.\<close>

definition moves :: "('c, 'd) Raft \<Rightarrow> ('c, 'd) Raft \<Rightarrow> bool" where
  "moves r r' \<longleftrightarrow> currentTerm r \<le> currentTerm r' \<and> (plain r \<longrightarrow> plain r') \<and>
     (state r' = Candidate \<longrightarrow> log r' = log r \<and> (state r = Candidate \<and> currentTerm r' = currentTerm r \<or> currentTerm r < currentTerm r')) \<and>
     (state r' = Leader \<longrightarrow> currentTerm r' = currentTerm r \<and>
        (state r = Candidate \<and> log r' = log r \<or> state r = Leader \<and> (\<exists>es. log r' = log r @ es)))"

lemma moves_refl [simp]: "moves r r"
  by (cases "state r") (simp_all add: moves_def)

lemma moves_same:
  assumes "currentTerm r' = currentTerm r" "state r' = state r" "log r' = log r" "plain r \<Longrightarrow> plain r'"
  shows "moves r r'"
  using assms by (cases "state r") (simp_all add: moves_def)

lemma moves_down: "state r' = Follower \<Longrightarrow> currentTerm r \<le> currentTerm r' \<Longrightarrow> (plain r \<Longrightarrow> plain r') \<Longrightarrow> moves r r'"
  by (simp add: moves_def)

lemma plain_becomeFollower [simp]: "plain r \<Longrightarrow> plain (becomeFollowerLocked t r)"
  by (simp add: plain_def max_def)

lemma plain_advance [simp]: "plain r \<Longrightarrow> plain (advanceCommitIndexLocked r)"
  by (simp add: plain_def advanceCommitIndexLocked_def Let_def)

lemma moves_Propose: "moves r (snd (Propose c r))"
proof (cases "state r = Leader")
  case True
  then show ?thesis by (auto simp: moves_def Propose_def Let_def intro!: plain_advance) (simp add: plain_def)
qed (simp add: Propose_def)

lemma moves_local:
  shows "moves r (takeTimerReset r)" and "applyPendingStep r = Inr (Some r') \<Longrightarrow> moves r r'"
proof -
  show "moves r (takeTimerReset r)" by (rule moves_same) (simp_all add: takeTimerReset_def plain_def)
  show "applyPendingStep r = Inr (Some r') \<Longrightarrow> moves r r'" by (rule moves_same) (auto simp: applyPendingStep_Some plain_def)
qed

lemma electionTimeout_True:
  "electionTimeout r = (True, r') \<longleftrightarrow> state r \<noteq> Leader \<and>
     r' = persistLocked (r\<lparr>state := Candidate, currentTerm := currentTerm r + 1, votedFor := rid r\<rparr>)"
  by (auto simp: electionTimeout_def becomeCandidateLocked_def)

lemma moves_timeout: "electionTimeout r = (True, r') \<Longrightarrow> moves r r'"
  by (auto simp: electionTimeout_True moves_def plain_def)

lemma moves_RequestVote: "moves r (snd (RequestVote args r))"
proof (cases "currentTerm r < rvTerm args")
  case True
  then show ?thesis by (intro moves_down) (simp_all add: RequestVote_state plain_def)
next
  case False
  then show ?thesis by (intro moves_same) (simp_all add: RequestVote_state plain_def)
qed

lemma moves_startElection_reply: "startElection_reply reply el r = (el', r') \<Longrightarrow> moves r r'"
  by (auto simp: startElection_reply_def becomeLeaderLocked_def Let_def plain_def moves_def split: if_splits)

lemma moves_AppendEntries:
  assumes "AppendEntries args r = Inr (rep, r')"
  shows "moves r r'"
proof (cases "aeTerm args < currentTerm r")
  case True
  then show ?thesis using assms by (simp add: AppendEntries_def)
next
  case False
  then show ?thesis using AppendEntries_frame [OF assms] assms
    by (intro moves_down) (auto simp: plain_def AppendEntries_Inr aeAppend_Inr commitIndex_aeCommit fst_lastLogInfoLocked)
qed

lemma moves_replicateToPeer_reply: "moves r (replicateToPeer_reply p args rep r)"
proof (cases "currentTerm r < aerTerm rep")
  case True
  then show ?thesis by (intro moves_down) (simp_all add: replicateToPeer_reply_def)
next
  case False
  then show ?thesis
    by (intro moves_same) (auto simp: replicateToPeer_reply_def Let_def intro!: plain_advance, simp_all add: plain_def)
qed

lemma restart_plain:
  assumes "nodeOK E ps i r" "persister r = Some p" "r' = NewRaftWithPersister i (peers r) p"
  shows "log r' = log r" "currentTerm r' = currentTerm r" "lastIncludedIndex r' = lastIncludedIndex r"
    "lastIncludedTerm r' = lastIncludedTerm r" "state r' = Follower" "lastIncludedIndex r = 0 \<Longrightarrow> commitIndex r' = 0"
    "lastIncludedIndex r = 0 \<Longrightarrow> lastApplied r' = 0"
proof -
  have "rid r = i" using assms(1) by (simp add: nodeOK_def)
  then have enc: "encodeStateLocked r' = encodeStateLocked r" using assms by (auto simp: nodeOK_def durable_def)
  then show same: "log r' = log r" "currentTerm r' = currentTerm r" "lastIncludedIndex r' = lastIncludedIndex r"
    "lastIncludedTerm r' = lastIncludedTerm r" by (simp_all add: encodeStateLocked_def)
  show "state r' = Follower" unfolding assms(3) by (rule state_restart)
  show "lastIncludedIndex r = 0 \<Longrightarrow> commitIndex r' = 0" "lastIncludedIndex r = 0 \<Longrightarrow> lastApplied r' = 0"
    using same(3) unfolding assms(3)
    by (auto simp: NewRaftWithPersister_def newRaft_def restoreLocked_def Let_def split: option.splits if_splits)
qed

lemma moves_restart:
  assumes "nodeOK E ps i r" "persister r = Some p"
  shows "moves r (NewRaftWithPersister i (peers r) p)"
  using restart_plain [OF assms refl] by (intro moves_down) (simp_all add: plain_def)


section \<open>The invariant\<close>

definition leadersOk :: "int set \<Rightarrow> ('c, 'd) Net \<Rightarrow> bool" where
  "leadersOk E S \<longleftrightarrow> (\<forall>t i. (t, i) \<in> leaders (cl S) \<longrightarrow> i \<in> E \<and> t \<le> currentTerm (nd S i)) \<and>
     (\<forall>t. lead S t \<noteq> None \<longleftrightarrow> (\<exists>i. (t, i) \<in> leaders (cl S)))"

definition candOk :: "('c, 'd) Net \<Rightarrow> int \<Rightarrow> bool" where
  "candOk S i \<longleftrightarrow> (let r = nd S i in state r = Candidate \<longrightarrow>
     termsLe (log r) (currentTerm r - 1) \<and> (currentTerm r, i) \<notin> leaders (cl S) \<and> (i, currentTerm r, log r) \<in> vlogs S)"

text \<open>A leader's view of its followers: what it recorded as matched has been acknowledged to it.\<close>

definition viewOk :: "(int \<times> int \<times> nat) set \<Rightarrow> ('c, 'd) Raft \<Rightarrow> bool" where
  "viewOk A r \<longleftrightarrow> (\<forall>p \<in> set (peers r). (\<forall>n. 1 \<le> n \<longrightarrow> int n \<le> get0 (matchIndex r) p \<longrightarrow> (p, currentTerm r, n) \<in> A) \<and>
     1 \<le> get0 (nextIndex r) p \<and> get0 (nextIndex r) p \<le> int (length (log r)) + 1)"

definition leaderOk :: "('c, 'd) Net \<Rightarrow> int \<Rightarrow> bool" where
  "leaderOk S i \<longleftrightarrow> (let r = nd S i in state r = Leader \<longrightarrow>
     lead S (currentTerm r) = Some (log r) \<and> (\<forall>n \<le> length (log r). (i, currentTerm r, n) \<in> acked S) \<and> viewOk (acked S) r)"

definition voterOk :: "(int \<times> int \<times> 'c log) set \<Rightarrow> RequestVoteArgs \<Rightarrow> int \<Rightarrow> bool" where
  "voterOk V args p \<longleftrightarrow> (\<exists>X. (p, rvTerm args, X) \<in> V \<and> upToDate (nat (rvLastLogIndex args)) (rvLastLogTerm args) X)"

definition runInv :: "('c, 'd) Net \<Rightarrow> Run \<Rightarrow> bool" where
  "runInv S run \<longleftrightarrow> (let args = elArgs (runEl run); r = nd S (runNode run) in
     rvTerm args \<le> currentTerm r \<and> 0 \<le> rvLastLogIndex args \<and>
     (state r = Candidate \<longrightarrow> currentTerm r = rvTerm args \<longrightarrow>
        rvLastLogIndex args = int (length (log r)) \<and> rvLastLogTerm args = lastTermOf (log r)) \<and>
     (\<forall>p \<in> set (elPeers (runEl run)). runCalls run p = Counted \<or> (\<exists>reply. runCalls run p = Replied reply \<and> rvrVoteGranted reply) \<longrightarrow>
        voterOk (vlogs S) args p))"

text \<open>A call under way carries a piece of the log of the leader of its term, up to the end the log had when it was sent.\<close>

definition slice :: "'c log \<Rightarrow> 'c AppendEntriesArgs \<Rightarrow> bool" where
  "slice X args \<longleftrightarrow> 0 \<le> aePrevLogIndex args \<and> nat (aeEnd args) \<le> length X \<and>
     aeEntries args = take (length (aeEntries args)) (drop (nat (aePrevLogIndex args)) X) \<and>
     (0 < aePrevLogIndex args \<longrightarrow> aePrevLogTerm args = entryTerm (X ! (nat (aePrevLogIndex args) - 1))) \<and>
     (\<forall>k < length X. nat (aeEnd args) \<le> k \<longrightarrow> entryTerm (X ! k) = aeTerm args)"

definition commitOk :: "int set \<Rightarrow> ('c, 'd) Net \<Rightarrow> 'c AppendEntriesArgs \<Rightarrow> 'c log \<Rightarrow> bool" where
  "commitOk E S args X \<longleftrightarrow> aeLeaderCommit args \<le> aeEnd args \<and> (aeLeaderCommit args \<le> 0 \<or>
     (\<exists>t n Y. committed E (lead S) (acked S) t n \<and> nat (aeLeaderCommit args) \<le> n \<and> t \<le> aeTerm args \<and> lead S t = Some Y \<and>
        agrees X Y (nat (aeLeaderCommit args))))"

definition callOk :: "int set \<Rightarrow> ('c, 'd) Net \<Rightarrow> int \<Rightarrow> int \<Rightarrow> bool" where
  "callOk E S i p \<longleftrightarrow> (case calls S i p of NoCall \<Rightarrow> True
     | Sent args \<Rightarrow> (\<exists>X. lead S (aeTerm args) = Some X \<and> slice X args \<and> commitOk E S args X) \<and>
         (aeTerm args, i) \<in> leaders (cl S) \<and> (\<forall>n. (p, aeTerm args, n) \<in> acked S \<longrightarrow> n \<le> nat (aeEnd args))
     | Answered args rep \<Rightarrow> 0 \<le> aeEnd args \<and>
         (aerSuccess rep \<longrightarrow> (\<forall>n \<le> nat (aeEnd args). (p, aeTerm args, n) \<in> acked S)))"

text \<open>A delivered message is an entry that is committed.\<close>

definition deliveredOk :: "int set \<Rightarrow> ('c, 'd) Net \<Rightarrow> ('c, 'd) ApplyMsg \<Rightarrow> bool" where
  "deliveredOk E S m \<longleftrightarrow> (\<exists>k t n X. committed E (lead S) (acked S) t n \<and> k < n \<and> lead S t = Some X \<and>
     m = CommandMsg (int k + 1) (entryTerm (X ! k)) (entryCommand (X ! k)))"

definition ninv :: "int set \<Rightarrow> (int \<Rightarrow> int list) \<Rightarrow> ('c, 'd) Net \<Rightarrow> bool" where
  "ninv E ps S \<longleftrightarrow> cinv E ps (cl S) \<and> callsIn E S \<and> (\<forall>i \<in> E. plain (nd S i) \<and> candOk S i \<and> leaderOk S i) \<and> leadersOk E S \<and>
     (\<forall>run \<in> set (elections (cl S)). runInv S run) \<and> (\<forall>i p. callOk E S i p) \<and>
     (\<forall>i m. (i, m) \<in> applied S \<longrightarrow> deliveredOk E S m) \<and> ainv E (absN S)"

lemma ninvD:
  assumes "ninv E ps S"
  shows "cinv E ps (cl S)" "callsIn E S" "i \<in> E \<Longrightarrow> plain (nd S i)" "i \<in> E \<Longrightarrow> candOk S i" "i \<in> E \<Longrightarrow> leaderOk S i" "leadersOk E S"
    "run \<in> set (elections (cl S)) \<Longrightarrow> runInv S run" "callOk E S i p" "(i, m) \<in> applied S \<Longrightarrow> deliveredOk E S m" "ainv E (absN S)"
  using assms unfolding ninv_def by blast+

lemma ninv_peers:
  assumes "ninv E ps S" "peersOK E ps" "i \<in> E"
  shows "peers (nd S i) = ps i" "distinct (peers (nd S i))" "set (peers (nd S i)) = E - {i}" "rid (nd S i) = i"
  using ninvD(1) [OF assms(1)] assms(2,3) by (simp_all add: cinv_def nodeOK_def peersOK_def)

section \<open>The steps of one node on the abstraction\<close>

lemma absN_putNode:
  "absN (putNode i r S) = \<lparr>sterm = (sterm (absN S))(i := currentTerm r), slog = (slog (absN S))(i := log r),
     scommit = (scommit (absN S))(i := nat (commitIndex r)), slead = lead (putNode i r S), sacked = acked (putNode i r S),
     svlogs = vlogs S\<rparr>"
  by (simp add: absN_def fun_eq_iff)

lemma putNode_lead:
  "lead (putNode i r S) = (if state r = Leader then (lead S)(currentTerm r \<mapsto> log r) else lead S)"
  "acked (putNode i r S) = acked S \<union> (if state r = Leader then {(i, currentTerm r, n) |n. n \<le> length (log r)} else {})"
  by (simp_all add: putNode_def)

lemma spec_eqI:
  fixes s s' :: "'c spec"
  assumes "sterm s = sterm s'" "slog s = slog s'" "scommit s = scommit s'" "slead s = slead s'" "sacked s = sacked s'" "svlogs s = svlogs s'"
  shows "s = s'"
  using assms by (intro spec.equality) simp_all

text \<open>A section that leaves role, term, log and commit index alone.\<close>

lemma sim_quiet:
  assumes "leaderOk S i" "state r = state (nd S i)" "currentTerm r = currentTerm (nd S i)" "log r = log (nd S i)"
    "commitIndex r = commitIndex (nd S i)"
  shows "absN (putNode i r S) = absN S"
  using assms by (intro spec_eqI) (auto simp: absN_def putNode_lead leaderOk_def Let_def fun_eq_iff)

lemma sim_bump:
  assumes "i \<in> E" "state r \<noteq> Leader" "currentTerm (nd S i) \<le> currentTerm r" "log r = log (nd S i)" "commitIndex r = commitIndex (nd S i)"
  shows "astep E (absN S) (absN (putNode i r S))"
proof -
  have "absN (putNode i r S) = (absN S)\<lparr>sterm := (sterm (absN S))(i := currentTerm r)\<rparr>"
    using assms by (intro spec_eqI) (auto simp: absN_def putNode_lead fun_eq_iff)
  then show ?thesis using astep.bump [of i E "absN S" "currentTerm r"] assms by simp
qed

text \<open>The commit rule moves the commit index to a committed entry.\<close>

lemma committable_mayCommit:
  assumes r: "plain r" "committable n r" "distinct (peers r)" "set (peers r) = E - {i}" and i: "i \<in> E" "finite E"
    and s: "sterm s i = currentTerm r" "slog s i = log r" "slead s (currentTerm r) = Some (log r)"
      "\<forall>n \<le> length (log r). (i, currentTerm r, n) \<in> sacked s" "viewOk (sacked s) r"
  shows "mayCommit E s i (nat n)"
proof -
  let ?P = "{p \<in> set (peers r). n \<le> get0 (matchIndex r) p}"
  have n: "1 \<le> n" "n \<le> int (length (log r))" "entryTerm (log r ! (nat n - 1)) = currentTerm r"
    using r(1,2) by (auto simp: committable_def plain_def fst_lastLogInfoLocked termAtLocked_log nat_diff_distrib)
  have "i \<notin> ?P" "finite ?P" using r(4) i(2) by auto
  then have "card (insert i ?P) = stored_by n r"
    using r(3) distinct_card [of "filter (\<lambda>p. n \<le> get0 (matchIndex r) p) (peers r)"] by (simp add: stored_by_def)
  moreover have "card E = length (peers r) + 1"
    using distinct_card [OF r(3)] r(4) card_Suc_Diff1 [OF i(2,1)] by simp
  ultimately have "card E < 2 * card (insert i ?P)" using r(2) by (simp add: committable_def)
  then have "card E div 2 < card (insert i ?P)" by arith
  moreover have "insert i ?P \<subseteq> E" using r(4) i(1) by auto
  ultimately have maj: "majority E (insert i ?P)" by (simp add: majority_def)
  have "(p, currentTerm r, nat n) \<in> sacked s" if "p \<in> insert i ?P" for p
    using that s(4,5) n by (auto simp: viewOk_def)
  then have "committed E (slead s) (sacked s) (currentTerm r) (nat n)"
    using maj s(3) n unfolding committed_def by fastforce
  moreover have "agrees (slog s i) (log r) (nat n)" using s(2) n by simp
  moreover have "(i, currentTerm r, nat n) \<in> sacked s" using s(4) n by simp
  ultimately show ?thesis using s(1,3) unfolding mayCommit_def by (metis order_refl)
qed


lemma sim_advance:
  assumes i: "i \<in> E" "finite E" and r: "plain r" "state r = Leader" "distinct (peers r)" "set (peers r) = E - {i}"
    and view: "viewOk (acked (putNode i r S)) r"
  shows "(astep E)\<^sup>*\<^sup>* (absN (putNode i r S)) (absN (putNode i (advanceCommitIndexLocked r) S))"
proof (cases "commitIndex (advanceCommitIndexLocked r) = commitIndex r")
  case True
  then have "absN (putNode i (advanceCommitIndexLocked r) S) = absN (putNode i r S)"
    by (simp add: absN_putNode putNode_lead)
  then show ?thesis by simp
next
  case False
  let ?k = "commitIndex (advanceCommitIndexLocked r)" and ?s = "absN (putNode i r S)"
  have "mayCommit E ?s i (nat ?k)"
    using advance_sound [of r] False r i view by (intro committable_mayCommit [where r = r]) (simp_all add: putNode_lead)
  then have "astep E ?s (?s\<lparr>scommit := (scommit ?s)(i := nat ?k)\<rparr>)" by (intro astep.commit i)
  moreover have "absN (putNode i (advanceCommitIndexLocked r) S) = ?s\<lparr>scommit := (scommit ?s)(i := nat ?k)\<rparr>"
    by (intro spec_eqI) (auto simp: absN_def putNode_lead fun_eq_iff)
  ultimately show ?thesis by simp
qed

lemma viewOk_mono: "viewOk A r \<Longrightarrow> A \<subseteq> B \<Longrightarrow> viewOk B r"
  unfolding viewOk_def by blast

lemma viewOk_cong:
  assumes "peers r' = peers r" "matchIndex r' = matchIndex r" "nextIndex r' = nextIndex r" "currentTerm r' = currentTerm r"
    "length (log r) \<le> length (log r')"
  shows "viewOk A r \<Longrightarrow> viewOk A r'"
  using assms(5) unfolding viewOk_def assms(1-4) by force

lemma Propose_leader:
  assumes "state r = Leader"
  shows "snd (Propose c r) = advanceCommitIndexLocked (persistLocked (r\<lparr>log := log r @ [\<lparr>entryTerm = currentTerm r, entryCommand = c\<rparr>]\<rparr>))"
  using assms by (simp add: Propose_def Let_def)

lemma sim_propose:
  assumes inv: "ninv E ps S" and OK: "peersOK E ps" and i: "i \<in> E"
  shows "(astep E)\<^sup>*\<^sup>* (absN S) (absN (putNode i (snd (Propose c (nd S i))) S))"
proof (cases "state (nd S i) = Leader")
  case False
  then have "absN (putNode i (snd (Propose c (nd S i))) S) = absN S"
    using sim_quiet [OF ninvD(5) [OF inv i]] by (simp add: Propose_def)
  then show ?thesis by simp
next
  case True
  let ?r = "nd S i" and ?e = "\<lparr>entryTerm = currentTerm (nd S i), entryCommand = c\<rparr>"
  let ?r2 = "persistLocked (?r\<lparr>log := log ?r @ [?e]\<rparr>)"
  have L: "lead S (currentTerm ?r) = Some (log ?r)" "viewOk (acked S) ?r"
    using ninvD(5) [OF inv i] True by (simp_all add: leaderOk_def Let_def)
  have "astep E (absN S) (absN (putNode i ?r2 S))"
  proof -
    have "absN (putNode i ?r2 S) = (absN S)\<lparr>slog := (slog (absN S))(i := log ?r @ [?e]),
        slead := (slead (absN S))(currentTerm ?r \<mapsto> log ?r @ [?e]),
        sacked := sacked (absN S) \<union> {(i, currentTerm ?r, n) |n. n \<le> length (log ?r @ [?e])}\<rparr>"
      using True by (intro spec_eqI) (auto simp: absN_def putNode_lead fun_eq_iff)
    then show ?thesis using astep.append [of i E "absN S" ?e "log ?r @ [?e]"] i L(1) by simp
  qed
  moreover have "(astep E)\<^sup>*\<^sup>* (absN (putNode i ?r2 S)) (absN (putNode i (advanceCommitIndexLocked ?r2) S))"
  proof (rule sim_advance [OF i])
    show "finite E" using OK by (simp add: peersOK_def)
    show "plain ?r2" using ninvD(3) [OF inv i] by (simp add: plain_def)
    have "viewOk (acked S) ?r2" using L(2) by (rule viewOk_cong [rotated -1]) simp_all
    then show "viewOk (acked (putNode i ?r2 S)) ?r2" by (rule viewOk_mono) (simp add: putNode_lead)
  qed (use True ninv_peers [OF inv OK i] in simp_all)
  ultimately show ?thesis unfolding Propose_leader [OF True] by simp
qed

lemma sim_vote:
  assumes "i \<in> E" "(astep E)\<^sup>*\<^sup>* (absN S) (absN S1)" "nd S' = nd S1" "lead S' = lead S1" "acked S' = acked S1"
    "vlogs S' = insert (i, currentTerm (nd S1 i), log (nd S1 i)) (vlogs S1)"
  shows "(astep E)\<^sup>*\<^sup>* (absN S) (absN S')"
proof -
  have "absN S' = (absN S1)\<lparr>svlogs := insert (i, sterm (absN S1) i, slog (absN S1) i) (svlogs (absN S1))\<rparr>"
    using assms by (intro spec_eqI) (auto simp: absN_def)
  then show ?thesis using astep.vote [OF assms(1), of "absN S1"] assms(2) by simp
qed


lemma absN_cong:
  assumes "nd S' = nd S" "lead S' = lead S" "acked S' = acked S" "vlogs S' = vlogs S"
  shows "absN S' = absN S"
  using assms by (simp add: absN_def)

lemma sim_timeout:
  assumes inv: "ninv E ps S" and i: "i \<in> E" "electionTimeout (nd S i) = (True, r')" and S': "nd S' = (nd S)(i := r')"
    "lead S' = lead S" "acked S' = acked S" "vlogs S' = insert (i, currentTerm r', log r') (vlogs S)"
  shows "(astep E)\<^sup>*\<^sup>* (absN S) (absN S')"
proof (rule sim_vote [OF i(1)])
  show "(astep E)\<^sup>*\<^sup>* (absN S) (absN (putNode i r' S))"
    using i by (intro r_into_rtranclp sim_bump) (auto simp: electionTimeout_True)
qed (use i(2) S' in \<open>auto simp: electionTimeout_True putNode_lead\<close>)

lemma sim_requested:
  assumes inv: "ninv E ps S" and p: "p \<in> E"
  shows "(astep E)\<^sup>*\<^sup>* (absN S) (absN (putNode p (snd (RequestVote args (nd S p))) S))"
proof (cases "currentTerm (nd S p) < rvTerm args")
  case True
  then show ?thesis using p by (intro r_into_rtranclp sim_bump) (simp_all add: RequestVote_state)
next
  case False
  then have "absN (putNode p (snd (RequestVote args (nd S p))) S) = absN S"
    by (intro sim_quiet ninvD(5) [OF inv p]) (simp_all add: RequestVote_state)
  then show ?thesis by simp
qed

lemma sim_request:
  assumes inv: "ninv E ps S" and p: "p \<in> E" "RequestVote args (nd S p) = (rep, r')" and S': "nd S' = (nd S)(p := r')"
    "lead S' = lead (putNode p r' S)" "acked S' = acked (putNode p r' S)"
    "vlogs S' = (if rvrVoteGranted rep then insert (p, rvTerm args, log (nd S p)) (vlogs S) else vlogs S)"
  shows "(astep E)\<^sup>*\<^sup>* (absN S) (absN S')"
proof -
  have r': "r' = snd (RequestVote args (nd S p))" "rep = fst (RequestVote args (nd S p))" using p(2) by auto
  have sim: "(astep E)\<^sup>*\<^sup>* (absN S) (absN (putNode p r' S))" unfolding r'(1) by (rule sim_requested [OF inv p(1)])
  show ?thesis
  proof (cases "rvrVoteGranted rep")
    case True
    then have "currentTerm (nd S p) \<le> rvTerm args" using RequestVote_granted_iff r'(2) by (metis grantsVote_def)
    then have "currentTerm r' = rvTerm args" "log r' = log (nd S p)" using r'(1) by (simp_all add: max_def)
    then show ?thesis using True S' by (intro sim_vote [OF p(1) sim]) simp_all
  next
    case False
    then have "absN S' = absN (putNode p r' S)" using S' by (intro absN_cong) simp_all
    then show ?thesis using sim by simp
  qed
qed

lemma sim_crash:
  assumes inv: "ninv E ps S" and i: "i \<in> E" "persister (nd S i) = Some p" and S': "nd S' = (nd S)(i := NewRaftWithPersister i (peers (nd S i)) p)"
    "lead S' = lead S" "acked S' = acked S" "vlogs S' = vlogs S"
  shows "(astep E)\<^sup>*\<^sup>* (absN S) (absN S')"
proof -
  have OK: "nodeOK E ps i (nd S i)" using ninvD(1) [OF inv] i(1) by (simp add: cinv_def)
  have "lastIncludedIndex (nd S i) = 0" using ninvD(3) [OF inv i(1)] by (simp add: plain_def)
  then have "absN S' = (absN S)\<lparr>scommit := (scommit (absN S))(i := 0)\<rparr>"
    using restart_plain [OF OK i(2) refl] S' by (intro spec_eqI) (auto simp: absN_def fun_eq_iff)
  then show ?thesis using astep.restart [OF i(1), of "absN S"] by simp
qed

section \<open>Winning an election\<close>

lemma leader_fresh:
  assumes inv: "ninv E ps S" and c: "cinv E ps c" "finite E" "leaders (cl S) \<subseteq> leaders c" "(t, i) \<in> leaders c"
    and "(t, i) \<notin> leaders (cl S)"
  shows "lead S t = None"
proof (rule ccontr)
  assume "lead S t \<noteq> None"
  then obtain j where j: "(t, j) \<in> leaders (cl S)" using ninvD(6) [OF inv] by (auto simp: leadersOk_def)
  then have "j = i" using elected_unique [OF c(1,2)] c(1,3,4) unfolding cinv_def by blast
  then show False using j assms(6) by simp
qed

lemma startElection_reply_shape:
  assumes "startElection_reply reply el r = (el', r')"
  obtains (steps_down) "el' = el" "r' = becomeFollowerLocked (rvrTerm reply) r" "currentTerm r < rvrTerm reply"
  | (ignored) "r' = r" "el' = el"
  | (counted) "r' = r" "el' = el\<lparr>elVotes := elVotes el + 1\<rparr>" "rvrVoteGranted reply"
  | (wins) "el' = el\<lparr>elVotes := elVotes el + 1\<rparr>" "rvrVoteGranted reply" "state r = Candidate" "currentTerm r = rvTerm (elArgs el)"
      "elMajority el \<le> elVotes el + 1"
      "r' = r\<lparr>state := Leader, nextIndex := map_of (map (\<lambda>p. (p, fst (lastLogInfoLocked r) + 1)) (peers r)),
         matchIndex := map_of (map (\<lambda>p. (p, 0)) (peers r))\<rparr>"
proof -
  consider "rvrTerm reply > currentTerm r" | "\<not> rvrTerm reply > currentTerm r" "state r \<noteq> Candidate \<or> currentTerm r \<noteq> rvTerm (elArgs el) \<or> \<not> rvrVoteGranted reply"
    | "\<not> rvrTerm reply > currentTerm r" "state r = Candidate" "currentTerm r = rvTerm (elArgs el)" "rvrVoteGranted reply" "elVotes el + 1 < elMajority el"
    | "\<not> rvrTerm reply > currentTerm r" "state r = Candidate" "currentTerm r = rvTerm (elArgs el)" "rvrVoteGranted reply" "elMajority el \<le> elVotes el + 1"
    by linarith
  then show ?thesis
  proof cases
    case 1
    then show ?thesis using assms by (intro steps_down) (simp_all add: startElection_reply_def)
  next
    case 2
    then show ?thesis using assms by (intro ignored) (auto simp: startElection_reply_def split: if_splits)
  next
    case 3
    then show ?thesis using assms by (intro counted) (auto simp: startElection_reply_def elMajority_def)
  next
    case 4
    obtain r1 where r1: "becomeLeaderLocked r = Inr r1" using 4(2) by (auto simp: becomeLeaderLocked_def Let_def)
    then have "r' = r1" "el' = el\<lparr>elVotes := elVotes el + 1\<rparr>" using 4 assms by (auto simp: startElection_reply_def elMajority_def)
    then show ?thesis using r1 4 by (intro wins) (simp_all add: becomeLeaderLocked_Inr)
  qed
qed


text \<open>The candidate and the voters it has counted are a majority when it wins.\<close>

lemma counted_majority:
  assumes run: "runOK E ps c run" and OK: "peersOK E ps" and p: "p \<in> set (elPeers (runEl run))" "runCalls run p = Replied reply"
    and won: "elMajority (runEl run) \<le> elVotes (runEl run) + 1"
  shows "majority E (insert (runNode run) (insert p {q \<in> set (elPeers (runEl run)). runCalls run q = Counted}))"
proof -
  let ?i = "runNode run" and ?C = "{q \<in> set (elPeers (runEl run)). runCalls run q = Counted}"
  have i: "?i \<in> E" and peers: "elPeers (runEl run) = ps ?i" and votes: "elVotes (runEl run) = 1 + card ?C"
    using run unfolding runOK_def Let_def by (blast, blast, blast)
  have E: "set (elPeers (runEl run)) = E - {?i}" "length (elPeers (runEl run)) + 1 = card E"
    using i OK peersOK_length [OF OK i] unfolding peers peersOK_def by (blast, simp)
  have C: "finite ?C" "p \<notin> ?C" by (simp_all add: p(2))
  have "?i \<notin> insert p ?C" using E(1) p(1) by blast
  have "card (insert ?i (insert p ?C)) = elVotes (runEl run) + 1"
    unfolding card_insert_disjoint [OF finite.insertI [OF C(1)] \<open>?i \<notin> insert p ?C\<close>] card_insert_disjoint [OF C] votes by simp
  then have "card E div 2 < card (insert ?i (insert p ?C))" using won E(2) by (simp add: elMajority_def)
  moreover have "insert ?i (insert p ?C) \<subseteq> E" using E(1) p(1) i by blast
  ultimately show ?thesis by (simp add: majority_def)
qed

lemma sim_wins:
  assumes inv: "ninv E ps S" and OK: "peersOK E ps" and run: "run \<in> set (elections (cl S))" "i = runNode run"
    and p: "p \<in> set (elPeers (runEl run))" "runCalls run p = Replied reply" "rvrVoteGranted reply"
    and cand: "state (nd S i) = Candidate" "currentTerm (nd S i) = rvTerm (elArgs (runEl run))"
    and won: "elMajority (runEl run) \<le> elVotes (runEl run) + 1" and fresh: "lead S (currentTerm (nd S i)) = None"
    and r': "state r' = Leader" "currentTerm r' = currentTerm (nd S i)" "log r' = log (nd S i)" "commitIndex r' = commitIndex (nd S i)"
  shows "astep E (absN S) (absN (putNode i r' S))"
proof -
  let ?r = "nd S i" and ?args = "elArgs (runEl run)"
  let ?Q = "insert i (insert p {q \<in> set (elPeers (runEl run)). runCalls run q = Counted})"
  have ok: "runOK E ps (cl S) run" using ninvD(1) [OF inv] run(1) by (simp add: cinv_def)
  then have i: "i \<in> E" using run(2) by (simp add: runOK_def Let_def)
  have maj: "majority E ?Q" using counted_majority [OF ok OK p(1,2) won] run(2) by simp
  have rv: "rvLastLogIndex ?args = int (length (log ?r))" "rvLastLogTerm ?args = lastTermOf (log ?r)"
    using ninvD(7) [OF inv run(1)] cand run(2) by (simp_all add: runInv_def Let_def)
  have c: "termsLe (log ?r) (currentTerm ?r - 1)" "(i, currentTerm ?r, log ?r) \<in> vlogs S"
    using ninvD(4) [OF inv i] cand(1) by (simp_all add: candOk_def Let_def)
  have "\<exists>V. (v, currentTerm ?r, V) \<in> vlogs S \<and> upToDate (length (log ?r)) (lastTermOf (log ?r)) V" if "v \<in> ?Q" for v
  proof (cases "v = i")
    case True
    then show ?thesis using c(2) by (auto simp: upToDate_def)
  next
    case False
    then have "voterOk (vlogs S) ?args v" using that ninvD(7) [OF inv run(1)] p by (auto simp: runInv_def Let_def)
    then show ?thesis using rv cand(2) by (simp add: voterOk_def)
  qed
  moreover have "absN (putNode i r' S) = (absN S)\<lparr>slead := (slead (absN S))(currentTerm ?r \<mapsto> log ?r),
      sacked := sacked (absN S) \<union> {(i, currentTerm ?r, n) |n. n \<le> length (log ?r)}\<rparr>"
    using r' by (intro spec_eqI) (auto simp: absN_def putNode_lead fun_eq_iff)
  moreover have "0 \<le> currentTerm ?r" using ninvD(3) [OF inv i] by (simp add: plain_def)
  ultimately show ?thesis using astep.win [of i E "absN S" ?Q] i fresh c(1) maj by simp
qed

lemma sim_reply:
  assumes inv: "ninv E ps S" and OK: "peersOK E ps" and run: "run \<in> set (elections (cl S))" "i = runNode run"
    and p: "p \<in> set (elPeers (runEl run))" "runCalls run p = Replied reply"
    and r': "startElection_reply reply (runEl run) (nd S i) = (el', r')" and c: "cinv E ps c" "leaders c = leaders (setNode i r' (cl S))"
  shows "(astep E)\<^sup>*\<^sup>* (absN S) (absN (putNode i r' S))"
proof -
  have ok: "runOK E ps (cl S) run" using ninvD(1) [OF inv] run(1) by (simp add: cinv_def)
  then have i: "i \<in> E" using run(2) by (simp add: runOK_def Let_def)
  have quiet: "absN (putNode i (nd S i) S) = absN S" using sim_quiet [OF ninvD(5) [OF inv i]] by simp
  show ?thesis using r'
  proof (cases rule: startElection_reply_shape)
    case steps_down
    then show ?thesis using i by (intro r_into_rtranclp sim_bump) simp_all
  next
    case wins
    have "(currentTerm (nd S i), i) \<notin> leaders (cl S)" using ninvD(4) [OF inv i] wins(3) by (simp add: candOk_def Let_def)
    then have "lead S (currentTerm (nd S i)) = None"
      by (rule leader_fresh [OF inv c(1), rotated -1]) (use OK c(2) wins(6) in \<open>auto simp: peersOK_def setNode_def\<close>)
    then show ?thesis using wins by (intro r_into_rtranclp sim_wins [OF inv OK run p]) simp_all
  qed (use quiet in simp_all)
qed


section \<open>Handling and finishing a replication call\<close>

lemma callOk_Sent:
  assumes "callOk E S i p" "calls S i p = Sent args"
  obtains X where "lead S (aeTerm args) = Some X" "slice X args" "commitOk E S args X" "(aeTerm args, i) \<in> leaders (cl S)"
    "\<forall>n. (p, aeTerm args, n) \<in> acked S \<longrightarrow> n \<le> nat (aeEnd args)"
  using assms by (auto simp: callOk_def)

lemma callOk_Answered:
  assumes "callOk E S i p" "calls S i p = Answered args rep"
  shows "0 \<le> aeEnd args" "aerSuccess rep \<Longrightarrow> n \<le> nat (aeEnd args) \<Longrightarrow> (p, aeTerm args, n) \<in> acked S"
  using assms by (simp_all add: callOk_def)

lemma consistent_agrees:
  assumes "aeConsistent args r" "plain r" "slice X args" "wfLog L (log r)" "wfLog L X"
  shows "agrees (log r) X (nat (aePrevLogIndex args))"
proof (cases "aePrevLogIndex args = 0")
  case False
  let ?k = "nat (aePrevLogIndex args) - 1"
  have pos: "0 < aePrevLogIndex args" using False assms(3) by (simp add: slice_def)
  have k: "?k < length (log r)" "aePrevLogTerm args = entryTerm (log r ! ?k)"
    using aeConsistent_bounds [OF assms(1) pos] assms(2) pos
    by (auto simp: plain_def fst_lastLogInfoLocked termAtLocked_log nat_diff_distrib)
  have X: "?k < length X" "aePrevLogTerm args = entryTerm (X ! ?k)" using assms(3) pos by (auto simp: slice_def aeEnd_def nat_add_distrib)
  have "agrees (log r) X (Suc ?k)" using log_matching [OF assms(4,5) k(1) X(1)] k(2) X(2) by simp
  then show ?thesis using pos by simp
qed simp

text \<open>The log of a follower that accepts a call: its own if the call is a heartbeat, the leader's up to the end of the call otherwise.\<close>

lemma accepted_log:
  assumes "aeAppend args r = Inr r2" "aeConsistent args r" "plain r" "slice X args" "wfLog L (log r)" "wfLog L X"
  shows "agrees (log r2) X (nat (aeEnd args)) \<and> (log r2 = log r \<or> log r2 = take (nat (aeEnd args)) X)"
proof -
  let ?k = "nat (aePrevLogIndex args)"
  have pre: "agrees (log r) X ?k" by (rule consistent_agrees [OF assms(2-6)])
  have sl: "0 \<le> aePrevLogIndex args" "nat (aeEnd args) \<le> length X" "aeEntries args = take (length (aeEntries args)) (drop ?k X)"
    using assms(4) unfolding slice_def by (blast, blast, blast)
  have e: "nat (aeEnd args) = ?k + length (aeEntries args)" using sl(1) by (simp add: aeEnd_def nat_add_distrib)
  show ?thesis
  proof (cases "aeEntries args = []")
    case True
    then show ?thesis using assms(1) pre e by (simp add: aeAppend_Inr)
  next
    case False
    have "log r2 = take ?k (log r) @ aeEntries args" using assms(1,3) False by (simp add: aeAppend_Inr plain_def)
    also have "\<dots> = take ?k X @ take (length (aeEntries args)) (drop ?k X)" using pre sl(3) by (simp add: agrees_def)
    also have "\<dots> = take (nat (aeEnd args)) X" unfolding e by (simp add: take_add)
    finally show ?thesis using sl(2) by (simp add: agrees_take)
  qed
qed

lemma committed_acks: "committed E L A t n \<Longrightarrow> A \<subseteq> B \<Longrightarrow> committed E L B t n"
  unfolding committed_def by blast

lemma sim_accept:
  assumes inv: "ninv E ps S" and call: "calls S i p = Sent args"
    and app: "currentTerm (nd S p) \<le> aeTerm args" "aeConsistent args (nd S p)" "aeAppend args (becomeFollowerLocked (aeTerm args) (nd S p)) = Inr r2"
    and S': "nd S' = (nd S)(p := r')" "lead S' = lead S" "vlogs S' = vlogs S"
      "acked S' = acked S \<union> {(p, aeTerm args, n) |n. int n \<le> aeEnd args}"
      "log r' = log r2" "currentTerm r' = aeTerm args" "commitIndex r' = commitIndex (aeCommit args r2)"
  shows "(astep E)\<^sup>*\<^sup>* (absN S) (absN S')"
proof -
  let ?r = "nd S p" and ?t = "aeTerm args" and ?m = "nat (aeEnd args)"
  obtain X where X: "lead S ?t = Some X" "slice X args" "commitOk E S args X"
    and acks: "\<forall>n. (p, ?t, n) \<in> acked S \<longrightarrow> n \<le> ?m" using callOk_Sent [OF ninvD(8) [OF inv] call] by metis
  have p: "p \<in> E" using callsInD [OF ninvD(2) [OF inv] call] by simp
  have wf: "wfLog (lead S) (log ?r)" "wfLog (lead S) X"
    using ainvD(4) [OF ninvD(10) [OF inv] p] wfMap_D [OF ainvD(1) [OF ninvD(10) [OF inv]], of ?t X] X(1) by simp_all
  have plain: "plain ?r" using ninvD(3) [OF inv p] .
  have "agrees (log r2) X ?m \<and> (log r2 = log (becomeFollowerLocked ?t ?r) \<or> log r2 = take ?m X)"
    by (rule accepted_log [OF app(3) _ _ X(2) _ wf(2)]) (use app(2) plain wf(1) in simp_all)
  then have Y: "agrees (log r2) X ?m" "log r2 = log ?r \<or> log r2 = take ?m X" by auto
  have m: "?m \<le> length X" "0 \<le> aeEnd args" and own: "\<forall>k < length X. ?m \<le> k \<longrightarrow> entryTerm (X ! k) = ?t"
    using X(2) by (auto simp: slice_def aeEnd_def)
  let ?s = "(absN S)\<lparr>sterm := (sterm (absN S))(p := ?t), slog := (slog (absN S))(p := log r2),
    sacked := sacked (absN S) \<union> {(p, ?t, n) |n. n \<le> ?m}\<rparr>"
  have acc: "astep E (absN S) ?s" using p app(1) X(1) m(1) Y acks own by (intro astep.accept [where X = X]) auto
  have ci: "commitIndex ?r = commitIndex r2" "0 \<le> commitIndex ?r" "lastIncludedIndex r2 = 0"
    using app(3) plain by (auto simp: aeAppend_Inr plain_def)
  have abs: "absN S' = ?s\<lparr>scommit := (scommit ?s)(p := nat (commitIndex r'))\<rparr>"
    using S' m(2) by (intro spec_eqI) (auto simp: absN_def fun_eq_iff le_nat_iff)
  show ?thesis
  proof (cases "commitIndex r' = commitIndex ?r")
    case True
    then have "absN S' = ?s" unfolding abs by (intro spec_eqI) (auto simp: fun_eq_iff)
    then show ?thesis using acc by simp
  next
    case False
    let ?c = "aeLeaderCommit args"
    have len: "?m \<le> length (log r2)" using Y(1) by (simp add: agrees_def)
    have lc: "?c \<le> aeEnd args" "commitIndex ?r < ?c" "commitIndex r' = ?c"
      using X(3) False S'(7) ci len m(2) by (auto simp: commitOk_def commitIndex_aeCommit fst_lastLogInfoLocked split: if_splits)
    then obtain t n Z where Z: "committed E (lead S) (acked S) t n" "nat ?c \<le> n" "t \<le> ?t" "lead S t = Some Z" "agrees X Z (nat ?c)"
      using X(3) ci(2) by (auto simp: commitOk_def)
    have le: "nat ?c \<le> ?m" using lc(1) by simp
    have "committed E (slead ?s) (sacked ?s) t n" using committed_acks [OF Z(1)] by simp
    moreover have "agrees (slog ?s p) Z (nat ?c)" using agrees_trans [OF agrees_mono [OF Y(1) le] Z(5)] by simp
    moreover have "t < sterm ?s p \<or> t = sterm ?s p \<and> (p, t, nat ?c) \<in> sacked ?s" using Z(3) le by auto
    ultimately have "mayCommit E ?s p (nat ?c)" using Z(2,4) unfolding mayCommit_def by fastforce
    then have "astep E ?s (absN S')" unfolding abs lc(3) by (rule astep.commit [OF p])
    then show ?thesis using acc by simp
  qed
qed

lemma sim_handle:
  assumes inv: "ninv E ps S" and call: "calls S i p = Sent args" "AppendEntries args (nd S p) = Inr (rep, r')"
    and S': "nd S' = (nd S)(p := r')" "lead S' = lead (putNode p r' S)" "vlogs S' = vlogs S"
      "acked S' = acked (putNode p r' S) \<union> (if aerSuccess rep then {(p, aeTerm args, n) |n. int n \<le> aeEnd args} else {})"
  shows "(astep E)\<^sup>*\<^sup>* (absN S) (absN S')"
proof -
  have p: "p \<in> E" using callsInD [OF ninvD(2) [OF inv] call(1)] by simp
  consider (stale) "r' = nd S p" "\<not> aerSuccess rep"
    | (reject) "r' = ResetElectionTimer (becomeFollowerLocked (aeTerm args) (nd S p))" "\<not> aerSuccess rep"
    | (accept) r2 where "currentTerm (nd S p) \<le> aeTerm args" "aeConsistent args (nd S p)" "aerSuccess rep"
        "aeAppend args (becomeFollowerLocked (aeTerm args) (nd S p)) = Inr r2" "r' = ResetElectionTimer (aeCommit args r2)"
    using call(2) by (auto simp: AppendEntries_Inr)
  then show ?thesis
  proof cases
    case stale
    then have "absN S' = absN (putNode p (nd S p) S)" using S' by (intro absN_cong) simp_all
    then show ?thesis using sim_quiet [OF ninvD(5) [OF inv p]] by simp
  next
    case reject
    then have "absN S' = absN (putNode p r' S)" using S' by (intro absN_cong) simp_all
    moreover have "astep E (absN S) (absN (putNode p r' S))" using reject by (intro sim_bump p) simp_all
    ultimately show ?thesis by simp
  next
    case accept
    have st: "state r' = Follower" "currentTerm r' = aeTerm args"
      using AppendEntries_frame(3,6) [OF call(2)] accept(1) by simp_all
    show ?thesis
      by (rule sim_accept [OF inv call(1) accept(1,2,4) S'(1) _ S'(3)]) (use S' st accept in \<open>simp_all add: putNode_lead\<close>)
  qed
qed


text \<open>The reply to a call, before the commit rule runs.\<close>

definition matched :: "int \<Rightarrow> 'c AppendEntriesArgs \<Rightarrow> ('c, 'd) Raft \<Rightarrow> ('c, 'd) Raft" where
  "matched p args r = (let r1 = (if aeEnd args > get0 (matchIndex r) p then r\<lparr>matchIndex := (matchIndex r)(p \<mapsto> aeEnd args)\<rparr> else r)
     in r1\<lparr>nextIndex := (nextIndex r1)(p \<mapsto> aeEnd args + 1)\<rparr>)"

definition backedOff :: "int \<Rightarrow> ('c, 'd) Raft \<Rightarrow> ('c, 'd) Raft" where
  "backedOff p r = (if get0 (nextIndex r) p > 1 then r\<lparr>nextIndex := (nextIndex r)(p \<mapsto> get0 (nextIndex r) p - 1)\<rparr> else r)"

lemma replicateToPeer_reply_shape:
  obtains (steps_down) "currentTerm r < aerTerm rep" "replicateToPeer_reply p args rep r = becomeFollowerLocked (aerTerm rep) r"
  | (ignored) "replicateToPeer_reply p args rep r = r"
  | (success) "state r = Leader" "currentTerm r = aeTerm args" "aerSuccess rep"
      "replicateToPeer_reply p args rep r = advanceCommitIndexLocked (matched p args r)"
  | (failure) "state r = Leader" "currentTerm r = aeTerm args" "replicateToPeer_reply p args rep r = backedOff p r"
proof -
  consider "aerTerm rep > currentTerm r" | "\<not> aerTerm rep > currentTerm r" "state r \<noteq> Leader \<or> currentTerm r \<noteq> aeTerm args"
    | "\<not> aerTerm rep > currentTerm r" "state r = Leader" "currentTerm r = aeTerm args" "aerSuccess rep"
    | "\<not> aerTerm rep > currentTerm r" "state r = Leader" "currentTerm r = aeTerm args" "\<not> aerSuccess rep"
    by blast
  then show ?thesis
  proof cases
    case 1
    then show ?thesis by (intro steps_down) (simp_all add: replicateToPeer_reply_def)
  next
    case 2
    then show ?thesis by (intro ignored) (auto simp: replicateToPeer_reply_def)
  next
    case 3
    then show ?thesis by (intro success) (simp_all add: replicateToPeer_reply_def matched_def aeEnd_def Let_def)
  next
    case 4
    then show ?thesis by (intro failure) (simp_all add: replicateToPeer_reply_def backedOff_def)
  qed
qed

lemma reply_frame [simp]:
  "state (matched p args r) = state r" "currentTerm (matched p args r) = currentTerm r" "log (matched p args r) = log r"
  "commitIndex (matched p args r) = commitIndex r" "peers (matched p args r) = peers r"
  "state (backedOff p r) = state r" "currentTerm (backedOff p r) = currentTerm r" "log (backedOff p r) = log r"
  "commitIndex (backedOff p r) = commitIndex r" "peers (backedOff p r) = peers r"
  "plain (matched p args r) = plain r"
  by (simp_all add: matched_def backedOff_def plain_def Let_def)

lemma viewOk_matched:
  assumes "viewOk A r" "0 \<le> aeEnd args" "aeEnd args \<le> int (length (log r))" "\<forall>n \<le> nat (aeEnd args). (p, currentTerm r, n) \<in> A"
  shows "viewOk A (matched p args r)"
  using assms unfolding viewOk_def matched_def Let_def by (auto simp: le_nat_iff)

lemma viewOk_backedOff:
  assumes "viewOk A r"
  shows "viewOk A (backedOff p r)"
proof -
  have "1 \<le> get0 (nextIndex (backedOff p r)) q \<and> get0 (nextIndex (backedOff p r)) q \<le> int (length (log r)) + 1"
    if "q \<in> set (peers r)" for q
  proof -
    have "1 \<le> get0 (nextIndex r) q" "get0 (nextIndex r) q \<le> int (length (log r)) + 1" using assms that by (auto simp: viewOk_def)
    then show ?thesis by (auto simp: backedOff_def)
  qed
  moreover have "matchIndex (backedOff p r) = matchIndex r" by (simp add: backedOff_def)
  ultimately show ?thesis using assms by (simp add: viewOk_def)
qed

text \<open>A successful reply in the leader's own term reports entries the leader has.\<close>

lemma reply_bounds:
  assumes inv: "ninv E ps S" and call: "calls S i p = Answered args rep" "aerSuccess rep" and r: "state (nd S i) = Leader" "currentTerm (nd S i) = aeTerm args"
  shows "0 \<le> aeEnd args" "aeEnd args \<le> int (length (log (nd S i)))" "\<forall>n \<le> nat (aeEnd args). (p, currentTerm (nd S i), n) \<in> acked S"
proof -
  have i: "i \<in> E" using callsInD [OF ninvD(2) [OF inv] call(1)] by simp
  note ok = callOk_Answered [OF ninvD(8) [OF inv] call(1)]
  show "0 \<le> aeEnd args" "\<forall>n \<le> nat (aeEnd args). (p, currentTerm (nd S i), n) \<in> acked S" using ok call(2) r(2) by simp_all
  have "lead S (aeTerm args) = Some (log (nd S i))" using ninvD(5) [OF inv i] r by (simp add: leaderOk_def Let_def)
  moreover obtain X where "slead (absN S) (aeTerm args) = Some X" "nat (aeEnd args) \<le> length X"
    using ackedD [OF ninvD(10) [OF inv], of p "aeTerm args" "nat (aeEnd args)"] ok(2) [OF call(2)] by auto
  ultimately show "aeEnd args \<le> int (length (log (nd S i)))" by simp
qed

lemma returned_view:
  assumes inv: "ninv E ps S" and call: "calls S i p = Answered args rep" and r: "state (replicateToPeer_reply p args rep (nd S i)) = Leader"
  shows "viewOk (acked S) (replicateToPeer_reply p args rep (nd S i))"
proof (cases rule: replicateToPeer_reply_shape [of "nd S i" rep p args])
  case steps_down
  then show ?thesis using r by simp
next
  case ignored
  moreover have "i \<in> E" using callsInD [OF ninvD(2) [OF inv] call(1)] by simp
  ultimately show ?thesis using ninvD(5) [OF inv] r by (simp add: leaderOk_def Let_def)
next
  case success
  have "i \<in> E" using callsInD [OF ninvD(2) [OF inv] call(1)] by simp
  then have "viewOk (acked S) (nd S i)" using ninvD(5) [OF inv] success(1) by (simp add: leaderOk_def Let_def)
  then have "viewOk (acked S) (matched p args (nd S i))" using viewOk_matched reply_bounds [OF inv call success(3,1,2)] by blast
  then show ?thesis unfolding success(4) by (rule viewOk_cong [rotated -1]) simp_all
next
  case failure
  have "i \<in> E" using callsInD [OF ninvD(2) [OF inv] call(1)] by simp
  then show ?thesis using ninvD(5) [OF inv] failure by (simp add: leaderOk_def Let_def viewOk_backedOff)
qed

lemma sim_returns:
  assumes inv: "ninv E ps S" and OK: "peersOK E ps" and call: "calls S i p = Answered args rep"
  shows "(astep E)\<^sup>*\<^sup>* (absN S) (absN (putNode i (replicateToPeer_reply p args rep (nd S i)) S))"
proof -
  have i: "i \<in> E" using callsInD [OF ninvD(2) [OF inv] call] by simp
  note quiet = sim_quiet [OF ninvD(5) [OF inv i]]
  show ?thesis
  proof (cases rule: replicateToPeer_reply_shape [of "nd S i" rep p args])
    case steps_down
    then show ?thesis using i by (intro r_into_rtranclp sim_bump) simp_all
  next
    case success
    let ?r = "matched p args (nd S i)"
    have "viewOk (acked S) (nd S i)" using ninvD(5) [OF inv i] success(1) by (simp add: leaderOk_def Let_def)
    then have "viewOk (acked S) ?r" using viewOk_matched reply_bounds [OF inv call success(3,1,2)] by blast
    then have "viewOk (acked (putNode i ?r S)) ?r" by (rule viewOk_mono) (simp add: putNode_lead)
    then have "(astep E)\<^sup>*\<^sup>* (absN (putNode i ?r S)) (absN (putNode i (advanceCommitIndexLocked ?r) S))"
      using OK ninv_peers [OF inv OK i] ninvD(3) [OF inv i] success(1) i by (intro sim_advance) (simp_all add: peersOK_def)
    then show ?thesis using quiet [of ?r] success(4) by simp
  qed (use quiet in simp_all)
qed


section \<open>The simulation\<close>

lemma rstep_sim:
  assumes step: "rstep E S S'" and inv: "ninv E ps S" and OK: "peersOK E ps"
  shows "(astep E)\<^sup>*\<^sup>* (absN S) (absN S')"
proof -
  have c': "cinv E ps (cl S')" using cinv_rstep [OF step OK ninvD(1,2) [OF inv]] .
  show ?thesis using step
  proof cases
    case (propose i cmd res r')
    then show ?thesis using sim_propose [OF inv OK propose(2), of cmd] by simp
  next
    case (timer i)
    then have "absN S' = absN S" using sim_quiet [OF ninvD(5) [OF inv timer(2)]] by (simp add: takeTimerReset_def)
    then show ?thesis by simp
  next
    case (deliver i r')
    have "absN (putNode i r' S) = absN S" using sim_quiet [OF ninvD(5) [OF inv deliver(2)]] deliver(3) by (simp add: applyPendingStep_Some)
    moreover have "absN S' = absN (putNode i r' S)" unfolding deliver(1) by (rule absN_cong) simp_all
    ultimately show ?thesis by simp
  next
    case (timeout i r')
    have "state r' = Candidate" using timeout(3) by (auto simp: electionTimeout_True)
    then show ?thesis by (intro sim_timeout [OF inv timeout(2,3)]) (simp_all add: timeout(1) putNode_lead fun_eq_iff)
  next
    case (begins i)
    then have "absN S' = absN S" by (intro absN_cong) simp_all
    then show ?thesis by simp
  next
    case (request k run p reply r')
    have "runOK E ps (cl S) run" using ninvD(1) [OF inv] request(2,3) by (auto simp: cinv_def)
    then have "p \<in> E" using runOK_peer [OF _ OK request(4)] by blast
    then show ?thesis by (rule sim_request [OF inv _ request(6)]) (simp_all add: request(1) fun_eq_iff)
  next
    case (reply k run p reply i el' r')
    have run: "run \<in> set (elections (cl S))" using reply(2,3) by simp
    have "leaders (cl S') = leaders (setNode i r' (cl S))" unfolding reply(1) by simp
    then have "(astep E)\<^sup>*\<^sup>* (absN S) (absN (putNode i r' S))"
      by (rule sim_reply [OF inv OK run reply(6) reply(4,5) reply(8) c'])
    moreover have "absN S' = absN (putNode i r' S)" unfolding reply(1) by (rule absN_cong) simp_all
    ultimately show ?thesis by simp
  next
    case (crash i p)
    then show ?thesis by (intro sim_crash [OF inv crash(2,3)]) (simp_all add: restartNode_def fun_eq_iff)
  next
    case (handle i p args rep r')
    show ?thesis by (rule sim_handle [OF inv handle(2,3)]) (simp_all add: handle(1) Let_def fun_eq_iff)
  next
    case (returns i p args rep)
    have "absN S' = absN (putNode i (replicateToPeer_reply p args rep (nd S i)) S)" unfolding returns(1) by (rule absN_cong) simp_all
    then show ?thesis using sim_returns [OF inv OK returns(2)] by simp
  next
    case (send i p args)
    then have "absN S' = absN S" by (intro absN_cong) simp_all
    then show ?thesis by simp
  next
    case (fails i p)
    then have "absN S' = absN S" by (intro absN_cong) simp_all
    then show ?thesis by simp
  qed
qed

end
