(* ===== verification/Raft_Safety.thy ===== *)
theory Raft_Safety
  imports Raft_Refine
begin

text \<open>
  Safety of the replicated log: the invariant of \<open>Raft_Refine\<close> holds in every reachable state of the cluster, so that all logs
  match, leaders have every committed entry, commit indices never cover different entries, and no two state machines are ever
  given different commands for the same index.
\<close>

section \<open>What a step of the cluster changes\<close>

definition changes :: "('c, 'd) Net \<Rightarrow> ('c, 'd) Net \<Rightarrow> int \<Rightarrow> ('c, 'd) Raft \<Rightarrow> bool" where
  "changes S S' i r \<longleftrightarrow> nd S' = (nd S)(i := r) \<and>
     leaders (cl S') = leaders (cl S) \<union> (if state r = Leader then {(currentTerm r, i)} else {}) \<and>
     lead S' = (if state r = Leader then (lead S)(currentTerm r \<mapsto> log r) else lead S) \<and>
     acked (putNode i r S) \<subseteq> acked S'"

definition untouched :: "('c, 'd) Net \<Rightarrow> ('c, 'd) Net \<Rightarrow> bool" where
  "untouched S S' \<longleftrightarrow> nd S' = nd S \<and> leaders (cl S') = leaders (cl S) \<and> lead S' = lead S \<and> acked S' = acked S \<and> vlogs S' = vlogs S"

lemma changes_putNode:
  assumes "nd S' = nd (putNode i r S)" "leaders (cl S') = leaders (setNode i r (cl S))" "lead S' = lead (putNode i r S)"
    "acked (putNode i r S) \<subseteq> acked S'"
  shows "changes S S' i r"
  using assms by (auto simp: changes_def putNode_lead setNode_def fun_eq_iff)

text \<open>The node a step changes: how its role, term and log move, and what holds of a new candidate and of a leader.\<close>

definition shaped :: "int set \<Rightarrow> ('c, 'd) Net \<Rightarrow> ('c, 'd) Net \<Rightarrow> bool" where
  "shaped E S S' \<longleftrightarrow> untouched S S' \<or> (\<exists>i \<in> E. \<exists>r. moves (nd S i) r \<and> changes S S' i r \<and>
     (state r = Candidate \<longrightarrow> currentTerm (nd S i) < currentTerm r \<longrightarrow> (i, currentTerm r, log r) \<in> vlogs S') \<and>
     (state r = Leader \<longrightarrow> viewOk (acked S') r))"

lemma shapedI:
  assumes "i \<in> E" "moves (nd S i) r" "changes S S' i r"
    "state r = Candidate \<Longrightarrow> currentTerm (nd S i) < currentTerm r \<Longrightarrow> (i, currentTerm r, log r) \<in> vlogs S'"
    "state r = Leader \<Longrightarrow> viewOk (acked (putNode i r S)) r"
  shows "shaped E S S'"
proof -
  have "state r = Leader \<Longrightarrow> viewOk (acked S') r" using assms(3,5) viewOk_mono unfolding changes_def by blast
  then show ?thesis using assms unfolding shaped_def by blast
qed

lemma leader_view:
  assumes "ninv E ps S" "i \<in> E" "state (nd S i) = Leader" "peers r = peers (nd S i)" "matchIndex r = matchIndex (nd S i)"
    "nextIndex r = nextIndex (nd S i)" "currentTerm r = currentTerm (nd S i)" "length (log (nd S i)) \<le> length (log r)"
  shows "viewOk (acked (putNode i r S)) r"
proof -
  have "viewOk (acked S) (nd S i)" using ninvD(5) [OF assms(1,2)] assms(3) by (simp add: leaderOk_def Let_def)
  then have "viewOk (acked S) r" by (rule viewOk_cong [OF assms(4-8)])
  then show ?thesis by (rule viewOk_mono) (simp add: putNode_lead)
qed

lemma viewOk_new:
  assumes "peers r = ps" "matchIndex r = map_of (map (\<lambda>p. (p, 0)) ps)" "nextIndex r = map_of (map (\<lambda>p. (p, int (length (log r)) + 1)) ps)"
  shows "viewOk A r"
proof -
  have "get0 (map_of (map (\<lambda>p. (p, x)) ps)) q = x" if "q \<in> set ps" for q and x :: int
    using that by (induction ps) (auto simp: get0_def)
  then show ?thesis using assms by (simp add: viewOk_def)
qed

lemma shaped_reply:
  assumes inv: "ninv E ps S" and i: "i \<in> E" and r': "startElection_reply reply el (nd S i) = (el', r')" and ch: "changes S S' i r'"
  shows "shaped E S S'"
  using r'
proof (cases rule: startElection_reply_shape)
  case steps_down
  then have "state r' = Follower" by simp
  then show ?thesis by (intro shapedI [OF i moves_startElection_reply [OF r'] ch]) simp_all
next
  case wins
  have "lastIncludedIndex (nd S i) = 0" using ninvD(3) [OF inv i] by (simp add: plain_def)
  then have "viewOk A r'" for A using wins(6) by (intro viewOk_new [where ps = "peers (nd S i)"]) (simp_all add: fst_lastLogInfoLocked)
  moreover have "state r' = Leader" using wins(6) by simp
  ultimately show ?thesis by (intro shapedI [OF i moves_startElection_reply [OF r'] ch]) simp_all
qed (use moves_startElection_reply [OF r'] i ch leader_view [OF inv i] in \<open>auto intro!: shapedI\<close>)

lemma rstep_shaped:
  assumes step: "rstep E S S'" and inv: "ninv E ps S" and OK: "peersOK E ps"
  shows "shaped E S S'"
  using step
proof cases
  case (propose i cmd res r')
  have r': "r' = snd (Propose cmd (nd S i))" using propose(3) by simp
  have "changes S S' i r'" unfolding propose(1) by (rule changes_putNode) simp_all
  then show ?thesis
  proof (rule shapedI [OF propose(2), rotated])
    show "moves (nd S i) r'" unfolding r' by (rule moves_Propose)
    show "(i, currentTerm r', log r') \<in> vlogs S'" if "currentTerm (nd S i) < currentTerm r'"
      using that unfolding r' by (simp add: Propose_def Let_def split: if_splits)
    show "viewOk (acked (putNode i r' S)) r'" if "state r' = Leader"
      using that unfolding r' by (intro leader_view [OF inv propose(2)]) (auto simp: Propose_def Let_def split: if_splits)
  qed
next
  case (timer i)
  have "changes S S' i (takeTimerReset (nd S i))" unfolding timer(1) by (rule changes_putNode) simp_all
  then show ?thesis using timer(2) moves_local(1)
    by (intro shapedI) (auto simp: takeTimerReset_def intro!: leader_view [OF inv timer(2)])
next
  case (deliver i r')
  have "changes S S' i r'" unfolding deliver(1) by (rule changes_putNode) simp_all
  then show ?thesis using deliver(2,3) moves_local(2)
    by (intro shapedI) (auto simp: applyPendingStep_Some intro!: leader_view [OF inv deliver(2)])
next
  case (timeout i r')
  have "changes S S' i r'" unfolding timeout(1) by (rule changes_putNode) (simp_all add: setNode_def)
  then show ?thesis
    by (rule shapedI [OF timeout(2) moves_timeout [OF timeout(3)]]) (use timeout(3) in \<open>auto simp: timeout(1) electionTimeout_True\<close>)
next
  case (request k run p reply r')
  have "runOK E ps (cl S) run" using ninvD(1) [OF inv] request(2,3) by (auto simp: cinv_def)
  then have p: "p \<in> E" using runOK_peer [OF _ OK request(4)] by blast
  have r': "r' = snd (RequestVote (elArgs (runEl run)) (nd S p))" using request(6) by simp
  have "changes S S' p r'" unfolding request(1) by (rule changes_putNode) (simp_all add: setNode_def)
  then show ?thesis
    by (rule shapedI [OF p, rotated]) (auto simp: r' moves_RequestVote RequestVote_state split: if_splits intro!: leader_view [OF inv p])
next
  case (reply k run p reply i el' r')
  have "runOK E ps (cl S) run" using ninvD(1) [OF inv] reply(2,3) by (auto simp: cinv_def)
  then have i: "i \<in> E" using reply(6) by (simp add: runOK_def Let_def)
  have "changes S S' i r'" unfolding reply(1) by (rule changes_putNode) (simp_all add: setNode_def)
  then show ?thesis by (rule shaped_reply [OF inv i reply(8)])
next
  case (crash i p)
  have OKi: "nodeOK E ps i (nd S i)" using ninvD(1) [OF inv] crash(2) by (simp add: cinv_def)
  have st: "state (NewRaftWithPersister i (peers (nd S i)) p) = Follower" by (rule state_restart)
  have "changes S S' i (NewRaftWithPersister i (peers (nd S i)) p)"
    unfolding crash(1) by (rule changes_putNode) (simp_all add: restartNode_def setNode_def putNode_lead st)
  then show ?thesis by (rule shapedI [OF crash(2) moves_restart [OF OKi crash(3)]]) (simp_all add: st)
next
  case (handle i p args rep r')
  have p: "p \<in> E" using callsInD [OF ninvD(2) [OF inv] handle(2)] by simp
  have "changes S S' p r'" unfolding handle(1) by (rule changes_putNode) (simp_all add: Let_def)
  then show ?thesis
  proof (rule shapedI [OF p moves_AppendEntries [OF handle(3)]])
    show "(p, currentTerm r', log r') \<in> vlogs S'" if "state r' = Candidate" "currentTerm (nd S p) < currentTerm r'"
      using that AppendEntries_frame(3,6) [OF handle(3)] by (auto split: if_splits)
    show "viewOk (acked (putNode p r' S)) r'" if "state r' = Leader"
    proof -
      have "aeTerm args < currentTerm (nd S p)" using that AppendEntries_frame(6) [OF handle(3)] by (auto split: if_splits)
      then have "r' = nd S p" using handle(3) by (simp add: AppendEntries_def)
      then show ?thesis using leader_view [OF inv p, of r'] that by simp
    qed
  qed
next
  case (returns i p args rep)
  have i: "i \<in> E" using callsInD [OF ninvD(2) [OF inv] returns(2)] by simp
  let ?r = "replicateToPeer_reply p args rep (nd S i)"
  have "changes S S' i ?r" unfolding returns(1) by (rule changes_putNode) simp_all
  then show ?thesis
  proof (rule shapedI [OF i moves_replicateToPeer_reply])
    show "(i, currentTerm ?r, log ?r) \<in> vlogs S'" if "state ?r = Candidate" "currentTerm (nd S i) < currentTerm ?r"
      using that by (cases rule: replicateToPeer_reply_shape [of "nd S i" rep p args]) simp_all
    show "viewOk (acked (putNode i ?r S)) ?r" if "state ?r = Leader"
      using returned_view [OF inv returns(2) that] by (rule viewOk_mono) (simp add: putNode_lead)
  qed
qed (simp_all add: shaped_def untouched_def)


section \<open>Nodes, candidates and leaders\<close>

lemma shapedE:
  assumes "shaped E S S'"
  obtains (untouched) "untouched S S'"
  | (changed) i r where "i \<in> E" "moves (nd S i) r" "changes S S' i r"
      "state r = Candidate \<longrightarrow> currentTerm (nd S i) < currentTerm r \<longrightarrow> (i, currentTerm r, log r) \<in> vlogs S'"
      "state r = Leader \<longrightarrow> viewOk (acked S') r"
  using assms unfolding shaped_def by blast

lemma changesD:
  assumes "changes S S' i r"
  shows "nd S' i = r" "j \<noteq> i \<Longrightarrow> nd S' j = nd S j" "leaders (cl S) \<subseteq> leaders (cl S')"
    "state r \<noteq> Leader \<Longrightarrow> leaders (cl S') = leaders (cl S)" "state r \<noteq> Leader \<Longrightarrow> lead S' = lead S"
    "state r = Leader \<Longrightarrow> leaders (cl S') = insert (currentTerm r, i) (leaders (cl S))"
    "state r = Leader \<Longrightarrow> lead S' = (lead S)(currentTerm r \<mapsto> log r)"
    "state r = Leader \<Longrightarrow> n \<le> length (log r) \<Longrightarrow> (i, currentTerm r, n) \<in> acked S'" "acked S \<subseteq> acked S'"
  using assms by (auto simp: changes_def putNode_lead)

lemma plain_step:
  assumes "shaped E S S'" "\<forall>i \<in> E. plain (nd S i)" "j \<in> E"
  shows "plain (nd S' j)"
  using assms(1)
proof (cases rule: shapedE)
  case untouched
  then show ?thesis using assms(2,3) by (simp add: untouched_def)
next
  case (changed i r)
  then show ?thesis using assms(2,3) changesD(1) [OF changed(3)] changesD(2) [OF changed(3), of j]
    by (cases "j = i") (simp_all add: moves_def)
qed

lemma leadersOk_step:
  assumes "shaped E S S'" "leadersOk E S"
  shows "leadersOk E S'"
  using assms(1)
proof (cases rule: shapedE)
  case untouched
  then show ?thesis using assms(2) by (simp add: untouched_def leadersOk_def)
next
  case (changed i r)
  have mono: "currentTerm (nd S j) \<le> currentTerm (nd S' j)" for j
    using changed(2) changesD(1) [OF changed(3)] changesD(2) [OF changed(3), of j] by (cases "j = i") (simp_all add: moves_def)
  have old: "j \<in> E" "t \<le> currentTerm (nd S j)" if "(t, j) \<in> leaders (cl S)" for t j using assms(2) that by (auto simp: leadersOk_def)
  have dom: "lead S t \<noteq> None \<longleftrightarrow> (\<exists>i. (t, i) \<in> leaders (cl S))" for t using assms(2) by (simp add: leadersOk_def)
  have "j \<in> E \<and> t \<le> currentTerm (nd S' j)" if "(t, j) \<in> leaders (cl S')" for t j
  proof (cases "(t, j) \<in> leaders (cl S)")
    case True
    then show ?thesis using old mono [of j] by fastforce
  next
    case False
    then have "state r = Leader" using changesD(4) [OF changed(3)] that by auto
    then have "t = currentTerm r" "j = i" using changesD(6) [OF changed(3)] that False by auto
    then show ?thesis using changed(1) changesD(1) [OF changed(3)] by simp
  qed
  moreover have "lead S' t \<noteq> None \<longleftrightarrow> (\<exists>i. (t, i) \<in> leaders (cl S'))" for t
  proof (cases "state r = Leader")
    case True
    then show ?thesis using dom [of t] changesD(6,7) [OF changed(3)] by auto
  next
    case False
    then show ?thesis using dom [of t] changesD(4,5) [OF changed(3)] by simp
  qed
  ultimately show ?thesis unfolding leadersOk_def by blast
qed

lemma candOk_step:
  assumes sh: "shaped E S S'" and ok: "leadersOk E S" "candOk S j" "termsLe (log (nd S j)) (currentTerm (nd S j))" "vlogs S \<subseteq> vlogs S'"
  shows "candOk S' j"
  using sh
proof (cases rule: shapedE)
  case untouched
  then show ?thesis using ok(2) by (simp add: untouched_def candOk_def)
next
  case (changed i r)
  note c = changesD [OF changed(3)]
  show ?thesis
  proof (cases "j = i")
    case False
    then have "(currentTerm (nd S j), j) \<in> leaders (cl S') \<longleftrightarrow> (currentTerm (nd S j), j) \<in> leaders (cl S)"
      using c(4,6) by (cases "state r = Leader") auto
    then show ?thesis using ok(2,4) c(2) [OF False] by (auto simp: candOk_def Let_def)
  next
    case True
    have "termsLe (log r) (currentTerm r - 1) \<and> (currentTerm r, i) \<notin> leaders (cl S') \<and> (i, currentTerm r, log r) \<in> vlogs S'"
      if cand: "state r = Candidate"
    proof -
      have same: "log r = log (nd S i)" "leaders (cl S') = leaders (cl S)" using cand changed(2) c(4) by (auto simp: moves_def)
      consider "state (nd S i) = Candidate" "currentTerm r = currentTerm (nd S i)" | "currentTerm (nd S i) < currentTerm r"
        using cand changed(2) by (auto simp: moves_def)
      then show ?thesis
      proof cases
        case 1
        then show ?thesis using ok(2,4) same True by (auto simp: candOk_def Let_def)
      next
        case 2
        have "(currentTerm r, i) \<notin> leaders (cl S)" using ok(1) 2 unfolding leadersOk_def by force
        moreover have "termsLe (log r) (currentTerm r - 1)" using termsLe_mono [OF ok(3)] True 2 same(1) by simp
        ultimately show ?thesis using same 2 changed(4) cand by simp
      qed
    qed
    then show ?thesis using True c(1) by (simp add: candOk_def Let_def)
  qed
qed

text \<open>Two nodes that are leaders now lead different terms.\<close>

lemma one_leader:
  assumes "cinv E ps c" "finite E" "(t, i) \<in> leaders c" "(t, j) \<in> leaders c"
  shows "i = j"
proof -
  have "electedBy E c t i" "electedBy E c t j" using assms(1,3,4) by (simp_all add: cinv_def)
  then show ?thesis by (rule elected_unique [OF assms(1,2)])
qed

lemma leaders_differ:
  assumes "cinv E ps c" "finite E" "i \<in> E" "j \<in> E" "state (node c i) = Leader" "state (node c j) = Leader"
    "currentTerm (node c i) = currentTerm (node c j)"
  shows "i = j"
proof -
  have "(currentTerm (node c i), i) \<in> leaders c" "(currentTerm (node c i), j) \<in> leaders c"
    using assms unfolding cinv_def by (metis, metis)
  then show ?thesis by (rule one_leader [OF assms(1,2)])
qed

lemma leaderOk_step:
  assumes sh: "shaped E S S'" and c': "cinv E ps (cl S')" "finite E" and ok: "leaderOk S j" "j \<in> E" "acked S \<subseteq> acked S'"
  shows "leaderOk S' j"
  using sh
proof (cases rule: shapedE)
  case untouched
  then show ?thesis using ok(1) by (simp add: untouched_def leaderOk_def)
next
  case (changed i r)
  note c = changesD [OF changed(3)]
  show ?thesis
  proof (cases "j = i")
    case True
    then show ?thesis using c(1,7,8) changed(5) by (simp add: leaderOk_def Let_def)
  next
    case False
    have "lead S' (currentTerm (nd S j)) = lead S (currentTerm (nd S j))" if L: "state (nd S j) = Leader"
    proof (cases "state r = Leader")
      case True
      then have "currentTerm (nd S j) \<noteq> currentTerm r"
        using leaders_differ [OF c'(1,2) changed(1) ok(2)] False c(1) c(2) [OF False] L by auto
      then show ?thesis using c(7) [OF True] by simp
    next
      case False
      then show ?thesis using c(5) by simp
    qed
    then show ?thesis using ok(1,3) c(2) [OF False] viewOk_mono [OF _ ok(3)] by (auto simp: leaderOk_def Let_def)
  qed
qed


section \<open>Elections\<close>

lemma runInv_kept:
  assumes sh: "shaped E S S'" and run: "runInv S run" and V: "vlogs S \<subseteq> vlogs S'"
  shows "runInv S' run"
proof -
  let ?args = "elArgs (runEl run)" and ?i = "runNode run"
  have old: "rvTerm ?args \<le> currentTerm (nd S ?i)" "0 \<le> rvLastLogIndex ?args"
    "state (nd S ?i) = Candidate \<Longrightarrow> currentTerm (nd S ?i) = rvTerm ?args \<Longrightarrow>
      rvLastLogIndex ?args = int (length (log (nd S ?i))) \<and> rvLastLogTerm ?args = lastTermOf (log (nd S ?i))"
    using run by (simp_all add: runInv_def Let_def)
  have "voterOk (vlogs S') ?args p" if "voterOk (vlogs S) ?args p" for p using that V unfolding voterOk_def by blast
  moreover have "rvTerm ?args \<le> currentTerm (nd S' ?i) \<and> (state (nd S' ?i) = Candidate \<longrightarrow> currentTerm (nd S' ?i) = rvTerm ?args \<longrightarrow>
      rvLastLogIndex ?args = int (length (log (nd S' ?i))) \<and> rvLastLogTerm ?args = lastTermOf (log (nd S' ?i)))"
    using sh
  proof (cases rule: shapedE)
    case untouched
    then show ?thesis using old by (simp add: untouched_def)
  next
    case (changed i r)
    note c = changesD(1,2) [OF changed(3)]
    show ?thesis
    proof (cases "?i = i")
      case True
      then show ?thesis using old changed(2) c(1) by (auto simp: moves_def)
    next
      case False
      then show ?thesis using old c(2) by simp
    qed
  qed
  ultimately show ?thesis using run old(2) by (auto simp: runInv_def Let_def)
qed

lemma runInv_call:
  assumes "runInv S run" "elArgs el' = elArgs (runEl run)" "elPeers el' = elPeers (runEl run)"
    "x = Counted \<or> (\<exists>reply. x = Replied reply \<and> rvrVoteGranted reply) \<Longrightarrow> voterOk (vlogs S) (elArgs (runEl run)) p"
  shows "runInv S (run\<lparr>runEl := el', runCalls := (runCalls run)(p := x)\<rparr>)"
  using assms by (auto simp: runInv_def Let_def)

lemma lastLogInfo_plain: "plain r \<Longrightarrow> lastLogInfoLocked r = (int (length (log r)), lastTermOf (log r))"
  by (simp add: lastLogInfoLocked_def plain_def lastTermOf_def)

lemma runInv_new:
  assumes "plain (nd S i)" "nd S' = nd S"
  shows "runInv S' (newRun i (cl S))"
  using assms by (simp add: runInv_def newRun_def startElection_begin_def Let_def lastLogInfo_plain)

lemma voterOk_granted:
  assumes "RequestVote args r = (rep, r')" "rvrVoteGranted rep" "plain r" "0 \<le> rvLastLogIndex args" "(p, rvTerm args, log r) \<in> V"
  shows "voterOk V args p"
proof -
  have "grantsVote args r" using RequestVote_granted_iff [of args r] assms(1,2) by simp
  then have "upToDate (nat (rvLastLogIndex args)) (rvLastLogTerm args) (log r)"
    using assms(3,4) by (auto simp: grantsVote_def candidateLogIsUpToDateLocked_def lastLogInfo_plain upToDate_def le_nat_iff split: if_splits)
  then show ?thesis using assms(5) unfolding voterOk_def by blast
qed

lemma runInv_step:
  assumes step: "rstep E S S'" and inv: "ninv E ps S" and OK: "peersOK E ps" and sh: "shaped E S S'" and V: "vlogs S \<subseteq> vlogs S'"
    and run: "run \<in> set (elections (cl S'))"
  shows "runInv S' run"
proof -
  have kept: "runInv S' q" if "q \<in> set (elections (cl S))" for q using runInv_kept [OF sh ninvD(7) [OF inv that] V] .
  show ?thesis using step
  proof cases
    case (begins i)
    have "plain (nd S i)" using ninvD(3) [OF inv begins(2)] .
    then have "runInv S' (newRun i (cl S))" by (rule runInv_new) (simp add: begins(1))
    then show ?thesis using run kept by (auto simp: begins(1))
  next
    case (request k q p reply r')
    have q: "q \<in> set (elections (cl S))" using request(2,3) by simp
    have "runOK E ps (cl S) q" using ninvD(1) [OF inv] q by (simp add: cinv_def)
    then have plain: "plain (nd S p)" using ninvD(3) [OF inv] runOK_peer(1) [OF _ OK request(4)] by blast
    have idx: "0 \<le> rvLastLogIndex (elArgs (runEl q))" using ninvD(7) [OF inv q] by (simp add: runInv_def Let_def)
    have "voterOk (vlogs S') (elArgs (runEl q)) p" if "rvrVoteGranted reply"
      using that by (intro voterOk_granted [OF request(6) that plain idx]) (simp add: request(1))
    then have "runInv S' (q\<lparr>runEl := runEl q, runCalls := (runCalls q)(p := Replied reply)\<rparr>)"
      by (intro runInv_call kept q) auto
    then show ?thesis using run kept by (auto simp: request(1) dest!: set_update_cases)
  next
    case (reply k q p rep i el' r')
    have q: "q \<in> set (elections (cl S))" using reply(2,3) by simp
    have el: "elArgs el' = elArgs (runEl q)" "elPeers el' = elPeers (runEl q)" "elVotes (runEl q) < elVotes el' \<Longrightarrow> rvrVoteGranted rep"
      using reply(8) by (cases rule: startElection_reply_shape; simp)+
    have "voterOk (vlogs S') (elArgs (runEl q)) p" if "rvrVoteGranted rep"
      using kept [OF q] that reply(4,5) by (auto simp: runInv_def Let_def)
    then have "runInv S' (q\<lparr>runEl := el', runCalls := (runCalls q)(p := (if elVotes (runEl q) < elVotes el' then Counted else Dismissed))\<rparr>)"
      using el(3) by (intro runInv_call kept q el(1,2)) (auto split: if_splits)
    then show ?thesis using run kept by (auto simp: reply(1) dest!: set_update_cases)
  qed (use run kept in \<open>auto simp: restartNode_def Let_def\<close>)
qed


section \<open>Replication calls\<close>

text \<open>An acknowledgement is new only for a leader itself or when a call is handled, and then that call is no longer on its way.\<close>

lemma new_acks:
  assumes step: "rstep E S S'" and new: "(v, t, n) \<in> acked S'" "(v, t, n) \<notin> acked S"
  shows "(t, v) \<in> leaders (cl S') \<or>
     (\<exists>j args. calls S j v = Sent args \<and> aeTerm args = t \<and> int n \<le> aeEnd args \<and> (\<forall>a. calls S' j v \<noteq> Sent a))"
  using step
proof cases
  case (handle i p args rep r')
  have "(v, t, n) \<in> acked (putNode p r' S) \<or> v = p \<and> t = aeTerm args \<and> int n \<le> aeEnd args"
    using new(1) by (auto simp: handle(1) Let_def split: if_splits)
  then show ?thesis
  proof
    assume "(v, t, n) \<in> acked (putNode p r' S)"
    then have "(t, v) \<in> leaders (setNode p r' (cl S))" using new(2) by (auto simp: putNode_lead setNode_def split: if_splits)
    then show ?thesis by (simp add: handle(1) Let_def)
  next
    assume "v = p \<and> t = aeTerm args \<and> int n \<le> aeEnd args"
    then show ?thesis using handle(2) by (intro disjI2 exI [of _ i] exI [of _ args]) (simp add: handle(1) Let_def)
  qed
qed (use new in \<open>auto simp: putNode_lead setNode_def split: if_splits\<close>)

lemma slice_grows:
  assumes "slice X args" "\<forall>e \<in> set Z. entryTerm e = aeTerm args"
  shows "slice (X @ Z) args"
proof -
  let ?k = "nat (aePrevLogIndex args)" and ?l = "length (aeEntries args)"
  have s: "0 \<le> aePrevLogIndex args" "nat (aeEnd args) \<le> length X" "aeEntries args = take ?l (drop ?k X)"
    "0 < aePrevLogIndex args \<longrightarrow> aePrevLogTerm args = entryTerm (X ! (?k - 1))"
    "\<forall>k < length X. nat (aeEnd args) \<le> k \<longrightarrow> entryTerm (X ! k) = aeTerm args"
    using assms(1) unfolding slice_def by (blast, blast, blast, blast, blast)
  have e: "nat (aeEnd args) = ?k + ?l" using s(1) by (simp add: aeEnd_def nat_add_distrib)
  have "take ?l (drop ?k (X @ Z)) = take ?l (drop ?k X)" using s(2) e by simp
  then have "aeEntries args = take ?l (drop ?k (X @ Z))" using s(3) by simp
  moreover have "entryTerm ((X @ Z) ! k) = aeTerm args" if "k < length (X @ Z)" "nat (aeEnd args) \<le> k" for k
    using that s(5) assms(2) by (cases "k < length X") (auto simp: nth_append)
  moreover have "0 < aePrevLogIndex args \<longrightarrow> aePrevLogTerm args = entryTerm ((X @ Z) ! (?k - 1))"
    using s(2,4) e by (auto simp: nth_append)
  ultimately show ?thesis using s(1,2) unfolding slice_def by auto
qed

lemma committed_net_grows: "grows (absN S) (absN S') \<Longrightarrow> committed E (lead S) (acked S) t n \<Longrightarrow> committed E (lead S') (acked S') t n"
  using committed_grows [of "absN S" "absN S'" E t n] by simp

lemma lead_net_grows:
  assumes "grows (absN S) (absN S')" "lead S t = Some X"
  obtains Z where "lead S' t = Some (X @ Z)" "\<forall>e \<in> set Z. entryTerm e = t"
  using leadGrows_D [OF growsD(1) [OF assms(1)], of t X] assms(2) by auto

lemma commitOk_grows:
  assumes g: "grows (absN S) (absN S')" and ok: "commitOk E S args X"
  shows "commitOk E S' args (X @ Z)"
proof (cases "aeLeaderCommit args \<le> 0")
  case True
  then show ?thesis using ok by (simp add: commitOk_def)
next
  case False
  then obtain t n Y where Y: "committed E (lead S) (acked S) t n" "nat (aeLeaderCommit args) \<le> n" "t \<le> aeTerm args" "lead S t = Some Y"
    "agrees X Y (nat (aeLeaderCommit args))" using ok by (auto simp: commitOk_def)
  obtain W where W: "lead S' t = Some (Y @ W)" using lead_net_grows [OF g Y(4)] by metis
  have "agrees (X @ Z) (Y @ W) (nat (aeLeaderCommit args))" using Y(5) by (auto simp: agrees_def)
  then show ?thesis using ok committed_net_grows [OF g Y(1)] Y(2,3) W unfolding commitOk_def by blast
qed

lemma callOk_kept:
  assumes step: "rstep E S S'" and inv: "ninv E ps S" and OK: "peersOK E ps" and c': "cinv E ps (cl S')" and g: "grows (absN S) (absN S')"
    and L: "leaders (cl S) \<subseteq> leaders (cl S')" and same: "calls S' i p = calls S i p"
  shows "callOk E S' i p"
proof (cases "calls S i p")
  case (Sent args)
  let ?t = "aeTerm args"
  obtain X where X: "lead S ?t = Some X" "slice X args" "commitOk E S args X" "(?t, i) \<in> leaders (cl S)"
    "\<forall>n. (p, ?t, n) \<in> acked S \<longrightarrow> n \<le> nat (aeEnd args)" using callOk_Sent [OF ninvD(8) [OF inv] Sent] by metis
  obtain Z where Z: "lead S' ?t = Some (X @ Z)" "\<forall>e \<in> set Z. entryTerm e = ?t" using lead_net_grows [OF g X(1)] by metis
  have "finite E" using OK by (simp add: peersOK_def)
  then have one: "j = i" if "(?t, j) \<in> leaders (cl S')" for j using one_leader [OF c' _ that subsetD [OF L X(4)]] by simp
  have "n \<le> nat (aeEnd args)" if ack: "(p, ?t, n) \<in> acked S'" for n
  proof (rule ccontr)
    assume n: "\<not> n \<le> nat (aeEnd args)"
    then have "(p, ?t, n) \<notin> acked S" using X(5) by blast
    then consider "(?t, p) \<in> leaders (cl S')" | j a where "calls S j p = Sent a" "aeTerm a = ?t" "\<forall>b. calls S' j p \<noteq> Sent b"
      using new_acks [OF step ack] by blast
    then show False
    proof cases
      case 1
      then show False using one callsInD [OF ninvD(2) [OF inv] Sent] by blast
    next
      case 2
      have "(aeTerm a, j) \<in> leaders (cl S)" using callOk_Sent [OF ninvD(8) [OF inv] 2(1)] by blast
      then have "j = i" using one L 2(2) by auto
      then show False using 2(3) same Sent by simp
    qed
  qed
  moreover have "slice (X @ Z) args" using slice_grows [OF X(2) Z(2)] .
  moreover have "(?t, i) \<in> leaders (cl S')" using X(4) L by blast
  ultimately show ?thesis using same Sent Z(1) commitOk_grows [OF g X(3)] by (auto simp: callOk_def)
next
  case (Answered args rep)
  note ok = callOk_Answered [OF ninvD(8) [OF inv] Answered]
  have "acked S \<subseteq> acked S'" using growsD(3) [OF g] by simp
  then show ?thesis using same Answered ok by (auto simp: callOk_def)
qed (simp add: callOk_def same)


lemma slice_sent:
  assumes rep: "replicateToPeer_begin p r = Inr (ReplAppendEntries args)" and r: "plain r"
    and nxt: "1 \<le> get0 (nextIndex r) p" "get0 (nextIndex r) p \<le> int (length (log r)) + 1"
  shows "slice (log r) args" "aeEnd args = int (length (log r))"
proof -
  note s = replicateToPeer_begin_AE [OF rep]
  have lii: "lastIncludedIndex r = 0" using r by (simp add: plain_def)
  have prev: "0 \<le> aePrevLogIndex args" "aePrevLogIndex args \<le> int (length (log r))" using s(4) nxt by simp_all
  have es: "aeEntries args = drop (nat (aePrevLogIndex args)) (log r)" using s(6) lii by simp
  show e: "aeEnd args = int (length (log r))" using prev es by (simp add: aeEnd_def)
  have "aePrevLogTerm args = entryTerm (log r ! (nat (aePrevLogIndex args) - 1))" if "0 < aePrevLogIndex args"
    using s(7) that prev lii by (simp add: fst_lastLogInfoLocked termAtLocked_log nat_diff_distrib)
  then show "slice (log r) args" using prev es e by (simp add: slice_def)
qed

lemma callOk_sent:
  assumes inv: "ninv E ps S" and i: "i \<in> E" "p \<in> set (peers (nd S i))"
    and rep: "replicateToPeer_begin p (nd S i) = Inr (ReplAppendEntries args)"
  shows "callOk E (setCall i p (Sent args) S) i p"
proof -
  let ?r = "nd S i" and ?t = "currentTerm (nd S i)"
  note s = replicateToPeer_begin_AE [OF rep]
  have L: "lead S ?t = Some (log ?r)" "viewOk (acked S) ?r" using ninvD(5) [OF inv i(1)] s(1) by (simp_all add: leaderOk_def Let_def)
  have plain: "plain ?r" using ninvD(3) [OF inv i(1)] .
  have sl: "slice (log ?r) args" "aeEnd args = int (length (log ?r))" using slice_sent [OF rep plain] L(2) i(2) by (auto simp: viewOk_def)
  have "scommit (absN S) i = 0 \<or> mayCommit E (absN S) i (scommit (absN S) i)" using ainvD(8) [OF ninvD(10) [OF inv] i(1)] .
  then have "commitOk E S args (log ?r)"
  proof
    assume "scommit (absN S) i = 0"
    then show ?thesis using s(8) sl(2) by (simp add: commitOk_def)
  next
    let ?c = "nat (commitIndex ?r)"
    assume "mayCommit E (absN S) i (scommit (absN S) i)"
    then obtain t n X where c: "committed E (lead S) (acked S) t n" "?c \<le> n" "lead S t = Some X" "agrees (log ?r) X ?c" "t \<le> ?t"
      by (auto simp: mayCommit_def)
    have "commitIndex ?r \<le> int (length (log ?r))" using c(4) by (simp add: agrees_def nat_le_iff)
    then show ?thesis unfolding commitOk_def s(8) sl(2) s(2) using c by blast
  qed
  moreover have "(?t, i) \<in> leaders (cl S)" using ninvD(1) [OF inv] i(1) s(1) by (simp add: cinv_def)
  moreover have "n \<le> length (log ?r)" if "(p, ?t, n) \<in> acked S" for n
    using ackedD [OF ninvD(10) [OF inv], of p ?t n] that L(1) by (metis absN_simps(4,5) option.inject)
  ultimately show ?thesis using L(1) sl s(2) by (simp add: callOk_def commitOk_def)
qed

lemma callOk_step:
  assumes step: "rstep E S S'" and inv: "ninv E ps S" and OK: "peersOK E ps" and c': "cinv E ps (cl S')" and g: "grows (absN S) (absN S')"
    and L: "leaders (cl S) \<subseteq> leaders (cl S')"
  shows "callOk E S' j q"
proof (cases "calls S' j q = calls S j q \<or> calls S' j q = NoCall")
  case True
  then show ?thesis using callOk_kept [OF step inv OK c' g L] by (auto simp: callOk_def)
next
  case False
  show ?thesis using step
  proof cases
    case (send i p args)
    then have "j = i \<and> q = p" using False by (auto split: if_splits)
    then show ?thesis using callOk_sent [OF inv send(2,3,5)] send(1) by simp
  next
    case (handle i p args rep r')
    then have jq: "j = i \<and> q = p" using False by (auto simp: Let_def split: if_splits)
    obtain X where "slice X args" using callOk_Sent [OF ninvD(8) [OF inv] handle(2)] by blast
    then have "0 \<le> aeEnd args" by (simp add: slice_def aeEnd_def)
    then show ?thesis using jq by (simp add: handle(1) callOk_def Let_def le_nat_iff)
  qed (use False in \<open>auto split: if_splits\<close>)
qed

section \<open>Delivered entries\<close>

lemma deliveredOk_grows:
  assumes g: "grows (absN S) (absN S')" and ok: "deliveredOk E S m"
  shows "deliveredOk E S' m"
proof -
  obtain k t n X where m: "committed E (lead S) (acked S) t n" "k < n" "lead S t = Some X"
    "m = CommandMsg (int k + 1) (entryTerm (X ! k)) (entryCommand (X ! k))" using ok by (auto simp: deliveredOk_def)
  obtain Z where Z: "lead S' t = Some (X @ Z)" using lead_net_grows [OF g m(3)] by metis
  have "k < length X" using m(1,2,3) by (auto simp: committed_def)
  then have "(X @ Z) ! k = X ! k" by (simp add: nth_append)
  then show ?thesis using committed_net_grows [OF g m(1)] m(2,4) Z unfolding deliveredOk_def by metis
qed

lemma deliveredOk_new:
  assumes inv: "ninv E ps S" and i: "i \<in> E" "applyPendingStep (nd S i) = Inr (Some r')"
  shows "deliveredOk E S (last (ApplyCh r'))"
proof -
  let ?r = "nd S i" and ?k = "nat (lastApplied (nd S i))"
  have p: "0 \<le> lastApplied ?r" "lastIncludedIndex ?r = 0" using ninvD(3) [OF inv i(1)] by (auto simp: plain_def)
  have lt: "lastApplied ?r < commitIndex ?r" using i(2) by (simp add: applyPendingStep_Some)
  have msg: "last (ApplyCh r') = CommandMsg (int ?k + 1) (entryTerm (log ?r ! ?k)) (entryCommand (log ?r ! ?k))"
    using i(2) p by (auto simp: applyPendingStep_Some)
  have "scommit (absN S) i \<noteq> 0" using lt p(1) by simp
  then have "mayCommit E (absN S) i (nat (commitIndex ?r))" using ainvD(8) [OF ninvD(10) [OF inv] i(1)] by simp
  then obtain t n X where c: "committed E (lead S) (acked S) t n" "nat (commitIndex ?r) \<le> n" "lead S t = Some X"
    "agrees (log ?r) X (nat (commitIndex ?r))" by (auto simp: mayCommit_def)
  have "log ?r ! ?k = X ! ?k" using agrees_nth [OF c(4)] lt p(1) by simp
  moreover have "?k < n" using c(2) lt p(1) by linarith
  ultimately show ?thesis using c(1,3) msg unfolding deliveredOk_def by metis
qed

lemma delivered_step:
  assumes step: "rstep E S S'" and inv: "ninv E ps S" and g: "grows (absN S) (absN S')" and m: "(j, m) \<in> applied S'"
  shows "deliveredOk E S' m"
proof (cases "(j, m) \<in> applied S")
  case True
  then show ?thesis using deliveredOk_grows [OF g ninvD(9) [OF inv]] by blast
next
  case False
  show ?thesis using step
  proof cases
    case (deliver i r')
    then have "m = last (ApplyCh r')" using m False by auto
    then show ?thesis using deliveredOk_grows [OF g deliveredOk_new [OF inv deliver(2,3)]] by simp
  qed (use m False in \<open>auto simp: Let_def\<close>)
qed

section \<open>The invariant is kept\<close>

lemma vlogs_step: "rstep E S S' \<Longrightarrow> vlogs S \<subseteq> vlogs S'"
  by (induction rule: rstep.induct) (auto simp: Let_def)

lemma leaders_step: "shaped E S S' \<Longrightarrow> leaders (cl S) \<subseteq> leaders (cl S')"
  by (elim shapedE) (auto simp: untouched_def dest: changesD(3))

lemma ninv_step:
  assumes step: "rstep E S S'" and inv: "ninv E ps S" and OK: "peersOK E ps"
  shows "ninv E ps S'"
proof -
  have fin: "finite E" using OK by (simp add: peersOK_def)
  have c': "cinv E ps (cl S')" using cinv_rstep [OF step OK ninvD(1,2) [OF inv]] .
  have sh: "shaped E S S'" using rstep_shaped [OF step inv OK] .
  have sim: "ainv E (absN S')" "grows (absN S) (absN S')"
    using asteps_ainv [OF rstep_sim [OF step inv OK] ninvD(10) [OF inv] fin] by auto
  have A: "acked S \<subseteq> acked S'" using growsD(3) [OF sim(2)] by simp
  have V: "vlogs S \<subseteq> vlogs S'" by (rule vlogs_step [OF step])
  have nodes: "plain (nd S' i)" "candOk S' i" "leaderOk S' i" if "i \<in> E" for i
  proof -
    show "plain (nd S' i)" using plain_step [OF sh _ that] ninvD(3) [OF inv] by blast
    have "termsLe (log (nd S i)) (currentTerm (nd S i))" using ainvD(5) [OF ninvD(10) [OF inv] that] by simp
    then show "candOk S' i" using candOk_step [OF sh ninvD(6) [OF inv] ninvD(4) [OF inv that] _ V] by blast
    show "leaderOk S' i" using leaderOk_step [OF sh c' fin ninvD(5) [OF inv that] that A] .
  qed
  show ?thesis
    unfolding ninv_def
    using c' rstep_callsIn [OF step ninvD(2,1) [OF inv] OK] nodes leadersOk_step [OF sh ninvD(6) [OF inv]]
      runInv_step [OF step inv OK sh V] callOk_step [OF step inv OK c' sim(2) leaders_step [OF sh]] delivered_step [OF step inv sim(2)] sim(1)
    by blast
qed

lemma boot_net:
  "plain (node (initCluster ps) i)" "state (node (initCluster ps) i) = Follower" "log (node (initCluster ps) i) = []"
  "commitIndex (node (initCluster ps) i) = 0" "leaders (initCluster ps) = {}" "elections (initCluster ps) = []"
  by (simp_all add: initCluster_def plain_def NewRaftWithPersister_def newRaft_def restoreLocked_def NewMemoryPersister_def
      ReadState_def)

lemma initNet_simps [simp]:
  "cl (initNet ps) = initCluster ps" "calls (initNet ps) i p = NoCall" "lead (initNet ps) = Map.empty" "acked (initNet ps) = {}"
  "vlogs (initNet ps) = {}" "applied (initNet ps) = {}"
  by (simp_all add: initNet_def)

lemma ninv_init: "ninv E ps (initNet ps)"
  by (simp add: ninv_def callsIn_def leadersOk_def callOk_def ainv_def wfMap_def candOk_def leaderOk_def cinv_init boot_net)

lemma ninv_reachable: "reachableN E ps S \<Longrightarrow> peersOK E ps \<Longrightarrow> ninv E ps S"
  by (induction rule: reachableN.induct) (auto intro: ninv_init ninv_step)


section \<open>What the state machines are given\<close>

lemma delivered_unique:
  assumes inv: "ninv E ps S" and fin: "finite E" and del: "(i, m) \<in> applied S" "(j, m') \<in> applied S" "msgIndex m = msgIndex m'"
  shows "m = m'"
proof -
  obtain k t n X where m: "committed E (lead S) (acked S) t n" "k < n" "lead S t = Some X"
    "m = CommandMsg (int k + 1) (entryTerm (X ! k)) (entryCommand (X ! k))" using ninvD(9) [OF inv del(1)] by (auto simp: deliveredOk_def)
  obtain l u o' Y where m': "committed E (lead S) (acked S) u o'" "l < o'" "lead S u = Some Y"
    "m' = CommandMsg (int l + 1) (entryTerm (Y ! l)) (entryCommand (Y ! l))" using ninvD(9) [OF inv del(2)] by (auto simp: deliveredOk_def)
  have kl: "k = l" using del(3) m(4) m'(4) by simp
  have "X ! k = Y ! k"
  proof (cases t u rule: linorder_cases)
    case less
    then show ?thesis using leader_complete [OF ninvD(10) [OF inv] fin, of t n X u Y] m m' agrees_nth by fastforce
  next
    case equal
    then show ?thesis using m(3) m'(3) by simp
  next
    case greater
    then show ?thesis using leader_complete [OF ninvD(10) [OF inv] fin, of u o' Y t X] m m' kl agrees_nth by fastforce
  qed
  then show ?thesis using m(4) m'(4) kl by simp
qed

text \<open>The apply channel of a node holds the messages for the indices 1, 2, and so on, since the node started, all of them on record.\<close>

definition channelOk :: "('c, 'd) Net \<Rightarrow> int \<Rightarrow> bool" where
  "channelOk S i \<longleftrightarrow> (let r = nd S i in length (ApplyCh r) = nat (lastApplied r) \<and>
     (\<forall>k < length (ApplyCh r). msgIndex (ApplyCh r ! k) = int k + 1 \<and> (i, ApplyCh r ! k) \<in> applied S))"

lemma ApplyCh_frame [simp]:
  "ApplyCh (becomeFollowerLocked t r) = ApplyCh r" "ApplyCh (ResetElectionTimer r) = ApplyCh r" "ApplyCh (advanceCommitIndexLocked r) = ApplyCh r"
  "ApplyCh (snd (RequestVote vargs r)) = ApplyCh r" "ApplyCh (snd (Propose c r)) = ApplyCh r"
  "ApplyCh (takeTimerReset r) = ApplyCh r" "ApplyCh (replicateToPeer_reply p args rep r) = ApplyCh r"
  "lastApplied (takeTimerReset r) = lastApplied r" "lastApplied (replicateToPeer_reply p args rep r) = lastApplied r"
  "lastApplied (snd (Propose c r)) = lastApplied r"
  by (simp_all add: becomeFollowerLocked_def ResetElectionTimer_def advanceCommitIndexLocked_def RequestVote_def Propose_def takeTimerReset_def
      replicateToPeer_reply_def Let_def)

lemma ApplyCh_handlers:
  "AppendEntries args r = Inr (rep, r') \<Longrightarrow> ApplyCh r' = ApplyCh r" "electionTimeout r = (True, r') \<Longrightarrow> ApplyCh r' = ApplyCh r \<and> lastApplied r' = lastApplied r"
  "startElection_reply reply el r = (el', r') \<Longrightarrow> ApplyCh r' = ApplyCh r \<and> lastApplied r' = lastApplied r"
proof -
  show "AppendEntries args r = Inr (rep, r') \<Longrightarrow> ApplyCh r' = ApplyCh r"
    by (auto simp: AppendEntries_Inr aeAppend_Inr aeCommit_def Let_def)
  show "electionTimeout r = (True, r') \<Longrightarrow> ApplyCh r' = ApplyCh r \<and> lastApplied r' = lastApplied r" by (auto simp: electionTimeout_True)
  assume "startElection_reply reply el r = (el', r')"
  then show "ApplyCh r' = ApplyCh r \<and> lastApplied r' = lastApplied r" by (cases rule: startElection_reply_shape) simp_all
qed

lemma restart_channel:
  assumes "nodeOK E ps i r" "persister r = Some p" "lastIncludedIndex r = 0"
  shows "ApplyCh (NewRaftWithPersister i (peers r) p) = []" "lastApplied (NewRaftWithPersister i (peers r) p) = 0"
  using restart_plain(7) [OF assms(1,2) refl assms(3)]
  by (simp_all add: NewRaftWithPersister_def newRaft_def restoreLocked_def Let_def split: option.split)

text \<open>A step extends the channel of one node by one message, empties it by a restart, or leaves all channels alone.\<close>

lemma rstep_channel:
  assumes step: "rstep E S S'" and inv: "ninv E ps S"
  obtains (same) "\<forall>i. ApplyCh (nd S' i) = ApplyCh (nd S i) \<and> lastApplied (nd S' i) = lastApplied (nd S i)" "applied S' = applied S"
    "epoch (cl S') = epoch (cl S)"
  | (more) i m where "i \<in> E" "ApplyCh (nd S' i) = ApplyCh (nd S i) @ [m]" "lastApplied (nd S' i) = lastApplied (nd S i) + 1"
      "msgIndex m = lastApplied (nd S i) + 1" "\<forall>j. j \<noteq> i \<longrightarrow> nd S' j = nd S j" "applied S' = insert (i, m) (applied S)"
      "epoch (cl S') = epoch (cl S)"
  | (restart) i where "i \<in> E" "ApplyCh (nd S' i) = []" "lastApplied (nd S' i) = 0" "\<forall>j. j \<noteq> i \<longrightarrow> nd S' j = nd S j" "applied S' = applied S"
      "epoch (cl S') i = epoch (cl S) i + 1"
  using step
proof cases
  case (deliver i r')
  then show ?thesis by (intro more [of i "last (ApplyCh r')"]) (auto simp: applyPendingStep_Some)
next
  case (crash i p)
  have "nodeOK E ps i (nd S i)" "lastIncludedIndex (nd S i) = 0"
    using ninvD(1) [OF inv] ninvD(3) [OF inv crash(2)] crash(2) by (simp_all add: cinv_def plain_def)
  then show ?thesis using restart_channel [OF _ crash(3)] crash(1,2) by (intro restart [of i]) (simp_all add: restartNode_def)
next
  case (propose i cmd res r')
  then show ?thesis using ApplyCh_frame(5) [of cmd "nd S i"] ApplyCh_frame(10) [of cmd "nd S i"] by (intro same) simp_all
next
  case (request k run p reply r')
  then have r': "r' = snd (RequestVote (elArgs (runEl run)) (nd S p))" by simp
  show ?thesis by (rule same) (simp_all add: request(1) r')
next
  case (timeout i r')
  then show ?thesis using ApplyCh_handlers(2) by (intro same) auto
next
  case (reply k run p rep i el' r')
  have "ApplyCh r' = ApplyCh (nd S i) \<and> lastApplied r' = lastApplied (nd S i)" using ApplyCh_handlers(3) [OF reply(8)] .
  then show ?thesis by (intro same) (simp_all add: reply(1))
next
  case (handle i p args rep r')
  have "ApplyCh r' = ApplyCh (nd S p)" "lastApplied r' = lastApplied (nd S p)"
    using ApplyCh_handlers(1) [OF handle(3)] AppendEntries_frame(10) [OF handle(3)] by simp_all
  then show ?thesis by (intro same) (simp_all add: handle(1) Let_def)
qed (auto intro!: same)

lemma channelOk_step:
  assumes step: "rstep E S S'" and inv: "ninv E ps S" and ok: "\<forall>i. channelOk S i" "\<forall>i. 0 \<le> lastApplied (nd S i)"
  shows "(\<forall>i. channelOk S' i) \<and> (\<forall>i. 0 \<le> lastApplied (nd S' i))"
  using step inv
proof (cases rule: rstep_channel)
  case same
  then show ?thesis using ok by (simp add: channelOk_def Let_def)
next
  case (more i m)
  have "channelOk S' j \<and> 0 \<le> lastApplied (nd S' j)" for j
  proof (cases "j = i")
    case True
    have "length (ApplyCh (nd S i)) = nat (lastApplied (nd S i))" "0 \<le> lastApplied (nd S i)" using ok by (simp_all add: channelOk_def Let_def)
    then show ?thesis using True ok(1) more by (auto simp: channelOk_def Let_def nth_append less_Suc_eq nat_add_distrib)
  next
    case False
    then show ?thesis using ok more(5,6) by (auto simp: channelOk_def Let_def)
  qed
  then show ?thesis by blast
next
  case (restart i)
  have "channelOk S' j \<and> 0 \<le> lastApplied (nd S' j)" for j
    using ok restart by (cases "j = i") (auto simp: channelOk_def Let_def)
  then show ?thesis by blast
qed

lemma channelOk_reachable:
  assumes "reachableN E ps S" "peersOK E ps"
  shows "(\<forall>i. channelOk S i) \<and> (\<forall>i. 0 \<le> lastApplied (nd S i))"
  using assms(1)
proof (induction rule: reachableN.induct)
  case init
  then show ?case
    by (simp add: channelOk_def initCluster_def NewRaftWithPersister_def newRaft_def restoreLocked_def NewMemoryPersister_def ReadState_def)
next
  case (step S S')
  then show ?case using channelOk_step [OF step.hyps(2) ninv_reachable [OF step.hyps(1) assms(2)]] by blast
qed

text \<open>Two nodes are given the same messages, as far as both have got.\<close>

lemma channels_agree:
  assumes "reachableN E ps S" "peersOK E ps" "k < length (ApplyCh (nd S i))" "k < length (ApplyCh (nd S j))"
  shows "ApplyCh (nd S i) ! k = ApplyCh (nd S j) ! k"
proof -
  have "channelOk S i" "channelOk S j" using channelOk_reachable [OF assms(1,2)] by auto
  then have "(i, ApplyCh (nd S i) ! k) \<in> applied S" "(j, ApplyCh (nd S j) ! k) \<in> applied S"
    "msgIndex (ApplyCh (nd S i) ! k) = msgIndex (ApplyCh (nd S j) ! k)" using assms(3,4) by (simp_all add: channelOk_def Let_def)
  moreover have "finite E" using assms(2) by (simp add: peersOK_def)
  ultimately show ?thesis using delivered_unique [OF ninv_reachable [OF assms(1,2)]] by blast
qed

section \<open>An example run\<close>

text \<open>
  Three nodes. Node 1 wins the election of term 1 with the vote of node 2, accepts the command 7, replicates it to node 2, commits and
  delivers it; the next heartbeat tells node 2, which delivers it too. \<open>runAt\<close> keeps what the steps need of the state.
\<close>

definition runAt :: "('c, 'd) Net \<Rightarrow> ('c, 'd) Raft \<Rightarrow> ('c, 'd) Raft \<Rightarrow> nat \<Rightarrow> Run list \<Rightarrow> 'c replCall \<Rightarrow> bool" where
  "runAt S a b sp es x \<longleftrightarrow> nd S 1 = a \<and> nd S 2 = b \<and> spawned (cl S) 1 = sp \<and> epoch (cl S) 1 = 0 \<and> elections (cl S) = es \<and> calls S 1 2 = x"

text \<open>A step in which no node restarts.\<close>

definition quietStep :: "('c, 'd) Net \<Rightarrow> ('c, 'd) Net \<Rightarrow> bool" where
  "quietStep S S' \<longleftrightarrow> rstep {1, 2, 3} S S' \<and> epoch (cl S') = epoch (cl S) \<and> applied S \<subseteq> applied S'"

lemma quiet_reachable: "quietStep\<^sup>*\<^sup>* S S' \<Longrightarrow> reachableN {1, 2, 3} ps S \<Longrightarrow> reachableN {1, 2, 3} ps S'"
  by (induction rule: rtranclp_induct) (auto simp: quietStep_def intro: reachableN.step)

lemma runAt_step:
  assumes "runAt S a b sp es x" "rstep {1, 2, 3} S S'" "nd S' 1 = a'" "nd S' 2 = b'" "spawned (cl S') 1 = sp'" "epoch (cl S') = epoch (cl S)"
    "elections (cl S') = es'" "calls S' 1 2 = x'" "applied S \<subseteq> applied S'"
  shows "\<exists>S'. quietStep S S' \<and> runAt S' a' b' sp' es' x'"
  using assms unfolding runAt_def quietStep_def by (intro exI [of _ S']) auto

lemma run_propose: "runAt S a b sp es x \<Longrightarrow> \<exists>S'. quietStep S S' \<and> runAt S' (snd (Propose c a)) b sp es x"
  by (rule runAt_step [OF _ rstep.propose [of 1 _ c S "fst (Propose c a)" "snd (Propose c a)"]]) (auto simp: runAt_def)

lemma run_send:
  assumes "runAt S a b sp es NoCall" "replicateToPeer_begin 2 a = Inr (ReplAppendEntries args)" "2 \<in> set (peers a)"
  shows "\<exists>S'. quietStep S S' \<and> runAt S' a b sp es (Sent args)"
  by (rule runAt_step [OF assms(1) rstep.send [of 1 _ 2 S args]]) (use assms in \<open>auto simp: runAt_def\<close>)

lemma run_handle:
  assumes "runAt S a b sp es (Sent args)" "AppendEntries args b = Inr (rep, b')"
  shows "\<exists>S'. quietStep S S' \<and> runAt S' a b' sp es (Answered args rep)"
  by (rule runAt_step [OF assms(1) rstep.handle [of S 1 2 args rep b']]) (use assms in \<open>auto simp: runAt_def Let_def\<close>)

lemma run_returns:
  assumes "runAt S a b sp es (Answered args rep)"
  shows "\<exists>S'. quietStep S S' \<and> runAt S' (replicateToPeer_reply 2 args rep a) b sp es NoCall"
  by (rule runAt_step [OF assms(1) rstep.returns [of S 1 2 args rep]]) (use assms in \<open>auto simp: runAt_def\<close>)

lemma run_deliver:
  assumes "runAt S a b sp es x" "i = 1 \<or> i = 2" "applyPendingStep (nd S i) = Inr (Some r')"
  shows "\<exists>S'. quietStep S S' \<and> runAt S' (if i = 1 then r' else a) (if i = 2 then r' else b) sp es x \<and> (i, last (ApplyCh r')) \<in> applied S'"
proof -
  let ?S = "(putNode i r' S)\<lparr>applied := insert (i, last (ApplyCh r')) (applied S)\<rparr>"
  have "rstep {1, 2, 3} S ?S" using assms by (intro rstep.deliver) auto
  then show ?thesis using assms(1,2) by (intro exI [of _ ?S]) (auto simp: runAt_def quietStep_def)
qed

lemma run_timeout:
  assumes "runAt S a b sp es x" "electionTimeout a = (True, a')"
  shows "\<exists>S'. quietStep S S' \<and> runAt S' a' b (Suc sp) es x"
  by (rule runAt_step [OF assms(1) rstep.timeout [of 1 _ S a']]) (use assms in \<open>auto simp: runAt_def\<close>)

lemma run_begins:
  assumes "runAt S a b (Suc sp) [] x"
  shows "\<exists>S'. quietStep S S' \<and> runAt S' a b sp [\<lparr>runNode = 1, runEpoch = 0, runEl = startElection_begin a, runCalls = (\<lambda>_. Pending)\<rparr>] x"
  by (rule runAt_step [OF assms rstep.begins [of 1]]) (use assms in \<open>auto simp: runAt_def newRun_def\<close>)

lemma run_request:
  assumes "runAt S a b sp [run] x" "2 \<in> set (elPeers (runEl run))" "runCalls run 2 = Pending" "RequestVote (elArgs (runEl run)) b = (rep, b')"
  shows "\<exists>S'. quietStep S S' \<and> runAt S' a b' sp [run\<lparr>runCalls := (runCalls run)(2 := Replied rep)\<rparr>] x"
  by (rule runAt_step [OF assms(1) rstep.request [of 0 S run 2 rep b']]) (use assms in \<open>auto simp: runAt_def\<close>)

lemma run_reply:
  assumes "runAt S a b sp [run] x" "2 \<in> set (elPeers (runEl run))" "runCalls run 2 = Replied rep" "runNode run = 1" "runEpoch run = 0"
    "startElection_reply rep (runEl run) a = (el', a')"
  shows "\<exists>S' es. quietStep S S' \<and> runAt S' a' b sp es x"
proof -
  have "rstep {1, 2, 3} S ((putNode 1 a' S)\<lparr>cl := (setNode 1 a' (cl S))\<lparr>elections := (elections (cl S))[0 :=
        run\<lparr>runEl := el', runCalls := (runCalls run)(2 := (if elVotes (runEl run) < elVotes el' then Counted else Dismissed))\<rparr>]\<rparr>\<rparr>)"
    using assms by (intro rstep.reply) (auto simp: runAt_def)
  from runAt_step [OF assms(1) this refl refl refl _ refl refl] show ?thesis using assms(1) by (auto simp: runAt_def)
qed

definition exNode :: "int \<Rightarrow> int list \<Rightarrow> serverState \<Rightarrow> int \<Rightarrow> 'c LogEntry list \<Rightarrow> int \<Rightarrow> int \<Rightarrow> ('c, 'd) ApplyMsg list \<Rightarrow>
    (int \<rightharpoonup> int) \<Rightarrow> (int \<rightharpoonup> int) \<Rightarrow> bool \<Rightarrow> ('c, 'd) Raft" where
  "exNode i ps st t es ci la ch nx mt tr = \<lparr>rid = i, peers = ps,
     persister = Some \<lparr>pstate = Some \<lparr>CurrentTerm = t, VotedFor = 1, Log = es, LastIncludedIndex = 0, LastIncludedTerm = 0\<rparr>, psnapshot = None\<rparr>,
     state = st, currentTerm = t, votedFor = 1, log = es, lastIncludedIndex = 0, lastIncludedTerm = 0, snapshotData = None,
     commitIndex = ci, lastApplied = la, pendingSnapshot = None, nextIndex = nx, matchIndex = mt, ApplyCh = ch, resetElectionTimer = tr\<rparr>"

abbreviation exEntry :: "'c \<Rightarrow> 'c LogEntry" where
  "exEntry c \<equiv> \<lparr>entryTerm = 1, entryCommand = c\<rparr>"

lemmas ex_eval = exNode_def Let_def persistLocked_def SaveState_def encodeStateLocked_def lastLogInfoLocked_def

lemma ex_timeout:
  "electionTimeout (NewRaftWithPersister 1 [2, 3] NewMemoryPersister) = (True, exNode 1 [2, 3] Candidate 1 [] 0 0 [] Map.empty Map.empty False)"
  by (simp add: electionTimeout_def becomeCandidateLocked_def NewRaftWithPersister_def newRaft_def restoreLocked_def NewMemoryPersister_def
      ReadState_def ex_eval)

lemma ex_begin:
  "startElection_begin (exNode 1 [2, 3] Candidate 1 [] 0 0 [] Map.empty Map.empty False) =
     \<lparr>elArgs = \<lparr>rvTerm = 1, rvCandidateID = 1, rvLastLogIndex = 0, rvLastLogTerm = 0\<rparr>, elPeers = [2, 3], elVotes = 1\<rparr>"
  by (simp add: startElection_begin_def ex_eval)

lemma ex_vote:
  "RequestVote \<lparr>rvTerm = 1, rvCandidateID = 1, rvLastLogIndex = 0, rvLastLogTerm = 0\<rparr> (NewRaftWithPersister 2 [1, 3] NewMemoryPersister) =
     (\<lparr>rvrTerm = 1, rvrVoteGranted = True\<rparr>, exNode 2 [1, 3] Follower 1 [] 0 0 [] Map.empty Map.empty True)"
  by (simp add: RequestVote_def becomeFollowerLocked_def ResetElectionTimer_def candidateLogIsUpToDateLocked_def NewRaftWithPersister_def
      newRaft_def restoreLocked_def NewMemoryPersister_def ReadState_def ex_eval)

lemma ex_wins:
  "snd (startElection_reply \<lparr>rvrTerm = 1, rvrVoteGranted = True\<rparr>
      \<lparr>elArgs = \<lparr>rvTerm = 1, rvCandidateID = 1, rvLastLogIndex = 0, rvLastLogTerm = 0\<rparr>, elPeers = [2, 3], elVotes = 1\<rparr>
      (exNode 1 [2, 3] Candidate 1 [] 0 0 [] Map.empty Map.empty False)) =
     exNode 1 [2, 3] Leader 1 [] 0 0 [] [3 \<mapsto> 1, 2 \<mapsto> 1] [3 \<mapsto> 0, 2 \<mapsto> 0] False"
  by (simp add: startElection_reply_def becomeLeaderLocked_def elMajority_def ex_eval)

lemma ex_propose:
  "snd (Propose c (exNode 1 [2, 3] Leader 1 [] 0 0 [] [3 \<mapsto> 1, 2 \<mapsto> 1] [3 \<mapsto> 0, 2 \<mapsto> 0] False)) =
     exNode 1 [2, 3] Leader 1 [exEntry c] 0 0 [] [3 \<mapsto> 1, 2 \<mapsto> 1] [3 \<mapsto> 0, 2 \<mapsto> 0] False"
  by (simp add: Propose_def advanceCommitIndexLocked_def commitCandidate_def sort_desc_def get0_def ex_eval)

lemma ex_send:
  "replicateToPeer_begin 2 (exNode 1 [2, 3] Leader 1 [exEntry c] 0 0 [] [3 \<mapsto> 1, 2 \<mapsto> 1] [3 \<mapsto> 0, 2 \<mapsto> 0] False) =
     Inr (ReplAppendEntries \<lparr>aeTerm = 1, aeLeaderID = 1, aePrevLogIndex = 0, aePrevLogTerm = 0, aeEntries = [exEntry c], aeLeaderCommit = 0\<rparr>)"
  by (simp add: replicateToPeer_begin_def slice_from_def physicalIndexLocked_def get0_def ex_eval)

lemma ex_accept:
  "AppendEntries \<lparr>aeTerm = 1, aeLeaderID = 1, aePrevLogIndex = 0, aePrevLogTerm = 0, aeEntries = [exEntry c], aeLeaderCommit = 0\<rparr>
      (exNode 2 [1, 3] Follower 1 [] 0 0 [] Map.empty Map.empty True) =
     Inr (\<lparr>aerTerm = 1, aerSuccess = True\<rparr>, exNode 2 [1, 3] Follower 1 [exEntry c] 0 0 [] Map.empty Map.empty True)"
  by (simp add: AppendEntries_def aeConsistent_def aeAppend_def aeCommit_def becomeFollowerLocked_def ResetElectionTimer_def slice_to_def
      physicalIndexLocked_def ex_eval)

lemma ex_commit:
  "replicateToPeer_reply 2 \<lparr>aeTerm = 1, aeLeaderID = 1, aePrevLogIndex = 0, aePrevLogTerm = 0, aeEntries = [exEntry c], aeLeaderCommit = 0\<rparr>
      \<lparr>aerTerm = 1, aerSuccess = True\<rparr> (exNode 1 [2, 3] Leader 1 [exEntry c] 0 0 [] [3 \<mapsto> 1, 2 \<mapsto> 1] [3 \<mapsto> 0, 2 \<mapsto> 0] False) =
     exNode 1 [2, 3] Leader 1 [exEntry c] 1 0 [] [3 \<mapsto> 1, 2 \<mapsto> 2] [3 \<mapsto> 0, 2 \<mapsto> 1] False"
  by (simp add: replicateToPeer_reply_def advanceCommitIndexLocked_def commitCandidate_def sort_desc_def termAtLocked_def physicalIndexLocked_def
      get0_def ex_eval)

lemma ex_deliver:
  "applyPendingStep (exNode i ps st 1 [exEntry c] 1 0 [] nx mt tr) = Inr (Some (exNode i ps st 1 [exEntry c] 1 1 [CommandMsg 1 1 c] nx mt tr))"
  by (simp add: applyPendingStep_def index_at_def physicalIndexLocked_def ex_eval)

lemma ex_heartbeat:
  "replicateToPeer_begin 2 (exNode 1 [2, 3] Leader 1 [exEntry c] 1 1 [CommandMsg 1 1 c] [3 \<mapsto> 1, 2 \<mapsto> 2] [3 \<mapsto> 0, 2 \<mapsto> 1] False) =
     Inr (ReplAppendEntries \<lparr>aeTerm = 1, aeLeaderID = 1, aePrevLogIndex = 1, aePrevLogTerm = 1, aeEntries = [], aeLeaderCommit = 1\<rparr>)"
  by (simp add: replicateToPeer_begin_def termAtLocked_def physicalIndexLocked_def get0_def ex_eval)

lemma ex_follow:
  "AppendEntries \<lparr>aeTerm = 1, aeLeaderID = 1, aePrevLogIndex = 1, aePrevLogTerm = 1, aeEntries = [], aeLeaderCommit = 1\<rparr>
      (exNode 2 [1, 3] Follower 1 [exEntry c] 0 0 [] Map.empty Map.empty True) =
     Inr (\<lparr>aerTerm = 1, aerSuccess = True\<rparr>, exNode 2 [1, 3] Follower 1 [exEntry c] 1 0 [] Map.empty Map.empty True)"
  by (simp add: AppendEntries_def aeConsistent_def aeAppend_def aeCommit_def becomeFollowerLocked_def ResetElectionTimer_def termAtLocked_def
      physicalIndexLocked_def ex_eval)


text \<open>The states of the run: node 1 as leader and node 2 as follower.\<close>

abbreviation exLead :: "'c LogEntry list \<Rightarrow> int \<Rightarrow> int \<Rightarrow> ('c, 'd) ApplyMsg list \<Rightarrow> int \<Rightarrow> int \<Rightarrow> ('c, 'd) Raft" where
  "exLead es ci la ch nx mt \<equiv> exNode 1 [2, 3] Leader 1 es ci la ch [3 \<mapsto> 1, 2 \<mapsto> nx] [3 \<mapsto> 0, 2 \<mapsto> mt] False"

abbreviation exFollow :: "'c LogEntry list \<Rightarrow> int \<Rightarrow> int \<Rightarrow> ('c, 'd) ApplyMsg list \<Rightarrow> ('c, 'd) Raft" where
  "exFollow es ci la ch \<equiv> exNode 2 [1, 3] Follower 1 es ci la ch Map.empty Map.empty True"

lemma ex_peer: "2 \<in> set (peers (exNode 1 [2, 3] st t e ci la ch nx mt tr))"
  by (simp add: exNode_def)

lemma ex_elected: "\<exists>(S :: ('c, 'd) Net) es. quietStep\<^sup>*\<^sup>* (initNet exPeers) S \<and> runAt S (exLead [] 0 0 [] 1 0) (exFollow [] 0 0 []) 0 es NoCall"
proof -
  let ?n2 = "NewRaftWithPersister 2 [1, 3] NewMemoryPersister" and ?c1 = "exNode 1 [2, 3] Candidate 1 [] 0 0 [] Map.empty Map.empty False"
  let ?el = "\<lparr>elArgs = \<lparr>rvTerm = 1, rvCandidateID = 1, rvLastLogIndex = 0, rvLastLogTerm = 0\<rparr>, elPeers = [2, 3], elVotes = 1\<rparr>"
  let ?yes = "\<lparr>rvrTerm = 1, rvrVoteGranted = True\<rparr>"
  let ?run = "\<lparr>runNode = 1, runEpoch = 0, runEl = ?el, runCalls = (\<lambda>_. Pending)\<rparr>"
  have "runAt (initNet exPeers :: ('c, 'd) Net) (NewRaftWithPersister 1 [2, 3] NewMemoryPersister) ?n2 0 [] NoCall"
    by (simp add: runAt_def boot_node exPeers_def)
  then obtain S1 :: "('c, 'd) Net" where S1: "quietStep (initNet exPeers) S1" "runAt S1 ?c1 ?n2 (Suc 0) [] NoCall" using run_timeout [OF _ ex_timeout] by blast
  obtain S2 where S2: "quietStep S1 S2" "runAt S2 ?c1 ?n2 0 [?run] NoCall" using run_begins [OF S1(2)] unfolding ex_begin by blast
  obtain S3 where S3: "quietStep S2 S3" "runAt S3 ?c1 (exFollow [] 0 0 []) 0 [?run\<lparr>runCalls := (\<lambda>_. Pending)(2 := Replied ?yes)\<rparr>] NoCall"
    using run_request [OF S2(2)] ex_vote by force
  obtain S4 es where S4: "quietStep S3 S4" "runAt S4 (exLead [] 0 0 [] 1 0) (exFollow [] 0 0 []) 0 es NoCall"
    using run_reply [OF S3(2), of ?yes, where el' = "fst (startElection_reply ?yes ?el ?c1)" and a' = "exLead [] 0 0 [] 1 0"]
    by (auto simp: prod_eq_iff ex_wins [simplified])
  have "quietStep\<^sup>*\<^sup>* (initNet exPeers) S4" using S1(1) S2(1) S3(1) S4(1) by (meson rtranclp.rtrancl_into_rtrancl rtranclp.rtrancl_refl)
  then show ?thesis using S4(2) by blast
qed

lemma ex_committed:
  assumes "runAt S (exLead [exEntry c] 0 0 [] 1 0) (exFollow [] 0 0 []) 0 es NoCall"
  shows "\<exists>S'. quietStep\<^sup>*\<^sup>* S S' \<and> runAt S' (exLead [exEntry c] 1 1 [CommandMsg 1 1 c] 2 1) (exFollow [exEntry c] 0 0 []) 0 es NoCall \<and>
    (1, CommandMsg 1 1 c) \<in> applied S'"
proof -
  let ?args = "\<lparr>aeTerm = 1, aeLeaderID = 1, aePrevLogIndex = 0, aePrevLogTerm = 0, aeEntries = [exEntry c], aeLeaderCommit = 0\<rparr>"
  obtain S2 where S2: "quietStep S S2" "runAt S2 (exLead [exEntry c] 0 0 [] 1 0) (exFollow [] 0 0 []) 0 es (Sent ?args)"
    using run_send [OF assms ex_send ex_peer] by blast
  obtain S3 where S3: "quietStep S2 S3" "runAt S3 (exLead [exEntry c] 0 0 [] 1 0) (exFollow [exEntry c] 0 0 []) 0 es
      (Answered ?args \<lparr>aerTerm = 1, aerSuccess = True\<rparr>)" using run_handle [OF S2(2) ex_accept] by blast
  obtain S4 where S4: "quietStep S3 S4" "runAt S4 (exLead [exEntry c] 1 0 [] 2 1) (exFollow [exEntry c] 0 0 []) 0 es NoCall"
    using run_returns [OF S3(2)] unfolding ex_commit by blast
  have "applyPendingStep (nd S4 1) = Inr (Some (exLead [exEntry c] 1 1 [CommandMsg 1 1 c] 2 1))" using S4(2) ex_deliver by (simp add: runAt_def)
  from run_deliver [OF S4(2) _ this] obtain S5 where S5: "quietStep S4 S5"
    "runAt S5 (exLead [exEntry c] 1 1 [CommandMsg 1 1 c] 2 1) (exFollow [exEntry c] 0 0 []) 0 es NoCall" "(1, CommandMsg 1 1 c) \<in> applied S5"
    by (auto simp: exNode_def)
  have "quietStep\<^sup>*\<^sup>* S S5" using S2(1) S3(1) S4(1) S5(1) by (meson rtranclp.rtrancl_into_rtrancl rtranclp.rtrancl_refl)
  then show ?thesis using S5(2,3) by blast
qed

lemma ex_followed:
  assumes "runAt S (exLead [exEntry c] 1 1 [CommandMsg 1 1 c] 2 1) (exFollow [exEntry c] 0 0 []) 0 es NoCall"
  shows "\<exists>S' x. quietStep\<^sup>*\<^sup>* S S' \<and> runAt S' (exLead [exEntry c] 1 1 [CommandMsg 1 1 c] 2 1) (exFollow [exEntry c] 1 1 [CommandMsg 1 1 c]) 0 es x \<and>
    (2, CommandMsg 1 1 c) \<in> applied S' \<and> applied S \<subseteq> applied S'"
proof -
  let ?a = "exLead [exEntry c] 1 1 [CommandMsg 1 1 c] 2 1"
  let ?args = "\<lparr>aeTerm = 1, aeLeaderID = 1, aePrevLogIndex = 1, aePrevLogTerm = 1, aeEntries = [], aeLeaderCommit = 1\<rparr>"
  obtain S2 where S2: "quietStep S S2" "runAt S2 ?a (exFollow [exEntry c] 0 0 []) 0 es (Sent ?args)"
    using run_send [OF assms ex_heartbeat ex_peer] by blast
  obtain S3 where S3: "quietStep S2 S3" "runAt S3 ?a (exFollow [exEntry c] 1 0 []) 0 es (Answered ?args \<lparr>aerTerm = 1, aerSuccess = True\<rparr>)"
    using run_handle [OF S2(2) ex_follow] by blast
  have "applyPendingStep (nd S3 2) = Inr (Some (exFollow [exEntry c] 1 1 [CommandMsg 1 1 c]))" using S3(2) ex_deliver by (simp add: runAt_def)
  from run_deliver [OF S3(2) _ this] obtain S4 where S4: "quietStep S3 S4"
    "runAt S4 ?a (exFollow [exEntry c] 1 1 [CommandMsg 1 1 c]) 0 es (Answered ?args \<lparr>aerTerm = 1, aerSuccess = True\<rparr>)" "(2, CommandMsg 1 1 c) \<in> applied S4"
    by (auto simp: exNode_def)
  have "quietStep\<^sup>*\<^sup>* S S4" using S2(1) S3(1) S4(1) by (meson rtranclp.rtrancl_into_rtrancl rtranclp.rtrancl_refl)
  moreover have "applied S \<subseteq> applied S4" using S2(1) S3(1) S4(1) by (auto simp: quietStep_def)
  ultimately show ?thesis using S4(2,3) by blast
qed

lemma ex_delivered: "\<exists>S :: ('c, 'd) Net. reachableN {1, 2, 3} exPeers S \<and> {(1, CommandMsg 1 1 c), (2, CommandMsg 1 1 c)} \<subseteq> applied S \<and>
    nd S 1 = exLead [exEntry c] 1 1 [CommandMsg 1 1 c] 2 1 \<and> nd S 2 = exFollow [exEntry c] 1 1 [CommandMsg 1 1 c]"
proof -
  obtain S :: "('c, 'd) Net" and es where S: "quietStep\<^sup>*\<^sup>* (initNet exPeers) S" "runAt S (exLead [] 0 0 [] 1 0) (exFollow [] 0 0 []) 0 es NoCall"
    using ex_elected by blast
  obtain S1 where S1: "quietStep S S1" "runAt S1 (exLead [exEntry c] 0 0 [] 1 0) (exFollow [] 0 0 []) 0 es NoCall"
    using run_propose [OF S(2), of c] unfolding ex_propose by blast
  obtain S2 where S2: "quietStep\<^sup>*\<^sup>* S1 S2" "runAt S2 (exLead [exEntry c] 1 1 [CommandMsg 1 1 c] 2 1) (exFollow [exEntry c] 0 0 []) 0 es NoCall"
    "(1, CommandMsg 1 1 c) \<in> applied S2" using ex_committed [OF S1(2)] by blast
  obtain S3 x where S3: "quietStep\<^sup>*\<^sup>* S2 S3" "runAt S3 (exLead [exEntry c] 1 1 [CommandMsg 1 1 c] 2 1) (exFollow [exEntry c] 1 1 [CommandMsg 1 1 c]) 0 es x"
    "(2, CommandMsg 1 1 c) \<in> applied S3" "applied S2 \<subseteq> applied S3" using ex_followed [OF S2(2)] by blast
  have "quietStep\<^sup>*\<^sup>* (initNet exPeers) S3" using S(1) S1(1) S2(1) S3(1) by (meson rtranclp.rtrancl_into_rtrancl rtranclp_trans)
  then have "reachableN {1, 2, 3} exPeers S3" by (rule quiet_reachable) (rule reachableN.init)
  then show ?thesis using S3(2-4) S2(3) unfolding runAt_def by blast
qed

section \<open>Safety\<close>

text \<open>
  (C1) State machine safety: over the whole history of a run, with crashes, restarts, lost calls and any number of elections, no two
  state machines are ever given different commands for the same log index, nor is one given different commands at different times
  (before and after a restart, say); whatever is delivered is an entry of the log.
\<close>

theorem state_machine_safety:
  assumes "reachableN E ps S" "peersOK E ps" "(i, m) \<in> applied S" "(j, m') \<in> applied S" "msgIndex m = msgIndex m'"
  shows "m = m'"
  by (rule delivered_unique [OF ninv_reachable [OF assms(1,2)] _ assms(3-5)]) (use assms(2) in \<open>simp add: peersOK_def\<close>)

theorem state_machine_safety_witness:
  "\<exists>S :: (nat, nat) Net. reachableN {1, 2, 3} exPeers S \<and> {(1, CommandMsg 1 1 7), (2, CommandMsg 1 1 7)} \<subseteq> applied S \<and>
     (\<forall>i m. (i, m) \<in> applied S \<longrightarrow> msgIndex m = 1 \<longrightarrow> m = CommandMsg 1 1 7)"
proof -
  obtain S :: "(nat, nat) Net" where S: "reachableN {1, 2, 3} exPeers S" "{(1, CommandMsg 1 1 7), (2, CommandMsg 1 1 7)} \<subseteq> applied S"
    using ex_delivered [where 'd = nat and c = "7 :: nat"] by blast
  have "m = CommandMsg 1 1 7" if "(i, m) \<in> applied S" "msgIndex m = 1" for i m
    using state_machine_safety [OF S(1) exPeers_OK that(1), of 1 "CommandMsg 1 1 7"] S(2) that(2) by simp
  then show ?thesis using S by blast
qed


text \<open>
  Log matching: in every reachable state, if two nodes hold entries of the same term at the same index, their logs are equal up to
  and including that entry.
\<close>

theorem logs_match:
  assumes "reachableN E ps S" "peersOK E ps" "i \<in> E" "j \<in> E" "k < length (log (nd S i))" "k < length (log (nd S j))"
    "entryTerm (log (nd S i) ! k) = entryTerm (log (nd S j) ! k)"
  shows "take (Suc k) (log (nd S i)) = take (Suc k) (log (nd S j))"
proof -
  have "ainv E (absN S)" using ninvD(10) [OF ninv_reachable [OF assms(1,2)]] .
  then have "agrees (log (nd S i)) (log (nd S j)) (Suc k)"
    using log_matching [OF _ _ assms(5-7)] ainvD(4) assms(3,4) by fastforce
  then show ?thesis by (simp add: agrees_def)
qed

theorem logs_match_witness:
  "\<exists>S :: (nat, nat) Net. reachableN {1, 2, 3} exPeers S \<and> log (nd S 1) \<noteq> [] \<and> take 1 (log (nd S 1)) = take 1 (log (nd S 2))"
proof -
  obtain S :: "(nat, nat) Net" where S: "reachableN {1, 2, 3} exPeers S" "log (nd S 1) = [exEntry 7]" "log (nd S 2) = [exEntry 7]"
    using ex_delivered [where 'd = nat and c = "7 :: nat"] by (auto simp: exNode_def)
  have "take (Suc 0) (log (nd S 1)) = take (Suc 0) (log (nd S 2))"
    by (rule logs_match [OF S(1) exPeers_OK]) (simp_all add: S(2,3))
  then show ?thesis using S by auto
qed

text \<open>
  (C3) Leader completeness and agreement on what is committed: a node's commit index lies within its log; two nodes agree on every entry
  both have committed; and a leader holds every entry committed by a node whose term is not later than its own, so that a new leader
  never has to give up a committed entry.
\<close>

theorem committed_entries_survive:
  assumes "reachableN E ps S" "peersOK E ps" "i \<in> E" "j \<in> E" "c = nat (commitIndex (nd S i))" "d = nat (commitIndex (nd S j))"
  shows "c \<le> length (log (nd S i)) \<and> take (min c d) (log (nd S i)) = take (min c d) (log (nd S j)) \<and>
     (state (nd S j) = Leader \<and> currentTerm (nd S i) \<le> currentTerm (nd S j) \<longrightarrow>
        c \<le> length (log (nd S j)) \<and> take c (log (nd S i)) = take c (log (nd S j)))"
proof -
  have inv: "ninv E ps S" and fin: "finite E" using ninv_reachable [OF assms(1,2)] assms(2) by (auto simp: peersOK_def)
  note a = ninvD(10) [OF inv]
  have ci: "c = 0 \<or> mayCommit E (absN S) i c" "d = 0 \<or> mayCommit E (absN S) j d"
    using ainvD(8) [OF a assms(3)] ainvD(8) [OF a assms(4)] assms(5,6) by simp_all
  have "c \<le> length (log (nd S i))" using ci(1) by (auto simp: mayCommit_def agrees_def)
  moreover have "take (min c d) (log (nd S i)) = take (min c d) (log (nd S j))"
    using ci commits_agree [OF a fin, of i c j d] by (auto simp: agrees_def)
  moreover have "c \<le> length (log (nd S j)) \<and> take c (log (nd S i)) = take c (log (nd S j))"
    if "state (nd S j) = Leader" "currentTerm (nd S i) \<le> currentTerm (nd S j)"
  proof -
    have "lead S (currentTerm (nd S j)) = Some (log (nd S j))" using ninvD(5) [OF inv assms(4)] that(1) by (simp add: leaderOk_def Let_def)
    then show ?thesis using ci(1) commits_in_leader [OF a fin, of i c "currentTerm (nd S j)" "log (nd S j)"] that(2) by (auto simp: agrees_def)
  qed
  ultimately show ?thesis by blast
qed

theorem committed_entries_survive_witness:
  "\<exists>S :: (nat, nat) Net. reachableN {1, 2, 3} exPeers S \<and> commitIndex (nd S 2) = 1 \<and> take 1 (log (nd S 2)) = take 1 (log (nd S 1))"
proof -
  obtain S :: "(nat, nat) Net" where S: "reachableN {1, 2, 3} exPeers S" "commitIndex (nd S 1) = 1" "commitIndex (nd S 2) = 1"
    using ex_delivered [where 'd = nat and c = "7 :: nat"] by (auto simp: exNode_def)
  have "take (min 1 1) (log (nd S 2)) = take (min 1 1) (log (nd S 1))"
    using committed_entries_survive [OF S(1) exPeers_OK, of 2 1 1 1] S(2,3) by simp
  then show ?thesis using S by auto
qed

text \<open>
  (C4) Refinement: every step of the cluster, whatever handler, timer, reply or crash it is, is a sequence of steps of the abstract
  specification on terms, logs and commit indices, in which a leader is elected by a majority of voters whose logs are no newer than
  its own, entries are written by leaders only, a follower takes over a leader's log without losing what it acknowledged, and a commit
  index moves only to an entry that a majority acknowledged to the leader that wrote it.
\<close>

theorem replication_refines_spec:
  assumes "reachableN E ps S" "peersOK E ps" "rstep E S S'"
  shows "(astep E)\<^sup>*\<^sup>* (absN S) (absN S')"
  by (rule rstep_sim [OF assms(3) ninv_reachable [OF assms(1,2)] assms(2)])

theorem replication_refines_spec_witness:
  "\<exists>(S :: (nat, nat) Net) (S' :: (nat, nat) Net). slog (absN S) 1 = [exEntry 7] \<and> slog (absN S') 1 = [exEntry 7, \<lparr>entryTerm = 1, entryCommand = 8\<rparr>] \<and>
     (astep {1, 2, 3})\<^sup>*\<^sup>* (absN S) (absN S')"
proof -
  obtain S :: "(nat, nat) Net" where S: "reachableN {1, 2, 3} exPeers S" "state (nd S 1) = Leader" "currentTerm (nd S 1) = 1" "log (nd S 1) = [exEntry 7]"
    using ex_delivered [where 'd = nat and c = "7 :: nat"] by (auto simp: exNode_def)
  let ?S = "putNode 1 (snd (Propose 8 (nd S 1))) S"
  have "rstep {1, 2, 3} S ?S" by (rule rstep.propose [of 1 _ 8 S "fst (Propose 8 (nd S 1))"]) simp_all
  then have "(astep {1, 2, 3})\<^sup>*\<^sup>* (absN S) (absN ?S)" by (rule replication_refines_spec [OF S(1) exPeers_OK])
  moreover have "slog (absN ?S) 1 = [exEntry 7, \<lparr>entryTerm = 1, entryCommand = 8\<rparr>]" using S(2-4) by (simp add: Propose_def Let_def)
  ultimately show ?thesis using S(4) by (intro exI [of _ S] exI [of _ ?S]) simp
qed

text \<open>A call under way can always be handled: with nothing compacted \<open>AppendEntries\<close> does not panic.\<close>

lemma sent_call_returns:
  assumes inv: "ninv E ps S" and call: "calls S i p = Sent args"
  shows "\<exists>rep r'. AppendEntries args (nd S p) = Inr (rep, r')"
proof -
  have p: "p \<in> E" using callsInD [OF ninvD(2) [OF inv] call] by simp
  obtain X where "slice X args" using callOk_Sent [OF ninvD(8) [OF inv] call] by blast
  then have prev: "0 \<le> aePrevLogIndex args" by (simp add: slice_def)
  have lii: "lastIncludedIndex (nd S p) = 0" using ninvD(3) [OF inv p] by (simp add: plain_def)
  show ?thesis by (rule AppendEntries_returns) (simp_all add: lii prev)
qed

end
