(* ===== verification/Transport.thy ===== *)
theory Transport
  imports Raft_Safety
begin

text \<open>
  The interface between a node and the network (\<open>src/01-raft/transport.go\<close>) and its two implementations: the in-process
  \<open>FakeTransport\<close> with crashes and partitions (\<open>fake_transport.go\<close>) and \<open>NetTransport\<close> over \<open>net/rpc\<close> with cached
  connections (\<open>net_transport.go\<close>). The nodes are a map from ids to their state, a handler runs on the state of the node called.
  The locale \<open>raft_transport\<close> states what the nodes rely on; in it, a call of \<open>replicateToPeer\<close> or of an election goroutine through
  any transport is a run of the step relation of \<open>Raft_Replication\<close>, and both implementations are interpretations of it.
\<close>

section \<open>The interface\<close>

type_synonym ('c, 'd) nodes = "int \<Rightarrow> ('c, 'd) Raft"

type_synonym ('c, 'd, 'r) handler = "('c, 'd) Raft \<Rightarrow> ('r \<times> ('c, 'd) Raft) res"

text \<open>The result of a call: the reply, or \<open>None\<close> for an error of the call; the nodes and the transport afterwards; a panic of the handler.\<close>

type_synonym ('c, 'd, 'r, 't) outcome = "('r option \<times> ('c, 'd) nodes \<times> 't) res"

text \<open>
  What a call may have done: failed with the peer untouched, or run the handler on the peer, once, and lost its reply or returned it.
\<close>

definition delivered :: "('c, 'd, 'r) handler \<Rightarrow> int \<Rightarrow> ('c, 'd) nodes \<Rightarrow> 'r option \<Rightarrow> ('c, 'd) nodes \<Rightarrow> bool" where
  "delivered handler p ns rep ns' \<longleftrightarrow>
     (rep = None \<and> ns' = ns) \<or> (\<exists>reply r'. handler (ns p) = Inr (reply, r') \<and> ns' = ns(p := r') \<and> (rep = None \<or> rep = Some reply))"

text \<open>The law of a call: a panic is that of the handler on the peer; otherwise the call did one of these and kept the transport in order.\<close>

definition callLaw :: "('t \<Rightarrow> bool) \<Rightarrow> ('c, 'd, 'r) handler \<Rightarrow> int \<Rightarrow> ('c, 'd) nodes \<Rightarrow> ('c, 'd, 'r, 't) outcome \<Rightarrow> bool" where
  "callLaw ok handler p ns out \<longleftrightarrow>
     (case out of Inl err \<Rightarrow> handler (ns p) = Inl err | Inr (rep, ns', t') \<Rightarrow> delivered handler p ns rep ns' \<and> ok t')"

lemma callLawD: "callLaw ok handler p ns out \<Longrightarrow> out = Inr (rep, ns', t') \<Longrightarrow> delivered handler p ns rep ns' \<and> ok t'"
  by (simp add: callLaw_def)

lemma callLaw_returns: "callLaw ok handler p ns out \<Longrightarrow> handler (ns p) = Inr x \<Longrightarrow> \<exists>y. out = Inr y"
  by (cases out) (auto simp: callLaw_def)

definition onVote :: "RequestVoteArgs \<Rightarrow> ('c, 'd, RequestVoteReply) handler" where
  "onVote args r = Inr (RequestVote args r)"

text \<open>The three users of a transport: a replication round to one peer, and one peer's goroutine of an election.\<close>

definition replicateOver ::
    "('e \<Rightarrow> int \<Rightarrow> 'c AppendEntriesArgs \<Rightarrow> ('c, 'd) nodes \<Rightarrow> 't \<Rightarrow> ('c, 'd, AppendEntriesReply, 't) outcome) \<Rightarrow>
     ('e \<Rightarrow> int \<Rightarrow> 'd InstallSnapshotArgs \<Rightarrow> ('c, 'd) nodes \<Rightarrow> 't \<Rightarrow> ('c, 'd, InstallSnapshotReply, 't) outcome) \<Rightarrow>
     'e \<Rightarrow> int \<Rightarrow> int \<Rightarrow> ('c, 'd) nodes \<Rightarrow> 't \<Rightarrow> (('c, 'd) nodes \<times> 't) res" where
  "replicateOver callAE callIS e i p ns t =
     (case replicateToPeer_begin p (ns i) of
        Inl err \<Rightarrow> Inl err
      | Inr ReplNothing \<Rightarrow> Inr (ns, t)
      | Inr ReplInstallSnapshot \<Rightarrow>
          (case sendInstallSnapshot_begin (ns i) of
             None \<Rightarrow> Inr (ns, t)
           | Some args \<Rightarrow>
               (case callIS e p args ns t of
                  Inl err \<Rightarrow> Inl err
                | Inr (None, ns1, t1) \<Rightarrow> Inr (ns1, t1)
                | Inr (Some rep, ns1, t1) \<Rightarrow> Inr (ns1(i := sendInstallSnapshot_reply p args rep (ns1 i)), t1)))
      | Inr (ReplAppendEntries args) \<Rightarrow>
          (case callAE e p args ns t of
             Inl err \<Rightarrow> Inl err
           | Inr (None, ns1, t1) \<Rightarrow> Inr (ns1, t1)
           | Inr (Some rep, ns1, t1) \<Rightarrow> Inr (ns1(i := replicateToPeer_reply p args rep (ns1 i)), t1)))"

text \<open>
  A tick of \<open>RunHeartbeats\<close>: a leader calls \<open>replicate\<close>, which runs one such round per peer. The rounds run in goroutines of their own; here
  they come one after the other, in an order that the run decides, each with the fate of its call. (How the sections of different rounds
  interleave is the subject of \<open>Raft_Replication\<close>.)
\<close>

fun replicateAll ::
    "('e \<Rightarrow> int \<Rightarrow> 'c AppendEntriesArgs \<Rightarrow> ('c, 'd) nodes \<Rightarrow> 't \<Rightarrow> ('c, 'd, AppendEntriesReply, 't) outcome) \<Rightarrow>
     ('e \<Rightarrow> int \<Rightarrow> 'd InstallSnapshotArgs \<Rightarrow> ('c, 'd) nodes \<Rightarrow> 't \<Rightarrow> ('c, 'd, InstallSnapshotReply, 't) outcome) \<Rightarrow>
     int \<Rightarrow> ('e \<times> int) list \<Rightarrow> ('c, 'd) nodes \<Rightarrow> 't \<Rightarrow> (('c, 'd) nodes \<times> 't) res" where
  "replicateAll callAE callIS i [] ns t = Inr (ns, t)"
| "replicateAll callAE callIS i ((e, p) # rounds) ns t =
     bind_res (replicateOver callAE callIS e i p ns t) (\<lambda>(ns1, t1). replicateAll callAE callIS i rounds ns1 t1)"

definition heartbeatTick ::
    "('e \<Rightarrow> int \<Rightarrow> 'c AppendEntriesArgs \<Rightarrow> ('c, 'd) nodes \<Rightarrow> 't \<Rightarrow> ('c, 'd, AppendEntriesReply, 't) outcome) \<Rightarrow>
     ('e \<Rightarrow> int \<Rightarrow> 'd InstallSnapshotArgs \<Rightarrow> ('c, 'd) nodes \<Rightarrow> 't \<Rightarrow> ('c, 'd, InstallSnapshotReply, 't) outcome) \<Rightarrow>
     int \<Rightarrow> ('e \<times> int) list \<Rightarrow> ('c, 'd) nodes \<Rightarrow> 't \<Rightarrow> (('c, 'd) nodes \<times> 't) res" where
  "heartbeatTick callAE callIS i rounds ns t =
     (if state (ns i) = Leader then replicateAll callAE callIS i rounds ns t else Inr (ns, t))"

definition voteOver ::
    "('e \<Rightarrow> int \<Rightarrow> RequestVoteArgs \<Rightarrow> ('c, 'd) nodes \<Rightarrow> 't \<Rightarrow> ('c, 'd, RequestVoteReply, 't) outcome) \<Rightarrow>
     'e \<Rightarrow> Election \<Rightarrow> int \<Rightarrow> int \<Rightarrow> ('c, 'd) nodes \<Rightarrow> 't \<Rightarrow> (Election \<times> ('c, 'd) nodes \<times> 't) res" where
  "voteOver callRV e el i p ns t =
     (case callRV e p (elArgs el) ns t of
        Inl err \<Rightarrow> Inl err
      | Inr (None, ns1, t1) \<Rightarrow> Inr (el, ns1, t1)
      | Inr (Some rep, ns1, t1) \<Rightarrow> (let (el', r') = startElection_reply rep el (ns1 i) in Inr (el', ns1(i := r'), t1)))"

section \<open>Calls as runs of the step relation\<close>

text \<open>A call of \<open>replicateToPeer\<close>, once its outcome is fixed, is two or three steps: sent, then failed, or handled and failed or returned.\<close>

lemma handled_run:
  assumes S: "i \<in> E" "p \<in> set (peers (nd S i))" "calls S i p = NoCall"
    and "replicateToPeer_begin p (nd S i) = Inr (ReplAppendEntries args)" "AppendEntries args (nd S p) = Inr (reply, r')"
  obtains S2 where "(rstep E)\<^sup>*\<^sup>* S S2" "node (cl S2) = (node (cl S))(p := r')"
    "calls S2 = (calls S)(i := (calls S i)(p := Answered args reply))"
proof -
  let ?S1 = "setCall i p (Sent args) S"
  let ?S2 = "let S1 = setCall i p (Answered args reply) (putNode p r' ?S1)
    in S1\<lparr>acked := acked S1 \<union> (if aerSuccess reply then {(p, aeTerm args, n) |n. int n \<le> aeEnd args} else {})\<rparr>"
  have "rstep E S ?S1" using rstep.send [OF S] assms(4) by simp
  moreover have "rstep E ?S1 ?S2" by (rule rstep.handle) (simp_all add: assms(5))
  ultimately have "(rstep E)\<^sup>*\<^sup>* S ?S2" by (meson r_into_rtranclp rtranclp.rtrancl_into_rtrancl)
  moreover have "node (cl ?S2) = (node (cl S))(p := r')" "calls ?S2 = (calls S)(i := (calls S i)(p := Answered args reply))"
    by (simp_all add: Let_def setNode_def)
  ultimately show thesis by (rule that)
qed

lemma call_ended:
  assumes "calls S i p = NoCall" "calls T = (calls S)(i := (calls S i)(p := x))"
  shows "calls (setCall i p NoCall T) = calls S"
  using assms by (auto simp: fun_eq_iff)

lemma append_call_run:
  assumes S: "i \<in> E" "p \<in> set (peers (nd S i))" "calls S i p = NoCall"
    and msg: "replicateToPeer_begin p (nd S i) = Inr (ReplAppendEntries args)"
    and "delivered (AppendEntries args) p (node (cl S)) rep ns1"
  shows "\<exists>S'. (rstep E)\<^sup>*\<^sup>* S S' \<and> calls S' = calls S \<and>
    node (cl S') = (case rep of None \<Rightarrow> ns1 | Some x \<Rightarrow> ns1(i := replicateToPeer_reply p args x (ns1 i)))"
proof -
  from assms(5) consider (lost) "rep = None" "ns1 = node (cl S)"
    | (run) reply r' where "AppendEntries args (nd S p) = Inr (reply, r')" "ns1 = (node (cl S))(p := r')" "rep = None \<or> rep = Some reply"
    unfolding delivered_def by blast
  then show ?thesis
  proof cases
    case lost
    then show ?thesis by auto
  next
    case run
    obtain S2 where S2: "(rstep E)\<^sup>*\<^sup>* S S2" "node (cl S2) = ns1" "calls S2 = (calls S)(i := (calls S i)(p := Answered args reply))"
      using handled_run [OF S msg run(1)] run(2) by blast
    show ?thesis
    proof (cases rep)
      case None
      have "(rstep E)\<^sup>*\<^sup>* S (setCall i p NoCall S2)" using S2(1) rstep.fails by (meson rtranclp.rtrancl_into_rtrancl)
      then show ?thesis using None S2(2) call_ended [OF S(3) S2(3)] by auto
    next
      case (Some x)
      let ?S3 = "setCall i p NoCall (putNode i (replicateToPeer_reply p args reply (nd S2 i)) S2)"
      have "rstep E S2 ?S3" by (rule rstep.returns) (simp add: S2(3))
      then have "(rstep E)\<^sup>*\<^sup>* S ?S3" using S2(1) by (meson rtranclp.rtrancl_into_rtrancl)
      moreover have "calls ?S3 = calls S" by (rule call_ended [OF S(3)]) (simp add: S2(3))
      ultimately show ?thesis using Some run(3) S2(2) by (intro exI [of _ ?S3]) (auto simp: setNode_def)
    qed
  qed
qed

text \<open>The same for one peer's goroutine of an election.\<close>

lemma vote_call_run:
  assumes "k < length (elections (cl S))" "run = elections (cl S) ! k" "p \<in> set (elPeers (runEl run))" "runCalls run p = Pending"
    and "epoch (cl S) (runNode run) = runEpoch run" "delivered (onVote (elArgs (runEl run))) p (node (cl S)) rep ns1"
  shows "\<exists>S'. (rstep E)\<^sup>*\<^sup>* S S' \<and> length (elections (cl S')) = length (elections (cl S)) \<and>
    (case rep of None \<Rightarrow> node (cl S') = ns1 \<and> runEl (elections (cl S') ! k) = runEl run
     | Some x \<Rightarrow> node (cl S') = ns1(runNode run := snd (startElection_reply x (runEl run) (ns1 (runNode run)))) \<and>
         runEl (elections (cl S') ! k) = fst (startElection_reply x (runEl run) (ns1 (runNode run))))"
proof (cases "rep = None \<and> ns1 = node (cl S)")
  case True
  then show ?thesis using assms(2) by auto
next
  case False
  then obtain reply r' where run: "RequestVote (elArgs (runEl run)) (nd S p) = (reply, r')" "ns1 = (node (cl S))(p := r')"
    "rep = None \<or> rep = Some reply"
    using assms(6) unfolding delivered_def onVote_def by auto
  let ?i = "runNode run" and ?run = "run\<lparr>runCalls := (runCalls run)(p := Replied reply)\<rparr>"
  let ?S1 = "(putNode p r' S)\<lparr>cl := (setNode p r' (cl S))\<lparr>elections := (elections (cl S))[k := ?run]\<rparr>,
    vlogs := (if rvrVoteGranted reply then insert (p, rvTerm (elArgs (runEl run)), log (nd S p)) (vlogs S) else vlogs S)\<rparr>"
  have one: "rstep E S ?S1" by (rule rstep.request [OF assms(1-4) run(1)])
  have S1: "node (cl ?S1) = ns1" "elections (cl ?S1) ! k = ?run" "length (elections (cl ?S1)) = length (elections (cl S))"
    "epoch (cl ?S1) ?i = runEpoch run"
    using run(2) assms(1,5) by (simp_all add: setNode_def)
  show ?thesis
  proof (cases rep)
    case None
    then show ?thesis using one S1 by (intro exI [of _ ?S1]) auto
  next
    case (Some x)
    obtain el' r2 where r: "startElection_reply reply (runEl ?run) (nd ?S1 ?i) = (el', r2)" by fastforce
    let ?S2 = "(putNode ?i r2 ?S1)\<lparr>cl := (setNode ?i r2 (cl ?S1))\<lparr>elections := (elections (cl ?S1))[k :=
        ?run\<lparr>runEl := el', runCalls := (runCalls ?run)
          (p := (if elVotes (runEl ?run) < elVotes el' then Counted else Dismissed))\<rparr>]\<rparr>\<rparr>"
    have "rstep E ?S1 ?S2"
      by (rule rstep.reply [of k _ _ p reply]) (use assms(1,3) S1(2-4) r in \<open>simp_all add: setNode_def\<close>)
    then have "(rstep E)\<^sup>*\<^sup>* S ?S2" using one by (meson r_into_rtranclp rtranclp.rtrancl_into_rtrancl)
    then show ?thesis using Some run(3) r S1 assms(1) by (intro exI [of _ ?S2]) (auto simp: setNode_def)
  qed
qed

lemma local_call_run:
  assumes "p \<in> E" "i \<in> E" "is_local ev" "\<And>x. is_local (answer x)" "\<And>r. node_step ev r = map_sum id snd (handler r)"
    and "\<And>x r. node_step (answer x) r = Inr (react x r)" "delivered handler p (node c) rep ns1"
  shows "\<exists>c'. (cstep E)\<^sup>*\<^sup>* c c' \<and> node c' = (case rep of None \<Rightarrow> ns1 | Some x \<Rightarrow> ns1(i := react x (ns1 i)))"
proof (cases "rep = None \<and> ns1 = node c")
  case False
  then obtain reply r' where h: "handler (node c p) = Inr (reply, r')" "ns1 = (node c)(p := r')" "rep = None \<or> rep = Some reply"
    using assms(7) unfolding delivered_def by auto
  let ?c1 = "setNode p r' c"
  have one: "cstep E c ?c1" by (rule cstep.local [OF assms(1,3)]) (simp add: assms(5) h(1))
  have c1: "node ?c1 = ns1" using h(2) by (simp add: setNode_def)
  show ?thesis
  proof (cases rep)
    case None
    then show ?thesis using one c1 by auto
  next
    case (Some x)
    have "cstep E ?c1 (setNode i (react x (node ?c1 i)) ?c1)" by (rule cstep.local [OF assms(2,4)]) (rule assms(6))
    then have "(cstep E)\<^sup>*\<^sup>* c (setNode i (react x (ns1 i)) ?c1)"
      using one c1 by (metis r_into_rtranclp rtranclp.rtrancl_into_rtrancl)
    then show ?thesis using Some c1 by (intro exI [of _ "setNode i (react x (ns1 i)) ?c1"]) (auto simp: setNode_def)
  qed
qed auto

text \<open>A leader that the cluster reaches has a slice of its log to send, and no node that it reaches panics on it.\<close>

lemma begin_reachable:
  assumes "reachableN E ps S" "peersOK E ps" "i \<in> E" "p \<in> set (peers (nd S i))"
  shows "replicateToPeer_begin p (nd S i) = Inr ReplNothing \<or>
    (\<exists>args. replicateToPeer_begin p (nd S i) = Inr (ReplAppendEntries args) \<and> 0 \<le> aePrevLogIndex args)"
proof (cases "state (nd S i) = Leader")
  case True
  note inv = ninv_reachable [OF assms(1,2)]
  let ?n = "get0 (nextIndex (nd S i)) p"
  have "viewOk (acked S) (nd S i)" using ninvD(5) [OF inv assms(3)] True by (simp add: leaderOk_def Let_def)
  then have n: "1 \<le> ?n" "?n \<le> int (length (log (nd S i))) + 1" using assms(4) by (auto simp: viewOk_def)
  have "lastIncludedIndex (nd S i) = 0" using ninvD(3) [OF inv assms(3)] by (simp add: plain_def)
  then show ?thesis using n True by (auto simp: replicateToPeer_begin_def Let_def bind_res_def slice_from_def physicalIndexLocked_def)
qed (simp add: replicateToPeer_begin_def)

lemma append_returns:
  assumes "plain r" "0 \<le> aePrevLogIndex args"
  shows "\<exists>x. AppendEntries args r = Inr x"
proof (cases "aeTerm args < currentTerm r \<or> \<not> aeConsistent args (becomeFollowerLocked (aeTerm args) r)")
  case False
  let ?r = "becomeFollowerLocked (aeTerm args) r"
  have lii: "lastIncludedIndex ?r = 0" using assms(1) by (simp add: plain_def)
  have "aePrevLogIndex args \<le> int (length (log ?r))"
    using False lii assms(2) by (cases "aePrevLogIndex args = 0") (auto simp: aeConsistent_def fst_lastLogInfoLocked)
  then have "\<exists>y. aeAppend args ?r = Inr y"
    using assms(2) lii by (auto simp: aeAppend_def bind_res_def slice_to_def physicalIndexLocked_def)
  then show ?thesis using False by (auto simp: AppendEntries_def Let_def bind_res_def)
qed (auto simp: AppendEntries_def Let_def)

lemma reachable_steps: "(rstep E)\<^sup>*\<^sup>* S S' \<Longrightarrow> reachableN E ps S \<Longrightarrow> reachableN E ps S'"
  by (induction rule: rtranclp_induct) (auto intro: reachableN.step)

section \<open>What the nodes rely on\<close>

locale raft_transport =
  fixes ok :: "'t \<Rightarrow> bool"
    and callRV :: "'e \<Rightarrow> int \<Rightarrow> RequestVoteArgs \<Rightarrow> ('c, 'd) nodes \<Rightarrow> 't \<Rightarrow> ('c, 'd, RequestVoteReply, 't) outcome"
    and callAE :: "'e \<Rightarrow> int \<Rightarrow> 'c AppendEntriesArgs \<Rightarrow> ('c, 'd) nodes \<Rightarrow> 't \<Rightarrow> ('c, 'd, AppendEntriesReply, 't) outcome"
    and callIS :: "'e \<Rightarrow> int \<Rightarrow> 'd InstallSnapshotArgs \<Rightarrow> ('c, 'd) nodes \<Rightarrow> 't \<Rightarrow> ('c, 'd, InstallSnapshotReply, 't) outcome"
  assumes vote_law: "ok t \<Longrightarrow> callLaw ok (onVote rargs) p ns (callRV e p rargs ns t)"
    and append_law: "ok t \<Longrightarrow> callLaw ok (AppendEntries aargs) p ns (callAE e p aargs ns t)"
    and snapshot_law: "ok t \<Longrightarrow> callLaw ok (InstallSnapshot sargs) p ns (callIS e p sargs ns t)"
begin

lemma append_round_run:
  assumes "ok t" "replicateOver callAE callIS e i p (node (cl S)) t = Inr (ns', t')"
    and "replicateToPeer_begin p (nd S i) \<noteq> Inr ReplInstallSnapshot"
    and S: "i \<in> E" "p \<in> set (peers (nd S i))" "calls S i p = NoCall"
  shows "ok t' \<and> (\<exists>S'. (rstep E)\<^sup>*\<^sup>* S S' \<and> node (cl S') = ns' \<and> calls S' = calls S)"
proof -
  from assms(2,3) consider (nothing) "ns' = node (cl S)" "t' = t"
    | (append) args rep ns1 where "replicateToPeer_begin p (nd S i) = Inr (ReplAppendEntries args)"
        "callAE e p args (node (cl S)) t = Inr (rep, ns1, t')"
        "ns' = (case rep of None \<Rightarrow> ns1 | Some x \<Rightarrow> ns1(i := replicateToPeer_reply p args x (ns1 i)))"
    by (auto simp: replicateOver_def split: sum.splits replAction.splits option.splits)
  then show ?thesis
  proof cases
    case nothing
    then show ?thesis using assms(1) by auto
  next
    case append
    then show ?thesis using callLawD [OF append_law [OF assms(1)] append(2)] append_call_run [OF S append(1)] by blast
  qed
qed

text \<open>In the states that the cluster reaches, the round returns: no slice is out of range, at the sender or at the peer.\<close>

lemma append_round_reachable:
  assumes "reachableN E ps S" "peersOK E ps" "i \<in> E" "p \<in> set (ps i)" "calls S i p = NoCall" "ok t"
  shows "\<exists>ns' t' S'. replicateOver callAE callIS e i p (node (cl S)) t = Inr (ns', t') \<and> ok t' \<and> reachableN E ps S' \<and>
    node (cl S') = ns' \<and> calls S' = calls S"
proof -
  have p: "p \<in> set (peers (nd S i))" using ninv_peers [OF ninv_reachable [OF assms(1,2)] assms(2,3)] assms(4) by simp
  note b = begin_reachable [OF assms(1-3) p]
  have "\<exists>ns' t'. replicateOver callAE callIS e i p (node (cl S)) t = Inr (ns', t')"
    using b
  proof
    assume "\<exists>args. replicateToPeer_begin p (nd S i) = Inr (ReplAppendEntries args) \<and> 0 \<le> aePrevLogIndex args"
    then obtain args where a: "replicateToPeer_begin p (nd S i) = Inr (ReplAppendEntries args)" "0 \<le> aePrevLogIndex args" by blast
    have "p \<in> E" using assms(2-4) by (auto simp: peersOK_def)
    then obtain x where "AppendEntries args (nd S p) = Inr x"
      using append_returns [OF _ a(2)] ninvD(3) [OF ninv_reachable [OF assms(1,2)]] by blast
    from callLaw_returns [OF append_law [OF assms(6), of args p "node (cl S)" e] this] obtain y where "callAE e p args (node (cl S)) t = Inr y" by blast
    then show ?thesis using a(1) by (auto simp: replicateOver_def split: prod.split option.split)
  qed (simp add: replicateOver_def)
  then obtain ns' t' where r: "replicateOver callAE callIS e i p (node (cl S)) t = Inr (ns', t')" by blast
  have "replicateToPeer_begin p (nd S i) \<noteq> Inr ReplInstallSnapshot" using b by auto
  from append_round_run [OF assms(6) r this assms(3) p assms(5)]
  obtain S' where "ok t'" "(rstep E)\<^sup>*\<^sup>* S S'" "node (cl S') = ns'" "calls S' = calls S" by blast
  then show ?thesis using r reachable_steps [OF _ assms(1)] by blast
qed

lemma heartbeat_reachable:
  assumes "reachableN E ps S" "peersOK E ps" "i \<in> E" "snd ` set rounds \<subseteq> set (ps i)" "\<forall>p\<in>snd ` set rounds. calls S i p = NoCall" "ok t"
  shows "\<exists>ns' t' S'. heartbeatTick callAE callIS i rounds (node (cl S)) t = Inr (ns', t') \<and> ok t' \<and> reachableN E ps S' \<and> node (cl S') = ns'"
proof (cases "state (nd S i) = Leader")
  case True
  have "\<exists>ns' t' S'. replicateAll callAE callIS i rounds (node (cl S)) t = Inr (ns', t') \<and> ok t' \<and> reachableN E ps S' \<and> node (cl S') = ns'"
    using assms(1,4-6)
  proof (induction rounds arbitrary: S t)
    case Nil
    then show ?case by auto
  next
    case (Cons x rounds)
    obtain e p where x: "x = (e, p)" by (cases x)
    then have p: "p \<in> set (ps i)" "calls S i p = NoCall" using Cons.prems(2,3) by auto
    from append_round_reachable [OF Cons.prems(1) assms(2,3) p Cons.prems(4), of e]
    obtain t1 S1 where r: "replicateOver callAE callIS e i p (node (cl S)) t = Inr (node (cl S1), t1)" "ok t1" "reachableN E ps S1" "calls S1 = calls S"
      by blast
    have "snd ` set rounds \<subseteq> set (ps i)" "\<forall>p\<in>snd ` set rounds. calls S1 i p = NoCall" using Cons.prems(2,3) r(4) by auto
    from Cons.IH [OF r(3) this r(2)] show ?case using x r(1) by (simp add: bind_res_def)
  qed
  then show ?thesis using True by (simp add: heartbeatTick_def)
qed (use assms(1,6) in \<open>auto simp: heartbeatTick_def\<close>)

lemma vote_round_run:
  assumes "ok t" "voteOver callRV e (runEl run) (runNode run) p (node (cl S)) t = Inr (el', ns', t')"
    and S: "k < length (elections (cl S))" "run = elections (cl S) ! k" "p \<in> set (elPeers (runEl run))" "runCalls run p = Pending"
      "epoch (cl S) (runNode run) = runEpoch run"
  shows "ok t' \<and> (\<exists>S'. (rstep E)\<^sup>*\<^sup>* S S' \<and> node (cl S') = ns' \<and> runEl (elections (cl S') ! k) = el')"
proof -
  obtain rep ns1 where call: "callRV e p (elArgs (runEl run)) (node (cl S)) t = Inr (rep, ns1, t')"
    using assms(2) by (auto simp: voteOver_def split: sum.splits option.splits prod.splits)
  note law = callLawD [OF vote_law [OF assms(1)] call]
  then show ?thesis using vote_call_run [OF S, of rep ns1 E] assms(2) call
    by (auto simp: voteOver_def split: option.splits prod.splits)
qed

text \<open>With snapshots: any round is a run of the cluster of \<open>Raft_Cluster\<close>, whose nodes may handle any message.\<close>

lemma round_cluster_run:
  assumes "ok t" "replicateOver callAE callIS e i p (node c) t = Inr (ns', t')" "i \<in> E" "p \<in> E"
  shows "ok t' \<and> (\<exists>c'. (cstep E)\<^sup>*\<^sup>* c c' \<and> node c' = ns')"
proof -
  from assms(2) consider (nothing) "ns' = node c" "t' = t"
    | (append) args rep ns1 where "callAE e p args (node c) t = Inr (rep, ns1, t')"
        "ns' = (case rep of None \<Rightarrow> ns1 | Some x \<Rightarrow> ns1(i := replicateToPeer_reply p args x (ns1 i)))"
    | (install) args rep ns1 where "callIS e p args (node c) t = Inr (rep, ns1, t')"
        "ns' = (case rep of None \<Rightarrow> ns1 | Some x \<Rightarrow> ns1(i := sendInstallSnapshot_reply p args x (ns1 i)))"
    by (auto simp: replicateOver_def split: sum.splits replAction.splits option.splits)
  then show ?thesis
  proof cases
    case nothing
    then show ?thesis using assms(1) by auto
  next
    case append
    note law = callLawD [OF append_law [OF assms(1)] append(1)]
    have "\<exists>c'. (cstep E)\<^sup>*\<^sup>* c c' \<and> node c' = ns'" unfolding append(2)
      by (rule local_call_run [of p E i "EvAppendEntries args" "EvAppendReply p args" "AppendEntries args"]) (use assms(3,4) law in simp_all)
    then show ?thesis using law by blast
  next
    case install
    note law = callLawD [OF snapshot_law [OF assms(1)] install(1)]
    have "\<exists>c'. (cstep E)\<^sup>*\<^sup>* c c' \<and> node c' = ns'" unfolding install(2)
      by (rule local_call_run [of p E i "EvInstallSnapshot args" "EvSnapshotReply p args" "InstallSnapshot args"]) (use assms(3,4) law in simp_all)
    then show ?thesis using law by blast
  qed
qed

end

section \<open>The fake transport\<close>

text \<open>\<open>handlers\<close> is the field \<open>peers\<close>: a handler is the node whose methods are called. No partition configured is \<open>None\<close>.\<close>

record FakeTransport =
  handlers :: "int \<rightharpoonup> int"
  fpartition :: "(int \<rightharpoonup> nat) option"

definition NewFakeTransport :: FakeTransport where
  "NewFakeTransport = \<lparr>handlers = Map.empty, fpartition = None\<rparr>"

definition Register :: "int \<Rightarrow> int \<Rightarrow> FakeTransport \<Rightarrow> FakeTransport" where
  "Register pid handler t = t\<lparr>handlers := (handlers t)(pid \<mapsto> handler)\<rparr>"

definition Unregister :: "int \<Rightarrow> FakeTransport \<Rightarrow> FakeTransport" where
  "Unregister pid t = t\<lparr>handlers := (handlers t)(pid := None)\<rparr>"

definition partitionOf :: "int list list \<Rightarrow> int \<rightharpoonup> nat" where
  "partitionOf groups = foldl (\<lambda>m (groupID, group). foldl (\<lambda>m peer. m(peer \<mapsto> groupID)) m group) Map.empty (enumerate 0 groups)"

definition Partition :: "int list list \<Rightarrow> FakeTransport \<Rightarrow> FakeTransport" where
  "Partition groups t = t\<lparr>fpartition := Some (partitionOf groups)\<rparr>"

definition Heal :: "FakeTransport \<Rightarrow> FakeTransport" where
  "Heal t = t\<lparr>fpartition := None\<rparr>"

definition reachable :: "int \<Rightarrow> int \<Rightarrow> FakeTransport \<Rightarrow> bool" where
  "reachable from to t =
     (case fpartition t of
        None \<Rightarrow> True
      | Some m \<Rightarrow> (case (m from, m to) of (Some fromGroup, Some toGroup) \<Rightarrow> fromGroup = toGroup | _ \<Rightarrow> False))"

definition handlerFor :: "int \<Rightarrow> FakeTransport \<Rightarrow> int option" where
  "handlerFor peer t = handlers t peer"

definition fakeCall :: "int \<Rightarrow> int \<Rightarrow> ('c, 'd, 'r) handler \<Rightarrow> ('c, 'd) nodes \<Rightarrow> FakeTransport \<Rightarrow> ('c, 'd, 'r, FakeTransport) outcome" where
  "fakeCall from peer handler ns t =
     (if \<not> reachable from peer t then Inr (None, ns, t)
      else case handlerFor peer t of
             None \<Rightarrow> Inr (None, ns, t)
           | Some h \<Rightarrow> bind_res (handler (ns h)) (\<lambda>(rep, r'). Inr (Some rep, ns(h := r'), t)))"

definition fakeRequestVote ::
    "unit \<Rightarrow> int \<Rightarrow> RequestVoteArgs \<Rightarrow> ('c, 'd) nodes \<Rightarrow> FakeTransport \<Rightarrow> ('c, 'd, RequestVoteReply, FakeTransport) outcome" where
  "fakeRequestVote _ peer args = fakeCall (rvCandidateID args) peer (onVote args)"

definition fakeAppendEntries ::
    "unit \<Rightarrow> int \<Rightarrow> 'c AppendEntriesArgs \<Rightarrow> ('c, 'd) nodes \<Rightarrow> FakeTransport \<Rightarrow> ('c, 'd, AppendEntriesReply, FakeTransport) outcome" where
  "fakeAppendEntries _ peer args = fakeCall (aeLeaderID args) peer (AppendEntries args)"

definition fakeInstallSnapshot ::
    "unit \<Rightarrow> int \<Rightarrow> 'd InstallSnapshotArgs \<Rightarrow> ('c, 'd) nodes \<Rightarrow> FakeTransport \<Rightarrow> ('c, 'd, InstallSnapshotReply, FakeTransport) outcome" where
  "fakeInstallSnapshot _ peer args = fakeCall (isLeaderID args) peer (InstallSnapshot args)"

text \<open>Every handler is registered under the id of its node.\<close>

definition fakeOk :: "FakeTransport \<Rightarrow> bool" where
  "fakeOk t \<longleftrightarrow> (\<forall>p h. handlers t p = Some h \<longrightarrow> h = p)"

lemma fakeCall_law:
  assumes "fakeOk t"
  shows "callLaw fakeOk handler peer ns (fakeCall from peer handler ns t)"
proof (cases "reachable from peer t \<and> handlerFor peer t \<noteq> None")
  case True
  then have "handlerFor peer t = Some peer" using assms(1) by (auto simp: fakeOk_def handlerFor_def)
  then show ?thesis using assms True by (cases "handler (ns peer)") (auto simp: callLaw_def fakeCall_def delivered_def bind_res_def)
next
  case False
  then show ?thesis using assms by (auto simp: callLaw_def fakeCall_def delivered_def)
qed

interpretation fake: raft_transport fakeOk fakeRequestVote fakeAppendEntries fakeInstallSnapshot
  by unfold_locales (simp_all add: fakeRequestVote_def fakeAppendEntries_def fakeInstallSnapshot_def fakeCall_law)

text \<open>A partition: of the groups that name a peer, the last one counts; two peers reach each other exactly within a group.\<close>

lemma foldl_upd: "foldl (\<lambda>m p. m(p \<mapsto> g)) m ps q = (if q \<in> set ps then Some g else m q)"
  by (induction ps arbitrary: m) auto

lemma partitionOf_snoc: "partitionOf (gs @ [g]) q = (if q \<in> set g then Some (length gs) else partitionOf gs q)"
  by (simp add: partitionOf_def enumerate_append_eq foldl_upd)

lemma partitionOf_Some: "partitionOf gs q = Some k \<Longrightarrow> k < length gs \<and> q \<in> set (gs ! k)"
proof (induction gs rule: rev_induct)
  case (snoc g gs)
  then show ?case by (auto simp: partitionOf_snoc nth_append split: if_splits)
qed (simp add: partitionOf_def)

lemma partitionOf_member:
  assumes "distinct (concat gs)" "k < length gs" "q \<in> set (gs ! k)"
  shows "partitionOf gs q = Some k"
  using assms
proof (induction gs rule: rev_induct)
  case (snoc g gs)
  show ?case
  proof (cases "k = length gs")
    case False
    then have k: "k < length gs" "q \<in> set (gs ! k)" using snoc.prems(2,3) by (auto simp: nth_append)
    then have "q \<in> set (concat gs)" by auto
    then have "q \<notin> set g" using snoc.prems(1) by auto
    then show ?thesis using snoc.IH k snoc.prems(1) by (simp add: partitionOf_snoc)
  qed (use snoc.prems in \<open>simp add: partitionOf_snoc\<close>)
qed simp

lemma reachable_Partition:
  assumes "distinct (concat gs)"
  shows "reachable a b (Partition gs t) \<longleftrightarrow> (\<exists>g\<in>set gs. a \<in> set g \<and> b \<in> set g)"
proof
  assume "reachable a b (Partition gs t)"
  then obtain k where "partitionOf gs a = Some k" "partitionOf gs b = Some k"
    by (auto simp: reachable_def Partition_def split: option.splits)
  then show "\<exists>g\<in>set gs. a \<in> set g \<and> b \<in> set g" using partitionOf_Some nth_mem by blast
next
  assume "\<exists>g\<in>set gs. a \<in> set g \<and> b \<in> set g"
  then obtain k where "k < length gs" "a \<in> set (gs ! k)" "b \<in> set (gs ! k)" by (metis in_set_conv_nth)
  then have "partitionOf gs a = Some k" "partitionOf gs b = Some k" using partitionOf_member [OF assms] by auto
  then show "reachable a b (Partition gs t)" by (simp add: reachable_def Partition_def)
qed

lemma reachable_sym: "reachable a b t = reachable b a t"
  by (auto simp: reachable_def split: option.splits)

lemma Heal_Partition: "Heal (Partition gs t) = Heal t" "reachable a b (Heal t)"
  by (simp_all add: Heal_def Partition_def reachable_def)

lemma crashed_unreachable: "fakeCall from peer handler ns (Unregister peer t) = Inr (None, ns, Unregister peer t)"
  by (simp add: fakeCall_def handlerFor_def Unregister_def)

lemma fakeOk_ops: "fakeOk NewFakeTransport" "fakeOk t \<Longrightarrow> fakeOk (Register p p t)" "fakeOk t \<Longrightarrow> fakeOk (Unregister p t)"
  "fakeOk t \<Longrightarrow> fakeOk (Partition gs t)" "fakeOk t \<Longrightarrow> fakeOk (Heal t)"
  by (auto simp: fakeOk_def NewFakeTransport_def Register_def Unregister_def Partition_def Heal_def)

section \<open>The network transport\<close>

text \<open>
  \<open>net/rpc\<close> as the code uses it: a server listens at an address, a connection reaches the process that listened there when it was
  dialed, and a call on it returns the reply of the handler, or fails because the connection breaks before or after the handler ran.
  A connection that broke stays broken and every later call on it fails. When a process ends, its listeners close and its connections
  break. A request that the peer has not read when the connection breaks counts as lost. A panic of the handler ends the peer's
  process and is a result of its own.
\<close>

record Network =
  listeners :: "string \<rightharpoonup> int"
  conns :: "(int \<times> bool) list"

record NetTransport =
  addrs :: "int \<rightharpoonup> string"
  clients :: "int \<rightharpoonup> nat"

datatype callFate = Arrives | LostRequest | LostReply

type_synonym netEvent = "bool \<times> callFate"

definition ServeNetTransport :: "string \<Rightarrow> int \<Rightarrow> Network \<Rightarrow> Network res" where
  "ServeNetTransport addr handler w =
     (case listeners w addr of
        Some _ \<Rightarrow> Inl (Error ''address already in use'')
      | None \<Rightarrow> Inr (w\<lparr>listeners := (listeners w)(addr \<mapsto> handler)\<rparr>))"

definition processEnds :: "int \<Rightarrow> Network \<Rightarrow> Network" where
  "processEnds i w = w\<lparr>listeners := (\<lambda>a. if listeners w a = Some i then None else listeners w a),
     conns := map (\<lambda>(h, up). (h, up \<and> h \<noteq> i)) (conns w)\<rparr>"

definition NewNetTransport :: "(int \<rightharpoonup> string) \<Rightarrow> NetTransport" where
  "NewNetTransport peerAddrs = \<lparr>addrs = peerAddrs, clients = Map.empty\<rparr>"

definition clientFor :: "bool \<Rightarrow> int \<Rightarrow> NetTransport \<times> Network \<Rightarrow> nat option \<times> NetTransport \<times> Network" where
  "clientFor dialOk peer tw =
     (let (t, w) = tw
      in case clients t peer of
           Some c \<Rightarrow> (Some c, t, w)
         | None \<Rightarrow>
             (case addrs t peer of
                None \<Rightarrow> (None, t, w)
              | Some addr \<Rightarrow>
                  (case listeners w addr of
                     None \<Rightarrow> (None, t, w)
                   | Some h \<Rightarrow>
                       if dialOk
                       then (Some (length (conns w)), t\<lparr>clients := (clients t)(peer \<mapsto> length (conns w))\<rparr>, w\<lparr>conns := conns w @ [(h, True)]\<rparr>)
                       else (None, t, w))))"

definition dropConn :: "nat \<Rightarrow> Network \<Rightarrow> Network" where
  "dropConn c w = w\<lparr>conns := (conns w)[c := (fst (conns w ! c), False)]\<rparr>"

text \<open>Where the handler runs, and whether its reply comes back.\<close>

definition netRoute :: "netEvent \<Rightarrow> int \<Rightarrow> NetTransport \<times> Network \<Rightarrow> (int \<times> bool) option \<times> NetTransport \<times> Network" where
  "netRoute e peer tw =
     (case clientFor (fst e) peer tw of
        (None, t, w) \<Rightarrow> (None, t, w)
      | (Some c, t, w) \<Rightarrow>
          (let (h, up) = conns w ! c
           in if \<not> up \<or> snd e = LostRequest then (None, t, dropConn c w)
              else if snd e = LostReply then (Some (h, False), t, dropConn c w)
              else (Some (h, True), t, w)))"

definition netCall ::
    "netEvent \<Rightarrow> int \<Rightarrow> ('c, 'd, 'r) handler \<Rightarrow> ('c, 'd) nodes \<Rightarrow> NetTransport \<times> Network \<Rightarrow> ('c, 'd, 'r, NetTransport \<times> Network) outcome" where
  "netCall e peer handler ns tw =
     (case netRoute e peer tw of
        (None, tw') \<Rightarrow> Inr (None, ns, tw')
      | (Some (h, back), tw') \<Rightarrow> bind_res (handler (ns h)) (\<lambda>(rep, r'). Inr (if back then Some rep else None, ns(h := r'), tw')))"

definition netRequestVote ::
    "netEvent \<Rightarrow> int \<Rightarrow> RequestVoteArgs \<Rightarrow> ('c, 'd) nodes \<Rightarrow> NetTransport \<times> Network \<Rightarrow> ('c, 'd, RequestVoteReply, NetTransport \<times> Network) outcome" where
  "netRequestVote e peer args = netCall e peer (onVote args)"

definition netAppendEntries ::
    "netEvent \<Rightarrow> int \<Rightarrow> 'c AppendEntriesArgs \<Rightarrow> ('c, 'd) nodes \<Rightarrow> NetTransport \<times> Network \<Rightarrow> ('c, 'd, AppendEntriesReply, NetTransport \<times> Network) outcome" where
  "netAppendEntries e peer args = netCall e peer (AppendEntries args)"

definition netInstallSnapshot ::
    "netEvent \<Rightarrow> int \<Rightarrow> 'd InstallSnapshotArgs \<Rightarrow> ('c, 'd) nodes \<Rightarrow> NetTransport \<times> Network \<Rightarrow> ('c, 'd, InstallSnapshotReply, NetTransport \<times> Network) outcome" where
  "netInstallSnapshot e peer args = netCall e peer (InstallSnapshot args)"

text \<open>Nobody but a peer listens at its address, and a cached connection leads to its peer.\<close>

definition netOk :: "NetTransport \<times> Network \<Rightarrow> bool" where
  "netOk tw \<longleftrightarrow> (\<forall>p c. clients (fst tw) p = Some c \<longrightarrow> c < length (conns (snd tw)) \<and> fst (conns (snd tw) ! c) = p) \<and>
     (\<forall>p a h. addrs (fst tw) p = Some a \<longrightarrow> listeners (snd tw) a = Some h \<longrightarrow> h = p)"

lemma clientFor_ok:
  assumes "netOk tw" "clientFor dialOk peer tw = (x, tw')"
  shows "netOk tw' \<and> (\<forall>c. x = Some c \<longrightarrow> c < length (conns (snd tw')) \<and> fst (conns (snd tw') ! c) = peer)"
proof (cases "clients (fst tw) peer")
  case None
  then show ?thesis using assms
    by (auto simp: clientFor_def netOk_def nth_append less_Suc_eq Let_def split: option.splits if_splits prod.splits) (metis+)?
next
  case (Some c)
  then show ?thesis using assms by (auto simp: clientFor_def netOk_def split: prod.splits)
qed

lemma nth_list_update_if: "xs[i := x] ! j = (if i < length xs \<and> i = j then x else xs ! j)"
  by (cases "i < length xs") (auto simp: list_update_beyond)

lemma dropConn_fst: "fst (conns (dropConn c w) ! d) = fst (conns w ! d)" "length (conns (dropConn c w)) = length (conns w)"
  "listeners (dropConn c w) = listeners w"
  by (simp_all add: dropConn_def nth_list_update_if)

lemma netOk_dropConn: "netOk (t, w) \<Longrightarrow> netOk (t, dropConn c w)"
  by (simp add: netOk_def dropConn_fst)

lemma netRoute_ok:
  assumes "netOk tw" "netRoute e peer tw = (x, tw')"
  shows "netOk tw' \<and> (\<forall>h back. x = Some (h, back) \<longrightarrow> h = peer)"
proof -
  obtain y t w where c: "clientFor (fst e) peer tw = (y, t, w)" by (cases "clientFor (fst e) peer tw")
  show ?thesis using clientFor_ok [OF assms(1) c] netOk_dropConn [of t w] assms(2) c
    by (auto simp: netRoute_def Let_def split: option.splits prod.splits if_splits)
qed

lemma netCall_law:
  assumes "netOk tw"
  shows "callLaw netOk handler peer ns (netCall e peer handler ns tw)"
proof -
  obtain x tw1 where r: "netRoute e peer tw = (x, tw1)" by (cases "netRoute e peer tw")
  note k = netRoute_ok [OF assms(1) r]
  show ?thesis
  proof (cases x)
    case None
    then show ?thesis using r k by (simp add: netCall_def callLaw_def delivered_def)
  next
    case (Some y)
    then obtain b where x: "netRoute e peer tw = (Some (peer, b), tw1)" using r k by (cases y) auto
    show ?thesis
    proof (cases "handler (ns peer)")
      case (Inr z)
      then show ?thesis using k by (cases z) (simp add: netCall_def x callLaw_def delivered_def bind_res_def)
    qed (simp add: netCall_def x callLaw_def bind_res_def)
  qed
qed

interpretation net_rpc: raft_transport netOk netRequestVote netAppendEntries netInstallSnapshot
  by unfold_locales (simp_all add: netRequestVote_def netAppendEntries_def netInstallSnapshot_def netCall_law)

section \<open>Theorems\<close>


text \<open>A leader with one entry, behind a partition that cuts off node 3: the round to node 2 replicates and commits it.\<close>

definition exFake :: FakeTransport where
  "exFake = Partition [[1, 2], [3]] (Register 3 3 (Register 2 2 (Register 1 1 NewFakeTransport)))"

definition exNet :: "NetTransport \<times> Network" where
  "exNet = (NewNetTransport [2 \<mapsto> ''x''], \<lparr>listeners = [''x'' \<mapsto> 2], conns = []\<rparr>)"

lemma ex_proposed: "\<exists>(S :: ('c, 'd) Net) es. reachableN {1, 2, 3} exPeers S \<and> runAt S (exLead [exEntry c] 0 0 [] 1 0) (exFollow [] 0 0 []) 0 es NoCall"
proof -
  obtain S es where S: "quietStep\<^sup>*\<^sup>* (initNet exPeers) (S :: ('c, 'd) Net)" "runAt S (exLead [] 0 0 [] 1 0) (exFollow [] 0 0 []) 0 es NoCall"
    using ex_elected by blast
  obtain S1 where S1: "quietStep S S1" "runAt S1 (exLead [exEntry c] 0 0 [] 1 0) (exFollow [] 0 0 []) 0 es NoCall"
    using run_propose [OF S(2), of c] unfolding ex_propose by blast
  have "quietStep\<^sup>*\<^sup>* (initNet exPeers) S1" using S(1) S1(1) by (meson rtranclp.rtrancl_into_rtrancl)
  then have "reachableN {1, 2, 3} exPeers S1" by (rule quiet_reachable) (rule reachableN.init)
  then show ?thesis using S1(2) by blast
qed

lemma exNode_state: "state (exNode i ps st t es ci la ch nx mt tr) = st"
  by (simp add: exNode_def)

lemma ex_round:
  assumes "runAt S (exLead [exEntry c] 0 0 [] 1 0) (exFollow [] 0 0 []) 0 es NoCall"
  shows "heartbeatTick fakeAppendEntries fakeInstallSnapshot 1 [((), 2)] (node (cl S)) exFake =
    Inr ((node (cl S))(2 := exFollow [exEntry c] 0 0 [], 1 := exLead [exEntry c] 1 0 [] 2 1), exFake)"
proof -
  have S: "nd S 1 = exLead [exEntry c] 0 0 [] 1 0" "nd S 2 = exFollow [] 0 0 []" using assms by (simp_all add: runAt_def)
  have "reachable 1 2 exFake" by (simp add: exFake_def reachable_Partition)
  moreover have "handlerFor 2 exFake = Some 2" by (simp add: exFake_def handlerFor_def Partition_def Register_def)
  ultimately show ?thesis
    by (simp add: heartbeatTick_def exNode_state replicateOver_def S ex_send fakeAppendEntries_def fakeCall_def ex_accept bind_res_def ex_commit)
qed


text \<open>What happens to a transport and its network: calls to any peer with any outcome, processes that end, processes that start to listen.\<close>

inductive nstep :: "NetTransport \<times> Network \<Rightarrow> NetTransport \<times> Network \<Rightarrow> bool" where
  calls: "nstep tw (snd (netRoute e q tw))"
| ends: "nstep (t, w) (t, processEnds i w)"
| serves: "ServeNetTransport a i w = Inr w' \<Longrightarrow> nstep (t, w) (t, w')"

definition lostPeer :: "int \<Rightarrow> NetTransport \<times> Network \<Rightarrow> bool" where
  "lostPeer p tw \<longleftrightarrow> (\<exists>c. clients (fst tw) p = Some c \<and> c < length (conns (snd tw)) \<and> \<not> snd (conns (snd tw) ! c))"

lemma clientFor_lost: "lostPeer p tw \<Longrightarrow> lostPeer p (snd (clientFor d q tw))"
  by (cases tw) (auto simp: lostPeer_def clientFor_def Let_def nth_append split: option.split)

lemma dropConn_lost: "lostPeer p (t, w) \<Longrightarrow> lostPeer p (t, dropConn c w)"
  by (auto simp: lostPeer_def dropConn_def nth_list_update_if)

lemma nstep_lost:
  assumes "nstep tw tw'" "lostPeer p tw"
  shows "lostPeer p tw'"
  using assms(1)
proof cases
  case (calls e q)
  obtain y t w where c: "clientFor (fst e) q tw = (y, t, w)" by (cases "clientFor (fst e) q tw")
  then have "lostPeer p (t, w)" using clientFor_lost [OF assms(2), of "fst e" q] by simp
  then show ?thesis using calls c dropConn_lost by (auto simp: netRoute_def Let_def split: option.split prod.split)
next
  case (ends t w i)
  then show ?thesis using assms(2) by (force simp: lostPeer_def processEnds_def split: prod.splits)
next
  case (serves a i w w' t)
  then show ?thesis using assms(2) by (auto simp: lostPeer_def ServeNetTransport_def split: option.splits)
qed

text \<open>
  (C11) Once the connection that a node cached for a peer has broken (its process ended, or one call was cut off), no call of that node reaches the
  peer again, whether the peer is restarted at the same address or the network recovers: the broken connection stays in the
  cache, and every call fails with no node touched.
\<close>

theorem broken_connection_is_final:
  assumes "lostPeer p tw" "nstep\<^sup>*\<^sup>* tw tw'"
  shows "netAppendEntries e p args ns tw' = Inr (None, ns, tw') \<and> netRequestVote e p vargs ns tw' = Inr (None, ns, tw') \<and>
    netInstallSnapshot e p sargs ns tw' = Inr (None, ns, tw')"
proof -
  have "lostPeer p tw'" using assms(2) by (induction rule: rtranclp_induct) (use assms(1) nstep_lost in auto)
  then obtain c where c: "clients (fst tw') p = Some c" "c < length (conns (snd tw'))" "\<not> snd (conns (snd tw') ! c)"
    unfolding lostPeer_def by blast
  have "(fst (conns (snd tw') ! c), False) = conns (snd tw') ! c" using c(3) by (simp add: prod_eq_iff)
  then have "dropConn c (snd tw') = snd tw'" by (simp only: dropConn_def list_update_id) simp
  then have "netRoute e p tw' = (None, tw')" using c by (cases tw') (auto simp: netRoute_def clientFor_def Let_def split: prod.splits)
  then show ?thesis by (simp add: netAppendEntries_def netRequestVote_def netInstallSnapshot_def netCall_def)
qed

text \<open>Node 2 is called, ends and is started again at its address: the old transport fails, a new one would reach it.\<close>

theorem broken_connection_is_final_witness:
  "\<exists>tw'. nstep\<^sup>*\<^sup>* exNet tw' \<and> listeners (snd tw') ''x'' = Some 2 \<and>
     fst (netRoute (True, Arrives) 2 (NewNetTransport [2 \<mapsto> ''x''], snd tw')) = Some (2, True) \<and>
     netAppendEntries (True, Arrives) 2 exOverwrite (\<lambda>_. exFollow [] 0 0 []) tw' = Inr (None, \<lambda>_. (exFollow [] 0 0 [] :: (nat, nat) Raft), tw')"
proof -
  let ?w1 = "\<lparr>listeners = [''x'' \<mapsto> 2], conns = [(2, True)]\<rparr>" and ?w2 = "\<lparr>listeners = Map.empty, conns = [(2, False)]\<rparr>"
  let ?w3 = "\<lparr>listeners = [''x'' \<mapsto> 2], conns = [(2, False)]\<rparr>" and ?t = "\<lparr>addrs = [2 \<mapsto> ''x''], clients = [2 \<mapsto> 0]\<rparr>"
  have "snd (netRoute (True, Arrives) 2 exNet) = (?t, ?w1)"
    by (simp add: exNet_def netRoute_def clientFor_def NewNetTransport_def Let_def)
  then have s1: "nstep exNet (?t, ?w1)" by (metis nstep.calls)
  have "processEnds 2 ?w1 = ?w2" by (auto simp: processEnds_def)
  then have s2: "nstep (?t, ?w1) (?t, ?w2)" by (metis nstep.ends)
  have s3: "nstep (?t, ?w2) (?t, ?w3)" by (rule nstep.serves [of "''x''" 2]) (simp add: ServeNetTransport_def)
  have "lostPeer 2 (?t, ?w2)" by (simp add: lostPeer_def)
  moreover have "nstep\<^sup>*\<^sup>* (?t, ?w2) (?t, ?w3)" using s3 by simp
  ultimately have "netAppendEntries (True, Arrives) 2 exOverwrite (\<lambda>_. exFollow [] 0 0 []) (?t, ?w3) = Inr (None, \<lambda>_. (exFollow [] 0 0 [] :: (nat, nat) Raft), (?t, ?w3))"
    using broken_connection_is_final by blast
  moreover have "nstep\<^sup>*\<^sup>* exNet (?t, ?w3)" using s1 s2 s3 by (meson r_into_rtranclp rtranclp.rtrancl_into_rtrancl)
  moreover have "fst (netRoute (True, Arrives) 2 (NewNetTransport [2 \<mapsto> ''x''], ?w3)) = Some (2, True)"
    by (simp add: netRoute_def clientFor_def NewNetTransport_def Let_def)
  ultimately show ?thesis by (intro exI [of _ "(?t, ?w3)"]) simp
qed

end
