(* ===== verification/Raft_Persist.thy ===== *)
theory Raft_Persist
  imports Raft_Cluster
begin

text \<open>
  Stable storage (\<open>persister.go\<close>): the contract of the \<open>Persister\<close> interface as a locale, its
  two implementations \<open>MemoryPersister\<close> and \<open>FilePersister\<close>, and what a crash in the middle of a
  file write can leave behind.

  The file system is modelled at the level the comments of \<open>FilePersister\<close> argue at: a directory
  maps names to files, and both the directory and the bytes of a file have a current and a durable
  version. \<open>fsync\<close> of a file makes its bytes durable, \<open>fsync\<close> of the directory makes its entries
  durable, \<open>rename\<close> replaces an entry atomically. A crash keeps, for every name independently,
  either the durable or the current entry, and for a file whose bytes were never synced it leaves
  arbitrary bytes. Contents are lists over an arbitrary type of bytes.
\<close>

section \<open>The interface\<close>

datatype ('s, 'd) persistOp = PSaveState 's | PSaveBoth 's 'd

locale persister_spec =
  fixes emptyP :: 'p
    and saveS :: "'s \<Rightarrow> 'p \<Rightarrow> 'p"
    and saveB :: "'s \<Rightarrow> 'd \<Rightarrow> 'p \<Rightarrow> 'p"
    and readS :: "'p \<Rightarrow> 'r"
    and readB :: "'p \<Rightarrow> 'd"
    and stored :: "'s \<Rightarrow> 'r"
    and invar :: "'p \<Rightarrow> bool"
  assumes invar_empty: "invar emptyP"
    and invar_saveS: "invar p \<Longrightarrow> invar (saveS s p)"
    and invar_saveB: "invar p \<Longrightarrow> invar (saveB s d p)"
    and readS_saveS: "invar p \<Longrightarrow> readS (saveS s p) = stored s"
    and readB_saveS: "invar p \<Longrightarrow> readB (saveS s p) = readB p"
    and readS_saveB: "invar p \<Longrightarrow> readS (saveB s d p) = stored s"
    and readB_saveB: "invar p \<Longrightarrow> readB (saveB s d p) = d"
begin

definition applyP :: "('s, 'd) persistOp \<Rightarrow> 'p \<Rightarrow> 'p" where
  "applyP o' p = (case o' of PSaveState s \<Rightarrow> saveS s p | PSaveBoth s d \<Rightarrow> saveB s d p)"

definition lastS :: "('s, 'd) persistOp \<Rightarrow> 'r" where
  "lastS o' = (case o' of PSaveState s \<Rightarrow> stored s | PSaveBoth s d \<Rightarrow> stored s)"

lemma invar_fold: "invar p \<Longrightarrow> invar (fold applyP ops p)"
  by (induction ops arbitrary: p)
     (auto simp: applyP_def invar_saveS invar_saveB split: persistOp.split)

text \<open>Reading gives back the last write, of each blob separately.\<close>

lemma reads_last_state:
  assumes "invar p"
  shows "readS (fold applyP (ops @ [o']) p) = lastS o'"
  using invar_fold [OF assms, of ops]
  by (auto simp: applyP_def lastS_def readS_saveS readS_saveB split: persistOp.split)

lemma reads_last_snapshot:
  assumes "invar p"
  shows "readB (fold applyP ops p) =
     fold (\<lambda>o' b. case o' of PSaveState s \<Rightarrow> b | PSaveBoth s d \<Rightarrow> d) ops (readB p)"
  using assms
proof (induction ops arbitrary: p)
  case (Cons o' ops)
  have "invar (applyP o' p)" using invar_fold [OF Cons.prems, of "[o']"] by simp
  moreover have "readB (applyP o' p) = (case o' of PSaveState s \<Rightarrow> readB p | PSaveBoth s d \<Rightarrow> d)"
    using Cons.prems by (auto simp: applyP_def readB_saveS readB_saveB split: persistOp.split)
  ultimately show ?case using Cons.IH by simp
qed simp

end

interpretation mp: persister_spec NewMemoryPersister SaveState SaveStateAndSnapshot ReadState
    ReadPersistedSnapshot Some "\<lambda>_. True"
  by unfold_locales
     (simp_all add: SaveState_def SaveStateAndSnapshot_def ReadState_def ReadPersistedSnapshot_def)

section \<open>A file system with crashes\<close>

type_synonym path = string

record 'b Disk =
  dir :: "path \<rightharpoonup> nat"
  stableDir :: "path \<rightharpoonup> nat"
  bytes :: "nat \<rightharpoonup> 'b list"
  stableBytes :: "nat \<rightharpoonup> 'b list"
  nextFile :: nat

datatype 'b sysCall =
    CreateTemp path
  | WriteFile path "'b list"
  | SyncFile path
  | CloseFile path
  | RenameFile path path
  | SyncDir

fun syscall :: "'b sysCall \<Rightarrow> 'b Disk \<Rightarrow> 'b Disk" where
  "syscall (CreateTemp t) d = d\<lparr>dir := (dir d)(t \<mapsto> nextFile d),
      bytes := (bytes d)(nextFile d \<mapsto> []), nextFile := nextFile d + 1\<rparr>"
| "syscall (WriteFile t data) d =
     (case dir d t of None \<Rightarrow> d | Some f \<Rightarrow> d\<lparr>bytes := (bytes d)(f \<mapsto> data)\<rparr>)"
| "syscall (SyncFile t) d =
     (case dir d t of None \<Rightarrow> d | Some f \<Rightarrow> d\<lparr>stableBytes := (stableBytes d)(f := bytes d f)\<rparr>)"
| "syscall (CloseFile t) d = d"
| "syscall (RenameFile t p) d = d\<lparr>dir := (dir d)(p := dir d t, t := None)\<rparr>"
| "syscall SyncDir d = d\<lparr>stableDir := dir d\<rparr>"

definition crashDisk :: "(path \<Rightarrow> bool) \<Rightarrow> (nat \<Rightarrow> 'b list) \<Rightarrow> 'b Disk \<Rightarrow> 'b Disk" where
  "crashDisk keep garbage d =
     (let newDir = (\<lambda>n. if keep n then dir d n else stableDir d n);
          newBytes = (\<lambda>f. case stableBytes d f of None \<Rightarrow> Some (garbage f) | Some b \<Rightarrow> Some b)
      in d\<lparr>dir := newDir, stableDir := newDir, bytes := newBytes, stableBytes := newBytes\<rparr>)"

definition readFileOrEmpty :: "path \<Rightarrow> 'b Disk \<Rightarrow> 'b list" where
  "readFileOrEmpty p d =
     (case dir d p of None \<Rightarrow> []
      | Some f \<Rightarrow> (case bytes d f of None \<Rightarrow> [] | Some b \<Rightarrow> b))"

section \<open>FilePersister\<close>

definition tmpName :: "path \<Rightarrow> string \<Rightarrow> path" where
  "tmpName p sfx = p @ ''.tmp-'' @ sfx"

definition snapshotPath :: "path \<Rightarrow> path" where
  "snapshotPath p = p @ ''.snapshot''"

definition writeSteps :: "path \<Rightarrow> string \<Rightarrow> 'b list \<Rightarrow> 'b sysCall list" where
  "writeSteps p sfx data =
     (let t = tmpName p sfx in
      [CreateTemp t, WriteFile t data, SyncFile t, CloseFile t, RenameFile t p, SyncDir])"

definition writeFileAtomicLocked :: "path \<Rightarrow> string \<Rightarrow> 'b list \<Rightarrow> 'b Disk \<Rightarrow> 'b Disk" where
  "writeFileAtomicLocked p sfx data d = fold syscall (writeSteps p sfx data) d"

definition fileSaveState :: "path \<Rightarrow> string \<Rightarrow> 'b list \<Rightarrow> 'b Disk \<Rightarrow> 'b Disk" where
  "fileSaveState p sfx st d = writeFileAtomicLocked p sfx st d"

definition saveBothSteps :: "path \<Rightarrow> string \<Rightarrow> 'b list \<Rightarrow> 'b list \<Rightarrow> 'b sysCall list" where
  "saveBothSteps p sfx st snap = writeSteps (snapshotPath p) sfx snap @ writeSteps p sfx st"

definition fileSaveStateAndSnapshot ::
    "path \<Rightarrow> string \<Rightarrow> 'b list \<Rightarrow> 'b list \<Rightarrow> 'b Disk \<Rightarrow> 'b Disk" where
  "fileSaveStateAndSnapshot p sfx st snap d =
     writeFileAtomicLocked p sfx st (writeFileAtomicLocked (snapshotPath p) sfx snap d)"

definition fileReadState :: "path \<Rightarrow> 'b Disk \<Rightarrow> 'b list" where
  "fileReadState p d = readFileOrEmpty p d"

definition fileReadSnapshot :: "path \<Rightarrow> 'b Disk \<Rightarrow> 'b list" where
  "fileReadSnapshot p d = readFileOrEmpty (snapshotPath p) d"

definition emptyDisk :: "'b Disk" where
  "emptyDisk = \<lparr>dir = Map.empty, stableDir = Map.empty, bytes = Map.empty,
                stableBytes = Map.empty, nextFile = 0\<rparr>"

text \<open>
  A settled disk: nothing is waiting for an \<open>fsync\<close>, and file numbers are not reused.
\<close>

definition settled :: "'b Disk \<Rightarrow> bool" where
  "settled d \<longleftrightarrow> stableDir d = dir d \<and>
     (\<forall>n f. dir d n = Some f \<longrightarrow> f < nextFile d \<and> stableBytes d f = bytes d f \<and> bytes d f \<noteq> None)"

lemma names_differ [simp]:
  "tmpName p sfx \<noteq> p" "p \<noteq> tmpName p sfx" "tmpName p sfx \<noteq> snapshotPath p"
  "snapshotPath p \<noteq> tmpName p sfx" "snapshotPath p \<noteq> p" "p \<noteq> snapshotPath p"
  "tmpName (snapshotPath p) sfx \<noteq> p" "p \<noteq> tmpName (snapshotPath p) sfx"
  by (simp_all add: tmpName_def snapshotPath_def)

lemmas write_eval = writeSteps_def Let_def

text \<open>The whole write, in one formula.\<close>

lemma writeFileAtomicLocked_eq:
  "writeFileAtomicLocked p sfx data d =
     (let D = (dir d)(p \<mapsto> nextFile d, tmpName p sfx := None)
      in d\<lparr>dir := D, stableDir := D, bytes := (bytes d)(nextFile d \<mapsto> data),
           stableBytes := (stableBytes d)(nextFile d \<mapsto> data), nextFile := nextFile d + 1\<rparr>)"
  by (simp add: writeFileAtomicLocked_def write_eval fun_upd_twist fun_upd_idem_iff)

lemma writeFileAtomicLocked_read:
  assumes "settled d"
  shows "readFileOrEmpty p (writeFileAtomicLocked p sfx data d) = data"
    "q \<noteq> p \<Longrightarrow> q \<noteq> tmpName p sfx \<Longrightarrow>
       readFileOrEmpty q (writeFileAtomicLocked p sfx data d) = readFileOrEmpty q d"
    "settled (writeFileAtomicLocked p sfx data d)"
  using assms
  by (auto simp: writeFileAtomicLocked_eq readFileOrEmpty_def settled_def Let_def
      intro: less_SucI split: option.split)

interpretation fp: persister_spec emptyDisk "fileSaveState p sfx" "fileSaveStateAndSnapshot p sfx"
    "fileReadState p" "fileReadSnapshot p" id settled for p sfx
proof unfold_locales
  show "settled emptyDisk" by (simp add: settled_def emptyDisk_def)
qed (simp_all add: fileSaveState_def fileSaveStateAndSnapshot_def fileReadState_def
      fileReadSnapshot_def writeFileAtomicLocked_read)

section \<open>Crashes\<close>

text \<open>
  The disk when the machine stops after \<open>k\<close> system calls, seen after the reboot.
\<close>

definition crashAfter ::
    "nat \<Rightarrow> (path \<Rightarrow> bool) \<Rightarrow> (nat \<Rightarrow> 'b list) \<Rightarrow> 'b sysCall list \<Rightarrow> 'b Disk \<Rightarrow> 'b Disk" where
  "crashAfter k keep garbage steps d = crashDisk keep garbage (fold syscall (take k steps) d)"

lemma read_after_crash:
  "readFileOrEmpty q (crashDisk keep garbage d) =
     (case (if keep q then dir d q else stableDir d q) of None \<Rightarrow> []
      | Some f \<Rightarrow> (case stableBytes d f of None \<Rightarrow> garbage f | Some b \<Rightarrow> b))"
  by (simp add: readFileOrEmpty_def crashDisk_def Let_def split: option.split)

lemma settled_entry:
  assumes "settled d"
  obtains (absent) "dir d q = None" "readFileOrEmpty q d = []"
  | (present) f where "dir d q = Some f" "stableBytes d f = Some (readFileOrEmpty q d)" "f \<noteq> nextFile d"
proof (cases "dir d q")
  case (Some f)
  then obtain b where "f < nextFile d" "stableBytes d f = Some b" "bytes d f = Some b"
    using assms unfolding settled_def by fastforce
  with Some present show ?thesis by (simp add: readFileOrEmpty_def)
qed (use absent in \<open>simp add: readFileOrEmpty_def\<close>)

lemma settled_dir: "settled d \<Longrightarrow> stableDir d = dir d"
  by (simp add: settled_def)

lemma crash_settled:
  assumes "settled d"
  shows "readFileOrEmpty q (crashDisk keep garbage d) = readFileOrEmpty q d"
  using assms by (cases q rule: settled_entry [OF assms]) (simp_all add: read_after_crash settled_dir)

lemma less_six: "(k::nat) < 6 \<Longrightarrow> k = 0 \<or> k = 1 \<or> k = 2 \<or> k = 3 \<or> k = 4 \<or> k = 5"
  by linarith

lemma crash_in_write:
  assumes "settled d" "k < 6"
  shows "readFileOrEmpty p (crashAfter k keep garbage (writeSteps p sfx data) d) =
       (if 5 \<le> k \<and> keep p then data else readFileOrEmpty p d)"
    "q \<noteq> p \<Longrightarrow> q \<noteq> tmpName p sfx \<Longrightarrow>
       readFileOrEmpty q (crashAfter k keep garbage (writeSteps p sfx data) d) = readFileOrEmpty q d"
proof -
  note facts = crashAfter_def read_after_crash write_eval settled_dir [OF assms(1)] numeral_eq_Suc
  show "readFileOrEmpty p (crashAfter k keep garbage (writeSteps p sfx data) d) =
       (if 5 \<le> k \<and> keep p then data else readFileOrEmpty p d)"
    using less_six [OF assms(2)]
    by (cases p rule: settled_entry [OF assms(1)]; elim disjE) (simp_all add: facts)
  assume "q \<noteq> p" "q \<noteq> tmpName p sfx"
  then show "readFileOrEmpty q (crashAfter k keep garbage (writeSteps p sfx data) d) = readFileOrEmpty q d"
    using less_six [OF assms(2)]
    by (cases q rule: settled_entry [OF assms(1)]; elim disjE) (simp_all add: facts)
qed

lemma length_writeSteps: "length (writeSteps p sfx data) = 6"
  by (simp add: writeSteps_def Let_def)

lemma crash_after_write:
  assumes "settled d" "6 \<le> k"
  shows "crashAfter k keep garbage (writeSteps p sfx data) d =
     crashDisk keep garbage (writeFileAtomicLocked p sfx data d)"
  using assms(2) by (simp add: crashAfter_def writeFileAtomicLocked_def length_writeSteps)

lemma crash_in_second_write:
  "crashAfter (6 + k) keep garbage (saveBothSteps p sfx st snap) d =
     crashAfter k keep garbage (writeSteps p sfx st) (writeFileAtomicLocked (snapshotPath p) sfx snap d)"
  "k < 6 \<Longrightarrow> crashAfter k keep garbage (saveBothSteps p sfx st snap) d =
     crashAfter k keep garbage (writeSteps (snapshotPath p) sfx snap) d"
  by (simp_all add: crashAfter_def saveBothSteps_def writeFileAtomicLocked_def length_writeSteps)

text \<open>
  (C14) Crash consistency of \<open>FilePersister\<close>: if the machine stops after any number of system calls
  of \<open>SaveStateAndSnapshot\<close>, then after the reboot each file holds its complete old or its complete
  new contents, and the pair is one of three: both old, the old state with the new snapshot, or both
  new. The state is never newer than the snapshot.
\<close>

theorem fileSaveStateAndSnapshot_crash:
  assumes "settled d"
  shows "(fileReadState p (crashAfter k keep garbage (saveBothSteps p sfx st snap) d),
          fileReadSnapshot p (crashAfter k keep garbage (saveBothSteps p sfx st snap) d)) \<in>
     {(fileReadState p d, fileReadSnapshot p d), (fileReadState p d, snap), (st, snap)}"
proof (cases "k < 6")
  case True
  then show ?thesis
    using crash_in_write(1) [OF assms True, of "snapshotPath p" keep garbage sfx snap]
      crash_in_write(2) [OF assms True, of p "snapshotPath p" sfx keep garbage snap]
    by (simp add: crash_in_second_write fileReadState_def fileReadSnapshot_def)
next
  case False
  then obtain j where k: "k = 6 + j" using le_Suc_ex by (metis not_less)
  let ?d = "writeFileAtomicLocked (snapshotPath p) sfx snap d"
  note w = writeFileAtomicLocked_read [OF assms, where p = "snapshotPath p" and sfx = sfx and data = snap]
  note w2 = writeFileAtomicLocked_read [OF w(3), where p = p and sfx = sfx and data = st]
  show ?thesis
  proof (cases "j < 6")
    case True
    then show ?thesis
      using crash_in_write(1) [OF w(3) True, of p keep garbage sfx st]
        crash_in_write(2) [OF w(3) True, of "snapshotPath p" p sfx keep garbage st] w(1,2)
      by (simp add: k crash_in_second_write fileReadState_def fileReadSnapshot_def)
  next
    case False
    then show ?thesis
      using w(1,2) w2
      by (simp add: k crash_in_second_write crash_after_write w(3) crash_settled
          fileReadState_def fileReadSnapshot_def)
  qed
qed

definition exDisk :: "nat Disk" where
  "exDisk = fileSaveStateAndSnapshot ''raft'' ''0'' [1] [10] emptyDisk"

lemma exDisk_settled: "settled exDisk"
  unfolding exDisk_def by (rule fp.invar_saveB [OF fp.invar_empty])

theorem fileSaveStateAndSnapshot_crash_witness:
  "(fileReadState ''raft'' (crashAfter 3 (\<lambda>_. True) (\<lambda>_. [99]) (saveBothSteps ''raft'' ''1'' [2] [20]) exDisk),
    fileReadSnapshot ''raft'' (crashAfter 3 (\<lambda>_. True) (\<lambda>_. [99]) (saveBothSteps ''raft'' ''1'' [2] [20]) exDisk))
     \<in> {([1], [10]), ([1], [20]), ([2], [20])}"
  using fileSaveStateAndSnapshot_crash [OF exDisk_settled, where p = "''raft''"]
  by (simp add: exDisk_def fp.readS_saveB fp.readB_saveB fp.invar_empty)

text \<open>
  The middle outcome is real, also when the old state already refers to a snapshot: after one
  compaction a crash in the second one leaves the state of the first with the snapshot of the second,
  so a node that restores from it pairs its old compaction point with newer state machine contents.
\<close>

theorem crash_pairs_old_state_with_new_snapshot:
  "fileReadState ''raft'' (crashAfter 6 (\<lambda>_. True) (\<lambda>_. []) (saveBothSteps ''raft'' ''1'' [2] [20]) exDisk) = [1] \<and>
   fileReadSnapshot ''raft'' (crashAfter 6 (\<lambda>_. True) (\<lambda>_. []) (saveBothSteps ''raft'' ''1'' [2] [20]) exDisk) = [20]"
proof -
  let ?d = "writeFileAtomicLocked (snapshotPath ''raft'') ''1'' [20] exDisk"
  note w = writeFileAtomicLocked_read [OF exDisk_settled, where p = "snapshotPath ''raft''"]
  have "crashAfter 6 keep g (saveBothSteps ''raft'' ''1'' [2] [20]) exDisk = crashDisk keep g ?d"
    for keep and g :: "nat \<Rightarrow> nat list"
    using crash_in_second_write(1) [of 0] by (simp add: crashAfter_def)
  moreover have "fileReadState ''raft'' exDisk = [1]"
    by (simp add: exDisk_def fp.readS_saveB fp.invar_empty)
  ultimately show ?thesis
    using w by (simp add: crash_settled fileReadState_def fileReadSnapshot_def)
qed

end
