(* ===== verification/Replicated_Machine.thy ===== *)
theory Replicated_Machine
  imports Prelude
begin

text \<open>
  What the replicated state machines share: every logged command carries a client id and a sequence
  number, a table records the highest sequence number applied per client, and a command at or below
  it is skipped. The locale \<open>dedup_machine\<close> states this contract; its lemmas show that a retried
  command is applied at most once and that a prefix can be replaced by the state it leads to.
  \<open>KVServer\<close> and \<open>Ctrler\<close> interpret it on their own apply functions; \<open>GroupServer\<close>, whose table also
  grows by migrations, and \<open>RingCtrler\<close>, whose table also keeps verdicts, use \<open>run_log\<close> with lemmas of
  their own.
\<close>

section \<open>Running a log\<close>

fun run_log :: "('o \<Rightarrow> 's \<Rightarrow> 's res) \<Rightarrow> 'o list \<Rightarrow> 's \<Rightarrow> 's res" where
  "run_log f [] s = Inr s"
| "run_log f (x # xs) s = bind_res (f x s) (run_log f xs)"

lemma run_log_append: "run_log f (xs @ ys) s = bind_res (run_log f xs s) (run_log f ys)"
proof (induction xs arbitrary: s)
  case (Cons x xs)
  then show ?case by (cases "f x s") simp_all
qed simp

lemma run_log_cong:
  assumes "\<And>x s. x \<in> set xs \<Longrightarrow> f x s = g x s"
  shows "run_log f xs s = run_log g xs s"
  using assms
proof (induction xs arbitrary: s)
  case (Cons x xs)
  then show ?case by (cases "g x s") simp_all
qed simp

lemma run_log_invariant:
  assumes "\<And>x s s'. P s \<Longrightarrow> f x s = Inr s' \<Longrightarrow> P s'" "P s" "run_log f xs s = Inr s'"
  shows "P s'"
  using assms(2,3) by (induction xs arbitrary: s) (auto dest: assms(1))

lemma length_filter_key: "distinct (map f xs) \<Longrightarrow> length (filter (\<lambda>x. f x = n) xs) \<le> 1"
proof (induction xs)
  case (Cons a xs)
  have "filter (\<lambda>x. f x = n) xs = []" if "f a = n"
    using Cons.prems that by (auto simp: filter_empty_conv image_iff)
  with Cons show ?case by auto
qed simp

section \<open>Duplicate suppression\<close>

locale dedup_machine =
  fixes clientOf :: "'o \<Rightarrow> int"
    and seqOf :: "'o \<Rightarrow> int"
    and table :: "'s \<Rightarrow> int \<rightharpoonup> int"
    and effect :: "'o \<Rightarrow> 's \<Rightarrow> 's res"
    and mark :: "'o \<Rightarrow> 's \<Rightarrow> 's"
    and applyO :: "'o \<Rightarrow> 's \<Rightarrow> 's res"
  assumes applyO_eq: "applyO x s =
      (if seqOf x > get0 (table s) (clientOf x)
       then bind_res (effect x s) (\<lambda>s'. Inr (mark x s')) else Inr s)"
    and table_effect: "effect x s = Inr s' \<Longrightarrow> table s' = table s"
    and table_mark: "table (mark x s) = (table s)(clientOf x \<mapsto> seqOf x)"
begin

lemma duplicate_skipped: "seqOf x \<le> get0 (table s) (clientOf x) \<Longrightarrow> applyO x s = Inr s"
  by (simp add: applyO_eq)

lemma table_after:
  assumes "applyO x s = Inr s'"
  shows "table s' = (if seqOf x > get0 (table s) (clientOf x)
                     then (table s)(clientOf x \<mapsto> seqOf x) else table s)"
  using assms table_effect by (fastforce simp: applyO_eq table_mark split: if_splits)

lemma table_mono: "applyO x s = Inr s' \<Longrightarrow> get0 (table s) c \<le> get0 (table s') c"
  by (auto simp: table_after)

lemma run_mono: "run_log applyO xs s = Inr s' \<Longrightarrow> get0 (table s) c \<le> get0 (table s') c"
  by (induction xs arbitrary: s) (auto intro: order_trans table_mono)

lemma seen_after: "applyO x s = Inr s' \<Longrightarrow> seqOf x \<le> get0 (table s') (clientOf x)"
  by (auto simp: table_after)

lemma seen_after_run:
  assumes "run_log applyO xs s = Inr s'" "x \<in> set xs"
  shows "seqOf x \<le> get0 (table s') (clientOf x)"
  using assms
proof (induction xs arbitrary: s)
  case (Cons y ys)
  then obtain s1 where s1: "applyO y s = Inr s1" "run_log applyO ys s1 = Inr s'" by auto
  show ?case
  proof (cases "x = y")
    case True
    then show ?thesis using seen_after [OF s1(1)] run_mono [OF s1(2), of "clientOf x"] by simp
  qed (use Cons s1 in auto)
qed simp

text \<open>A second copy of a command anywhere later in the log changes nothing.\<close>

lemma retry_absorbed:
  assumes "x \<in> set xs"
  shows "run_log applyO (xs @ x # ys) s = run_log applyO (xs @ ys) s"
proof (cases "run_log applyO xs s")
  case (Inr s')
  have "applyO x s' = Inr s'"
    by (rule duplicate_skipped [OF seen_after_run [OF Inr assms]])
  with Inr show ?thesis by (simp add: run_log_append)
qed (simp add: run_log_append)

text \<open>The commands of a log that take effect.\<close>

fun effective :: "'o list \<Rightarrow> 's \<Rightarrow> 'o list" where
  "effective [] s = []"
| "effective (x # xs) s =
     (case applyO x s of Inl e \<Rightarrow> []
      | Inr s' \<Rightarrow> (if seqOf x > get0 (table s) (clientOf x) then x # effective xs s' else effective xs s'))"

lemma run_effective:
  "run_log applyO xs s = Inr s' \<Longrightarrow> run_log applyO (effective xs s) s = Inr s'"
proof (induction xs arbitrary: s)
  case (Cons x xs)
  then obtain s1 where "applyO x s = Inr s1" "run_log applyO xs s1 = Inr s'" by auto
  with Cons.IH [OF this(2)] show ?case by (auto simp: duplicate_skipped)
qed simp

lemma effective_above:
  "x \<in> set (effective xs s) \<Longrightarrow> get0 (table s) (clientOf x) < seqOf x"
proof (induction xs arbitrary: s)
  case (Cons y ys)
  from Cons.prems obtain s1 where s1: "applyO y s = Inr s1" by (cases "applyO y s") auto
  then have "x = y \<and> seqOf y > get0 (table s) (clientOf y) \<or> x \<in> set (effective ys s1)"
    using Cons.prems by (auto split: if_splits)
  then show ?case
  proof
    assume "x \<in> set (effective ys s1)"
    from Cons.IH [OF this] table_mono [OF s1, of "clientOf x"] show ?thesis by linarith
  qed simp
qed simp

text \<open>Per client, the sequence numbers that take effect strictly increase: at most once each.\<close>

lemma effective_increasing:
  "sorted_wrt (<) (map seqOf (filter (\<lambda>x. clientOf x = c) (effective xs s)))"
proof (induction xs arbitrary: s)
  case (Cons y ys)
  show ?case
  proof (cases "applyO y s")
    case (Inr s1)
    have "seqOf y < seqOf x" if "x \<in> set (effective ys s1)" "clientOf x = clientOf y" for x
      using effective_above [OF that(1)] seen_after [OF Inr] that(2) by simp
    then show ?thesis using Inr Cons.IH by auto
  qed simp
qed simp

text \<open>
  A command whose number is the client's highest, above what the table started with, takes effect.
\<close>

lemma effective_contains:
  assumes "run_log applyO xs s = Inr s'" "x \<in> set xs" "get0 (table s) (clientOf x) < seqOf x"
    and "\<And>y. y \<in> set xs \<Longrightarrow> clientOf y = clientOf x \<Longrightarrow> seqOf y < seqOf x \<or> y = x"
  shows "x \<in> set (effective xs s)"
  using assms
proof (induction xs arbitrary: s)
  case (Cons y ys)
  then obtain s1 where s1: "applyO y s = Inr s1" "run_log applyO ys s1 = Inr s'" by auto
  show ?case
  proof (cases "y = x")
    case True
    then show ?thesis using s1 Cons.prems(3) by simp
  next
    case False
    then have "get0 (table s1) (clientOf x) < seqOf x"
      using table_after [OF s1(1)] Cons.prems(3) Cons.prems(4) [of y] by (auto split: if_splits)
    then have "x \<in> set (effective ys s1)"
      using Cons.IH [OF s1(2)] Cons.prems(2,4) False by simp
    then show ?thesis using s1 by simp
  qed
qed simp

lemma effective_once:
  "length (filter (\<lambda>x. clientOf x = c \<and> seqOf x = n) (effective xs s)) \<le> 1"
proof -
  let ?f = "filter (\<lambda>x. clientOf x = c) (effective xs s)"
  have "sorted_wrt (<) (map seqOf ?f)" by (rule effective_increasing)
  then have "distinct (map seqOf ?f)" by (simp add: strict_sorted_iff)
  then have "length (filter (\<lambda>x. seqOf x = n) ?f) \<le> 1"
    by (rule length_filter_key)
  then show ?thesis by (simp add: conj_commute)
qed

end

end
