(* ===== verification/KV_Server.thy ===== *)
theory KV_Server
  imports Raft_Persist Replicated_Machine
begin

text \<open>
  The key-value server and its client (\<open>src/02-kv-store\<close>): the state machine driven by the
  committed log, duplicate suppression, snapshots handed to and received from Raft, the read gate
  of \<open>Get\<close>, the waiting logic of \<open>PutAppend\<close> and the retry loops of the clerk.

  A \<open>KVServer\<close> embeds its Raft node, whose command type is \<open>Op\<close> and whose snapshot type is
  \<open>kvSnapshot\<close> (gob encoding followed by decoding is the identity). \<open>notifyChans\<close> maps a log index
  to the one-place channel of the call waiting there, and \<open>chans\<close> holds the contents of the
  channels, so that a call that lost its registration still owns its channel. The size function of
  the encoded Raft state, which the snapshot policy consults, is a parameter.
\<close>

section \<open>State and messages\<close>

record Op =
  opType :: string
  opKey :: string
  opValue :: string
  opClientID :: int
  opSeqNum :: int

datatype Err = OK | ErrNoKey | ErrWrongLeader | ErrTimeout

record GetReply =
  grErr :: Err
  grValue :: string

record PutAppendArgs =
  paKey :: string
  paValue :: string
  paOp :: string
  paClientID :: int
  paSeqNum :: int

record kvSnapshot =
  Store :: "string \<rightharpoonup> string"
  DuplicateTable :: "int \<rightharpoonup> int"

record KVServer =
  rf :: "(Op, kvSnapshot) Raft"
  store :: "string \<rightharpoonup> string"
  notifyChans :: "int \<rightharpoonup> nat"
  chans :: "nat \<rightharpoonup> Op"
  nextChan :: nat
  duplicateTable :: "int \<rightharpoonup> int"
  maxRaftState :: int
  noopAppliedTerm :: int

section \<open>The state machine\<close>

definition restoreSnapshot :: "kvSnapshot option \<Rightarrow> KVServer \<Rightarrow> KVServer res" where
  "restoreSnapshot data kv =
     (case data of
        None \<Rightarrow> Inl (Panic ''kvstore: failed to decode persisted snapshot'')
      | Some snap \<Rightarrow> Inr (kv\<lparr>store := Store snap, duplicateTable := DuplicateTable snap\<rparr>))"

definition NewKVServer :: "(Op, kvSnapshot) Raft \<Rightarrow> int \<Rightarrow> KVServer res" where
  "NewKVServer r maxState =
     (let kv = \<lparr>rf = r, store = Map.empty, notifyChans = Map.empty, chans = Map.empty, nextChan = 0,
                duplicateTable = Map.empty, maxRaftState = maxState, noopAppliedTerm = 0\<rparr>
      in case ReadSnapshot r of None \<Rightarrow> Inr kv | Some snap \<Rightarrow> restoreSnapshot (Some snap) kv)"

definition snapshotLocked :: "int \<Rightarrow> KVServer \<Rightarrow> KVServer res" where
  "snapshotLocked index kv =
     (let data = \<lparr>Store = store kv, DuplicateTable = duplicateTable kv\<rparr>
      in case Snapshot index (Some data) (rf kv) of
           Inl e \<Rightarrow> Inl (Panic ''kvstore: failed to snapshot'')
         | Inr r \<Rightarrow> Inr (kv\<lparr>rf := r\<rparr>))"

definition mutate :: "Op \<Rightarrow> KVServer \<Rightarrow> KVServer res" where
  "mutate op kv =
     (if opType op = ''Put'' then Inr (kv\<lparr>store := (store kv)(opKey op \<mapsto> opValue op)\<rparr>)
      else if opType op = ''Append''
        then Inr (kv\<lparr>store := (store kv)(opKey op \<mapsto>
               (case store kv (opKey op) of None \<Rightarrow> '''' | Some v \<Rightarrow> v) @ opValue op)\<rparr>)
      else if opType op = ''Noop'' then Inr kv
      else Inl (Panic ''kvstore: applyLoop received an unknown Op type''))"

definition markApplied :: "Op \<Rightarrow> KVServer \<Rightarrow> KVServer" where
  "markApplied op kv = kv\<lparr>duplicateTable := (duplicateTable kv)(opClientID op \<mapsto> opSeqNum op)\<rparr>"

definition applyOp :: "Op \<Rightarrow> KVServer \<Rightarrow> KVServer res" where
  "applyOp op kv =
     (if opSeqNum op > get0 (duplicateTable kv) (opClientID op)
      then bind_res (mutate op kv) (\<lambda>kv'. Inr (markApplied op kv'))
      else Inr kv)"

definition notifyWaiter :: "int \<Rightarrow> Op \<Rightarrow> KVServer \<Rightarrow> KVServer" where
  "notifyWaiter index op kv =
     (case notifyChans kv index of
        None \<Rightarrow> kv
      | Some ch \<Rightarrow> kv\<lparr>notifyChans := (notifyChans kv)(index := None), chans := (chans kv)(ch \<mapsto> op)\<rparr>)"

definition applyLoop_step ::
    "(Op persistedState \<Rightarrow> int) \<Rightarrow> (Op, kvSnapshot) ApplyMsg \<Rightarrow> KVServer \<Rightarrow> KVServer res" where
  "applyLoop_step encodedLength msg kv =
     (case msg of
        SnapshotMsg data _ _ \<Rightarrow> restoreSnapshot data kv
      | CommandMsg index t op \<Rightarrow>
          (let kv1 = (if opType op = ''Noop'' then kv\<lparr>noopAppliedTerm := t\<rparr> else kv)
           in bind_res (applyOp op kv1) (\<lambda>kv2.
                let kv3 = notifyWaiter index op kv2
                in if maxRaftState kv3 \<noteq> -1 \<and> RaftStateSize encodedLength (rf kv3) \<ge> maxRaftState kv3
                   then snapshotLocked index kv3 else Inr kv3)))"

definition noopLoop_tick :: "int \<Rightarrow> KVServer \<Rightarrow> int \<times> KVServer" where
  "noopLoop_tick lastNoopTerm kv =
     (if state (rf kv) \<noteq> Leader then (lastNoopTerm, kv)
      else let t = currentTerm (rf kv)
           in if t = lastNoopTerm then (lastNoopTerm, kv)
              else (case Propose \<lparr>opType = ''Noop'', opKey = '''', opValue = '''', opClientID = 0, opSeqNum = 0\<rparr>
                                 (rf kv) of
                      ((_, _, isLeader), r) \<Rightarrow>
                        (if isLeader then t else lastNoopTerm, kv\<lparr>rf := r\<rparr>)))"

section \<open>Client-facing handlers\<close>

definition kvGet :: "string \<Rightarrow> KVServer \<Rightarrow> string option" where
  "kvGet key kv = store kv key"

definition Get :: "string \<Rightarrow> KVServer \<Rightarrow> GetReply" where
  "Get key kv =
     (if state (rf kv) \<noteq> Leader then \<lparr>grErr = ErrWrongLeader, grValue = ''''\<rparr>
      else let t = currentTerm (rf kv)
           in if noopAppliedTerm kv \<noteq> t then \<lparr>grErr = ErrWrongLeader, grValue = ''''\<rparr>
              else (case kvGet key kv of
                      None \<Rightarrow> \<lparr>grErr = ErrNoKey, grValue = ''''\<rparr>
                    | Some v \<Rightarrow> \<lparr>grErr = OK, grValue = v\<rparr>))"

text \<open>
  \<open>PutAppend\<close> proposes the operation and registers a channel; then its loop reacts to the channel,
  the deadline or a leadership check, whichever comes first, and the registration is removed on return.
\<close>

record putWait =
  pwOp :: Op
  pwIndex :: int
  pwTerm :: int
  pwChan :: nat

definition putOp :: "PutAppendArgs \<Rightarrow> Op" where
  "putOp args = \<lparr>opType = paOp args, opKey = paKey args, opValue = paValue args,
                 opClientID = paClientID args, opSeqNum = paSeqNum args\<rparr>"

definition PutAppend_propose :: "PutAppendArgs \<Rightarrow> KVServer \<Rightarrow> (int \<times> int) option \<times> KVServer" where
  "PutAppend_propose args kv =
     (case Propose (putOp args) (rf kv) of
        ((index, t, isLeader), r) \<Rightarrow> (if isLeader then Some (index, t) else None, kv\<lparr>rf := r\<rparr>))"

definition PutAppend_register :: "PutAppendArgs \<Rightarrow> int \<Rightarrow> int \<Rightarrow> KVServer \<Rightarrow> putWait \<times> KVServer" where
  "PutAppend_register args index t kv =
     (\<lparr>pwOp = putOp args, pwIndex = index, pwTerm = t, pwChan = nextChan kv\<rparr>,
      kv\<lparr>notifyChans := (notifyChans kv)(index \<mapsto> nextChan kv), nextChan := nextChan kv + 1\<rparr>)"

datatype putEvent = ChanReady | Deadline | LeaderCheck

definition PutAppend_wait :: "putWait \<Rightarrow> putEvent \<Rightarrow> KVServer \<Rightarrow> Err option" where
  "PutAppend_wait w ev kv =
     (case ev of
        ChanReady \<Rightarrow>
          (case chans kv (pwChan w) of
             None \<Rightarrow> None
           | Some applied \<Rightarrow> Some (if applied \<noteq> pwOp w then ErrWrongLeader else OK))
      | Deadline \<Rightarrow> Some ErrTimeout
      | LeaderCheck \<Rightarrow>
          (if currentTerm (rf kv) \<noteq> pwTerm w \<or> state (rf kv) \<noteq> Leader then Some ErrWrongLeader else None))"

definition PutAppend_return :: "putWait \<Rightarrow> KVServer \<Rightarrow> KVServer" where
  "PutAppend_return w kv = kv\<lparr>notifyChans := (notifyChans kv)(pwIndex w := None)\<rparr>"

section \<open>At-most-once application\<close>

lemma mutate_Inr:
  "mutate op kv = Inr kv' \<Longrightarrow> duplicateTable kv' = duplicateTable kv \<and> rf kv' = rf kv \<and>
     notifyChans kv' = notifyChans kv \<and> chans kv' = chans kv \<and> nextChan kv' = nextChan kv \<and>
     noopAppliedTerm kv' = noopAppliedTerm kv"
  by (auto simp: mutate_def split: if_splits)

interpretation kvm: dedup_machine opClientID opSeqNum duplicateTable mutate markApplied applyOp
  by unfold_locales (auto simp: applyOp_def markApplied_def dest: mutate_Inr)

lemma applyOp_frame:
  assumes "applyOp op kv = Inr kv'"
  shows "rf kv' = rf kv" "notifyChans kv' = notifyChans kv" "chans kv' = chans kv"
    "nextChan kv' = nextChan kv" "noopAppliedTerm kv' = noopAppliedTerm kv"
  using assms by (auto simp: applyOp_def markApplied_def dest!: mutate_Inr split: if_splits)

text \<open>
  A retried write has no second effect: if a command already occurs in the committed log, a
  further copy of it (the retry of a client that could not tell whether its first attempt
  succeeded) can be deleted from the log without changing the outcome on any replica.
\<close>

theorem kv_retry_absorbed:
  assumes "op \<in> set before"
  shows "run_log applyOp (before @ op # after) kv = run_log applyOp (before @ after) kv"
  using assms by (rule kvm.retry_absorbed)

definition exAppend :: Op where
  "exAppend = \<lparr>opType = ''Append'', opKey = ''k'', opValue = ''v'', opClientID = 7, opSeqNum = 1\<rparr>"

definition exKV :: KVServer where
  "exKV = \<lparr>rf = NewRaft 1 [2, 3], store = Map.empty, notifyChans = Map.empty, chans = Map.empty,
     nextChan = 0, duplicateTable = Map.empty, maxRaftState = -1, noopAppliedTerm = 0\<rparr>"

theorem kv_retry_absorbed_witness:
  "map_sum id (\<lambda>kv. store kv ''k'') (run_log applyOp [exAppend, exAppend] exKV) = Inr (Some ''v'')"
  using kv_retry_absorbed [of exAppend "[exAppend]" "[]" exKV]
  by (simp add: applyOp_def mutate_def markApplied_def exAppend_def exKV_def)

section \<open>Replicas agree\<close>

text \<open>
  The abstract key-value machine: the replicated state without Raft node, channels and read gate,
  and the state a log prefix leads to.
\<close>

definition kvAbs :: "KVServer \<Rightarrow> kvSnapshot" where
  "kvAbs kv = \<lparr>Store = store kv, DuplicateTable = duplicateTable kv\<rparr>"

definition specOp :: "Op \<Rightarrow> kvSnapshot \<Rightarrow> kvSnapshot res" where
  "specOp op s =
     (if opSeqNum op \<le> get0 (DuplicateTable s) (opClientID op) then Inr s
      else if opType op \<notin> {''Put'', ''Append'', ''Noop''}
        then Inl (Panic ''kvstore: applyLoop received an unknown Op type'')
      else let old = (case Store s (opKey op) of None \<Rightarrow> '''' | Some v \<Rightarrow> v);
               st = (if opType op = ''Noop'' then Store s
                     else (Store s)(opKey op \<mapsto>
                            (if opType op = ''Put'' then opValue op else old @ opValue op)))
           in Inr \<lparr>Store = st, DuplicateTable = (DuplicateTable s)(opClientID op \<mapsto> opSeqNum op)\<rparr>)"

definition specState :: "Op list \<Rightarrow> kvSnapshot res" where
  "specState ops = run_log specOp ops \<lparr>Store = Map.empty, DuplicateTable = Map.empty\<rparr>"

lemma applyOp_refines: "specOp op (kvAbs kv) = map_sum id kvAbs (applyOp op kv)"
  by (auto simp: specOp_def applyOp_def kvAbs_def mutate_def markApplied_def Let_def)

lemma kvAbs_frame [simp]:
  "kvAbs (kv\<lparr>noopAppliedTerm := t\<rparr>) = kvAbs kv" "kvAbs (notifyWaiter i op kv) = kvAbs kv"
  "kvAbs (kv\<lparr>rf := r\<rparr>) = kvAbs kv"
  by (simp_all add: kvAbs_def notifyWaiter_def split: option.split)

lemma specState_snoc: "specState (ops @ [op]) = bind_res (specState ops) (specOp op)"
  by (simp add: specState_def run_log_append bind_res_def split: sum.split)

text \<open>What one message of the apply channel does.\<close>

lemma applyLoop_step_Command:
  assumes "applyLoop_step sz (CommandMsg i t op) kv = Inr kv'"
  obtains kv2 where
    "applyOp op (if opType op = ''Noop'' then kv\<lparr>noopAppliedTerm := t\<rparr> else kv) = Inr kv2"
    "kv' = notifyWaiter i op kv2 \<or>
     (\<exists>r. Snapshot i (Some (kvAbs kv2)) (rf kv2) = Inr r \<and> kv' = (notifyWaiter i op kv2)\<lparr>rf := r\<rparr>)"
proof -
  from assms obtain kv2 where
    a: "applyOp op (if opType op = ''Noop'' then kv\<lparr>noopAppliedTerm := t\<rparr> else kv) = Inr kv2"
    and b: "kv' = notifyWaiter i op kv2 \<or> snapshotLocked i (notifyWaiter i op kv2) = Inr kv'"
    by (auto simp: applyLoop_step_def Let_def split: if_splits)
  have "rf (notifyWaiter i op kv2) = rf kv2" by (simp add: notifyWaiter_def split: option.split)
  moreover have "\<lparr>Store = store (notifyWaiter i op kv2),
      DuplicateTable = duplicateTable (notifyWaiter i op kv2)\<rparr> = kvAbs kv2"
    using kvAbs_frame(2) [of i op kv2] by (simp add: kvAbs_def)
  ultimately show ?thesis
    using b that [OF a] by (auto simp: snapshotLocked_def split: sum.splits)
qed

lemma applyLoop_step_Snapshot:
  "applyLoop_step sz (SnapshotMsg (Some snap) i t) kv =
     Inr (kv\<lparr>store := Store snap, duplicateTable := DuplicateTable snap\<rparr>)"
  by (simp add: applyLoop_step_def restoreSnapshot_def)

text \<open>
  \<open>consumes L i ms\<close>: the messages \<open>ms\<close> continue a replica that stands at index \<open>i\<close> of the
  committed log \<open>L\<close>, entry by entry or by a jump to a snapshot of a prefix of \<open>L\<close>; the result is
  the index it stands at afterwards.
\<close>

fun consumes :: "Op list \<Rightarrow> nat \<Rightarrow> (Op, kvSnapshot) ApplyMsg list \<Rightarrow> nat option" where
  "consumes L i [] = Some i"
| "consumes L i (CommandMsg index t op # ms) =
     (if index = int i + 1 \<and> i < length L \<and> L ! i = op then consumes L (i + 1) ms else None)"
| "consumes L i (SnapshotMsg data index t # ms) =
     (case data of None \<Rightarrow> None
      | Some snap \<Rightarrow>
         (if 0 \<le> index \<and> index \<le> int (length L) \<and> specState (take (nat index) L) = Inr snap
          then consumes L (nat index) ms else None))"

lemma specState_step:
  assumes "specState (take i L) = Inr (kvAbs kv)" "i < length L" "applyOp (L ! i) kv = Inr kv'"
  shows "specState (take (Suc i) L) = Inr (kvAbs kv')"
  using assms by (simp add: take_Suc_conv_app_nth specState_snoc applyOp_refines)

lemma kv_agreement:
  assumes "consumes L i ms = Some j" "specState (take i L) = Inr (kvAbs kv)"
    "run_log (applyLoop_step sz) ms kv = Inr kv'"
  shows "specState (take j L) = Inr (kvAbs kv')"
  using assms
proof (induction L i ms arbitrary: kv rule: consumes.induct)
  case (2 L i index t op ms)
  then obtain kv1 where kv1: "applyLoop_step sz (CommandMsg index t op) kv = Inr kv1"
    "run_log (applyLoop_step sz) ms kv1 = Inr kv'" by auto
  have cond: "index = int i + 1 \<and> i < length L \<and> L ! i = op" using "2.prems"(1) by (simp split: if_splits)
  obtain kv2 where kv2:
    "applyOp op (if opType op = ''Noop'' then kv\<lparr>noopAppliedTerm := t\<rparr> else kv) = Inr kv2"
    "kvAbs kv1 = kvAbs kv2"
    using applyLoop_step_Command [OF kv1(1)] by (metis kvAbs_frame(2,3))
  have "specState (take i L) = Inr (kvAbs (if opType op = ''Noop'' then kv\<lparr>noopAppliedTerm := t\<rparr> else kv))"
    using "2.prems"(2) by simp
  from specState_step [OF this] cond kv2 have "specState (take (i + 1) L) = Inr (kvAbs kv1)" by simp
  with "2.IH" [OF cond _ _ kv1(2)] "2.prems"(1) cond show ?case by simp
next
  case (3 L i data index t ms)
  then obtain snap where snap: "data = Some snap" "0 \<le> index \<and> index \<le> int (length L) \<and>
      specState (take (nat index) L) = Inr snap" "consumes L (nat index) ms = Some j"
    by (auto split: option.splits if_splits)
  let ?kv = "kv\<lparr>store := Store snap, duplicateTable := DuplicateTable snap\<rparr>"
  have "run_log (applyLoop_step sz) ms ?kv = Inr kv'"
    using "3.prems"(3) snap(1) by (simp add: applyLoop_step_Snapshot)
  moreover have "specState (take (nat index) L) = Inr (kvAbs ?kv)" using snap(2) by (simp add: kvAbs_def)
  ultimately show ?case using "3.IH" snap by simp
qed simp

text \<open>
  (C17) Replica agreement: a replica that starts empty and consumes the committed log, entry by entry
  or by jumping to snapshots of it, holds exactly the state of the abstract machine at the index it
  has reached, so any two replicas at the same index hold the same store and the same table of
  applied requests, whichever way each of them got there.
\<close>

theorem kv_replica_agreement:
  assumes "kvAbs kv = \<lparr>Store = Map.empty, DuplicateTable = Map.empty\<rparr>"
    and "consumes L 0 ms = Some j" "run_log (applyLoop_step sz) ms kv = Inr kv'"
  shows "specState (take j L) = Inr (kvAbs kv')"
proof (rule kv_agreement [OF assms(2) _ assms(3)])
  show "specState (take 0 L) = Inr (kvAbs kv)" using assms(1) by (simp add: specState_def)
qed

definition exPut :: Op where
  "exPut = \<lparr>opType = ''Put'', opKey = ''k'', opValue = ''w'', opClientID = 7, opSeqNum = 2\<rparr>"

lemmas kv_eval = applyLoop_step_def applyOp_def mutate_def markApplied_def notifyWaiter_def
  restoreSnapshot_def specState_def specOp_def exAppend_def exPut_def exKV_def

theorem kv_replica_agreement_witness:
  "\<exists>kv' snap. run_log (applyLoop_step (\<lambda>_. 0))
       [SnapshotMsg (Some snap) 1 1, CommandMsg 2 1 exPut] exKV = Inr kv' \<and>
     specState [exAppend, exPut] = Inr (kvAbs kv') \<and> store kv' ''k'' = Some ''w''"
proof -
  obtain snap where snap: "specState [exAppend] = Inr snap" "DuplicateTable snap = [7 \<mapsto> 1]"
    by (simp add: kv_eval)
  let ?ms = "[SnapshotMsg (Some snap) 1 1, CommandMsg 2 1 exPut]"
  have "kvAbs exKV = \<lparr>Store = Map.empty, DuplicateTable = Map.empty\<rparr>"
    by (simp add: kvAbs_def exKV_def)
  moreover have "consumes [exAppend, exPut] 0 ?ms = Some 2"
    using snap(1) by simp
  moreover obtain kv' where kv': "run_log (applyLoop_step (\<lambda>_. 0)) ?ms exKV = Inr kv'"
      "store kv' ''k'' = Some ''w''"
    using snap(2) by (simp add: kv_eval)
  ultimately have "specState (take 2 [exAppend, exPut]) = Inr (kvAbs kv')"
    by (intro kv_replica_agreement)
  with kv' show ?thesis by auto
qed

section \<open>Compaction and restart\<close>

text \<open>
  (C18) Compaction loses nothing: when the size policy makes the apply loop hand a snapshot to Raft,
  a server restarted from the node's persister right afterwards comes back with the same store and
  the same table of applied requests, standing at the index of the entry just applied and with the
  same remaining log.
\<close>

theorem kv_compaction_restart:
  assumes "applyLoop_step sz (CommandMsg i t op) kv = Inr kv'"
    and "maxRaftState kv \<noteq> -1" "maxRaftState kv \<le> RaftStateSize sz (rf kv)"
    and "0 \<le> lastIncludedIndex (rf kv)" "lastIncludedIndex (rf kv) < i"
    and "persister (rf kv') = Some p"
  shows "\<exists>kv0. NewKVServer (NewRaftWithPersister (rid (rf kv')) (peers (rf kv')) p) m = Inr kv0 \<and>
     kvAbs kv0 = kvAbs kv' \<and> lastIncludedIndex (rf kv0) = i \<and> log (rf kv0) = log (rf kv')"
proof -
  let ?kv1 = "if opType op = ''Noop'' then kv\<lparr>noopAppliedTerm := t\<rparr> else kv"
  from assms(1) obtain kv2 where kv2: "applyOp op ?kv1 = Inr kv2"
    and fin: "(if maxRaftState (notifyWaiter i op kv2) \<noteq> -1 \<and>
        RaftStateSize sz (rf (notifyWaiter i op kv2)) \<ge> maxRaftState (notifyWaiter i op kv2)
       then snapshotLocked i (notifyWaiter i op kv2) else Inr (notifyWaiter i op kv2)) = Inr kv'"
    by (auto simp: applyLoop_step_def Let_def)
  have "rf kv2 = rf kv" using applyOp_frame(1) [OF kv2] by simp
  moreover have "maxRaftState kv2 = maxRaftState kv"
    using kv2 by (auto simp: applyOp_def markApplied_def mutate_def split: if_splits)
  moreover have nw: "rf (notifyWaiter i op kv2) = rf kv2" "maxRaftState (notifyWaiter i op kv2) = maxRaftState kv2"
    by (simp_all add: notifyWaiter_def split: option.split)
  ultimately have "snapshotLocked i (notifyWaiter i op kv2) = Inr kv'"
    using fin assms(2,3) by simp
  then obtain r where r: "Snapshot i (Some (kvAbs (notifyWaiter i op kv2))) (rf kv2) = Inr r"
      "kv' = (notifyWaiter i op kv2)\<lparr>rf := r\<rparr>"
    by (auto simp: snapshotLocked_def kvAbs_def nw split: sum.splits)
  have "durable r" "lastIncludedIndex r = i" "snapshotData r = Some (kvAbs (notifyWaiter i op kv2))"
    using r(1) assms(4,5) \<open>rf kv2 = rf kv\<close> by (auto simp: Snapshot_Inr intro!: durable_persistSnapshotLocked)
  then show ?thesis
    using assms(6) r(2)
    by (auto simp: durable_def ReadSnapshot_def encodeStateLocked_def NewKVServer_def
        restoreSnapshot_def kvAbs_def)
qed

definition exCompacting :: KVServer where
  "exCompacting = exKV\<lparr>maxRaftState := 0,
     rf := (NewRaftWithPersister 1 [2, 3] NewMemoryPersister)
       \<lparr>log := [\<lparr>entryTerm = 1, entryCommand = exAppend\<rparr>], commitIndex := 1, lastApplied := 1\<rparr>\<rparr>"

theorem kv_compaction_restart_witness:
  "\<exists>kv' p kv0. applyLoop_step (\<lambda>_. 1) (CommandMsg 1 1 exAppend) exCompacting = Inr kv' \<and>
     persister (rf kv') = Some p \<and> NewKVServer (NewRaftWithPersister 1 [2, 3] p) (-1) = Inr kv0 \<and>
     store kv0 ''k'' = Some ''v''"
proof -
  note ev = exCompacting_def kv_eval snapshotLocked_def RaftStateSize_def boot_fields Snapshot_def
    lastLogInfoLocked_def termAtLocked_def physicalIndexLocked_def slice_from_def persistSnapshotLocked_def Let_def
  have pers: "persister (NewRaftWithPersister 1 [2, 3] NewMemoryPersister :: (Op, kvSnapshot) Raft) = Some NewMemoryPersister"
    by (simp add: NewRaftWithPersister_def newRaft_def restoreLocked_def NewMemoryPersister_def ReadState_def)
  obtain kv' p where kv': "applyLoop_step (\<lambda>_. 1) (CommandMsg 1 1 exAppend) exCompacting = Inr kv'"
      "persister (rf kv') = Some p" "store kv' ''k'' = Some ''v''" "rid (rf kv') = 1" "peers (rf kv') = [2, 3]"
    by (simp add: ev pers)
  have pre: "maxRaftState exCompacting \<noteq> -1" "maxRaftState exCompacting \<le> RaftStateSize (\<lambda>_. 1) (rf exCompacting)"
      "0 \<le> lastIncludedIndex (rf exCompacting)" "lastIncludedIndex (rf exCompacting) < 1"
    by (simp_all add: exCompacting_def RaftStateSize_def boot_fields)
  have "\<exists>kv0. NewKVServer (NewRaftWithPersister (rid (rf kv')) (peers (rf kv')) p) (-1) = Inr kv0 \<and>
      kvAbs kv0 = kvAbs kv' \<and> lastIncludedIndex (rf kv0) = 1 \<and> log (rf kv0) = log (rf kv')"
    by (rule kv_compaction_restart [OF kv'(1) pre kv'(2)])
  then obtain kv0 where kv0: "NewKVServer (NewRaftWithPersister 1 [2, 3] p) (-1) = Inr kv0" "kvAbs kv0 = kvAbs kv'"
    unfolding kv'(4,5) by blast
  then have "store kv0 ''k'' = Some ''v''" using kv'(3) by (simp add: kvAbs_def)
  with kv'(1,2) kv0(1) show ?thesis by blast
qed

section \<open>The read gate\<close>

definition isNoopOf :: "int \<Rightarrow> (Op, kvSnapshot) ApplyMsg \<Rightarrow> bool" where
  "isNoopOf t msg = (case msg of CommandMsg _ t' op \<Rightarrow> t' = t \<and> opType op = ''Noop'' | _ \<Rightarrow> False)"

lemma noopAppliedTerm_step:
  assumes "applyLoop_step sz msg kv = Inr kv'"
  shows "noopAppliedTerm kv' = noopAppliedTerm kv \<or> isNoopOf (noopAppliedTerm kv') msg"
proof (cases msg)
  case (CommandMsg i t op)
  from assms [unfolded CommandMsg] obtain kv2 where kv2:
    "applyOp op (if opType op = ''Noop'' then kv\<lparr>noopAppliedTerm := t\<rparr> else kv) = Inr kv2"
    "noopAppliedTerm kv' = noopAppliedTerm kv2"
    by (rule applyLoop_step_Command) (auto simp: notifyWaiter_def split: option.splits)
  then show ?thesis using applyOp_frame(5) [OF kv2(1)] CommandMsg by (auto simp: isNoopOf_def)
next
  case (SnapshotMsg data i t)
  then show ?thesis using assms by (cases data) (auto simp: applyLoop_step_def restoreSnapshot_def)
qed

lemma noopAppliedTerm_run:
  assumes "run_log (applyLoop_step sz) ms kv = Inr kv'"
  shows "noopAppliedTerm kv' = noopAppliedTerm kv \<or> (\<exists>msg \<in> set ms. isNoopOf (noopAppliedTerm kv') msg)"
  using assms
proof (induction ms arbitrary: kv)
  case (Cons m ms)
  then obtain kv1 where "applyLoop_step sz m kv = Inr kv1" "run_log (applyLoop_step sz) ms kv1 = Inr kv'"
    by auto
  with Cons.IH [OF this(2)] noopAppliedTerm_step [OF this(1)] show ?case by auto
qed simp

lemma Get_answers:
  "grErr (Get key kv) \<in> {OK, ErrNoKey} \<longleftrightarrow>
     state (rf kv) = Leader \<and> noopAppliedTerm kv = currentTerm (rf kv)"
  "grErr (Get key kv) = OK \<Longrightarrow> store kv key = Some (grValue (Get key kv))"
  "grErr (Get key kv) = ErrNoKey \<Longrightarrow> store kv key = None"
  by (auto simp: Get_def kvGet_def Let_def split: option.splits if_splits)

text \<open>
  The read gate of \<open>Get\<close>: a server that has consumed the messages \<open>ms\<close> from its start answers a
  read only while its node is leader and only after it has applied a no-op committed in the node's
  current term, and the answer is the abstract machine's value at the index it has reached.
\<close>

theorem Get_read_gate:
  assumes "NewKVServer r m = Inr kv" "snapshotData r = None" "run_log (applyLoop_step sz) ms kv = Inr kv'"
    and "consumes L 0 ms = Some j" "kv'' = kv'\<lparr>rf := r'\<rparr>" "currentTerm r' \<noteq> 0"
    and "grErr (Get key kv'') \<in> {OK, ErrNoKey}"
  shows "state r' = Leader \<and> (\<exists>msg \<in> set ms. isNoopOf (currentTerm r') msg) \<and>
     (\<exists>s. specState (take j L) = Inr s \<and>
        Store s key = (if grErr (Get key kv'') = OK then Some (grValue (Get key kv'')) else None))"
proof -
  have kv: "kvAbs kv = \<lparr>Store = Map.empty, DuplicateTable = Map.empty\<rparr>" "noopAppliedTerm kv = 0"
    using assms(1,2) by (auto simp: NewKVServer_def kvAbs_def ReadSnapshot_def Let_def)
  have gate: "state r' = Leader" "noopAppliedTerm kv' = currentTerm r'"
    using Get_answers(1) [of key kv''] assms(5,7) by auto
  have "specState (take 0 L) = Inr (kvAbs kv)" using kv(1) by (simp add: specState_def)
  from kv_agreement [OF assms(4) this assms(3)] have spec: "specState (take j L) = Inr (kvAbs kv')" .
  have "store kv'' = store kv'" using assms(5) by simp
  then have "store kv' key = (if grErr (Get key kv'') = OK then Some (grValue (Get key kv'')) else None)"
    using Get_answers(2,3) [of key kv''] assms(7) by auto
  then show ?thesis
    using gate noopAppliedTerm_run [OF assms(3)] kv(2) assms(6) spec by (auto simp: kvAbs_def)
qed

definition exNoop :: Op where
  "exNoop = \<lparr>opType = ''Noop'', opKey = '''', opValue = '''', opClientID = 0, opSeqNum = 0\<rparr>"

definition exKVLeader :: "(Op, kvSnapshot) Raft" where
  "exKVLeader = (NewRaft 1 [2, 3])\<lparr>state := Leader, currentTerm := 3\<rparr>"

theorem Get_read_gate_witness:
  "\<exists>kv'. run_log (applyLoop_step (\<lambda>_. 0)) [CommandMsg 1 2 exAppend, CommandMsg 2 3 exNoop] exKV = Inr kv' \<and>
     Get ''k'' (kv'\<lparr>rf := exKVLeader\<rparr>) = \<lparr>grErr = OK, grValue = ''v''\<rparr> \<and>
     (\<exists>s. specState [exAppend, exNoop] = Inr s \<and> Store s ''k'' = Some ''v'')"
proof -
  let ?ms = "[CommandMsg 1 2 exAppend, CommandMsg 2 3 exNoop] :: (Op, kvSnapshot) ApplyMsg list"
  have new: "NewKVServer (NewRaft 1 [2, 3]) (-1) = Inr exKV" "snapshotData (NewRaft 1 [2, 3] :: (Op, kvSnapshot) Raft) = None"
    by (simp_all add: NewKVServer_def exKV_def ReadSnapshot_def NewRaft_def newRaft_def restoreLocked_def)
  obtain kv' where kv': "run_log (applyLoop_step (\<lambda>_. 0)) ?ms exKV = Inr kv'"
      "store kv' ''k'' = Some ''v''" "noopAppliedTerm kv' = 3"
    by (simp add: kv_eval exNoop_def)
  have c: "consumes [exAppend, exNoop] 0 ?ms = Some 2" by simp
  have g: "Get ''k'' (kv'\<lparr>rf := exKVLeader\<rparr>) = \<lparr>grErr = OK, grValue = ''v''\<rparr>" "currentTerm exKVLeader \<noteq> 0"
    using kv' by (simp_all add: Get_def kvGet_def exKVLeader_def)
  from Get_read_gate [OF new kv'(1) c refl g(2), of "''k''"] g(1)
  have "\<exists>s. specState [exAppend, exNoop] = Inr s \<and> Store s ''k'' = Some ''v''" by auto
  with kv'(1) g(1) show ?thesis by blast
qed

section \<open>An acknowledged write was committed\<close>

text \<open>
  Everything that happens to a server while a \<open>PutAppend\<close> call waits: messages are applied, other
  calls register and return, and the embedded Raft node moves on by itself.
\<close>

datatype kvEvent =
    KApply "(Op, kvSnapshot) ApplyMsg"
  | KRegister PutAppendArgs int int
  | KReturn putWait
  | KRaft "(Op, kvSnapshot) Raft"

fun kvEvent_step :: "(Op persistedState \<Rightarrow> int) \<Rightarrow> kvEvent \<Rightarrow> KVServer \<Rightarrow> KVServer res" where
  "kvEvent_step sz (KApply msg) kv = applyLoop_step sz msg kv"
| "kvEvent_step sz (KRegister args index t) kv = Inr (snd (PutAppend_register args index t kv))"
| "kvEvent_step sz (KReturn w) kv = Inr (PutAppend_return w kv)"
| "kvEvent_step sz (KRaft r) kv = Inr (kv\<lparr>rf := r\<rparr>)"

text \<open>The channel \<open>ch\<close> belongs to the call at index \<open>i\<close>, and what it holds was applied there.\<close>

definition chanInv :: "nat \<Rightarrow> int \<Rightarrow> kvEvent list \<Rightarrow> KVServer \<Rightarrow> bool" where
  "chanInv ch i evs kv \<longleftrightarrow>
     ch < nextChan kv \<and> (\<forall>k. notifyChans kv k = Some ch \<longrightarrow> k = i) \<and>
     (\<forall>op. chans kv ch = Some op \<longrightarrow> (\<exists>t. KApply (CommandMsg i t op) \<in> set evs))"

lemma notifyWaiter_chans:
  "chans (notifyWaiter i op kv) ch =
     (if notifyChans kv i = Some ch then Some op else chans kv ch)"
  "nextChan (notifyWaiter i op kv) = nextChan kv"
  "notifyChans (notifyWaiter i op kv) = (notifyChans kv)(i := None)"
  by (auto simp: notifyWaiter_def fun_upd_idem split: option.split)

lemma chanInv_apply:
  assumes "chanInv ch i evs kv" "applyLoop_step sz msg kv = Inr kv'"
  shows "chanInv ch i (evs @ [KApply msg]) kv'"
proof (cases msg)
  case (CommandMsg index t op)
  obtain kv2 where kv2:
    "applyOp op (if opType op = ''Noop'' then kv\<lparr>noopAppliedTerm := t\<rparr> else kv) = Inr kv2"
    "chans kv' = chans (notifyWaiter index op kv2)" "nextChan kv' = nextChan kv2"
    "notifyChans kv' = (notifyChans kv2)(index := None)"
    using assms(2) unfolding CommandMsg
    by (rule applyLoop_step_Command) (auto simp: notifyWaiter_chans)
  then have "notifyChans kv2 = notifyChans kv" "chans kv2 = chans kv" "nextChan kv2 = nextChan kv"
    using applyOp_frame [OF kv2(1)] by auto
  with kv2 assms(1) CommandMsg show ?thesis
    by (auto simp: chanInv_def notifyWaiter_chans split: if_splits)
next
  case (SnapshotMsg data index t)
  with assms show ?thesis
    by (cases data) (auto simp: applyLoop_step_def restoreSnapshot_def chanInv_def)
qed

lemma chanInv_step:
  assumes "chanInv ch i evs kv" "kvEvent_step sz ev kv = Inr kv'"
  shows "chanInv ch i (evs @ [ev]) kv'"
proof (cases ev)
  case (KApply msg)
  then show ?thesis using assms chanInv_apply by auto
qed (use assms in \<open>auto simp: chanInv_def PutAppend_register_def PutAppend_return_def split: if_splits\<close>)

lemma chanInv_run:
  assumes "chanInv ch i evs kv" "run_log (kvEvent_step sz) evs' kv = Inr kv'"
  shows "chanInv ch i (evs @ evs') kv'"
  using assms
proof (induction evs' arbitrary: evs kv)
  case (Cons ev evs')
  then obtain kv1 where "kvEvent_step sz ev kv = Inr kv1" "run_log (kvEvent_step sz) evs' kv1 = Inr kv'"
    by auto
  with Cons.IH [OF chanInv_step [OF Cons.prems(1)]] show ?case by fastforce
qed simp

text \<open>Channels that were never handed out are empty and unregistered.\<close>

definition chansFresh :: "KVServer \<Rightarrow> bool" where
  "chansFresh kv \<longleftrightarrow> chans kv (nextChan kv) = None \<and> (\<forall>k. notifyChans kv k \<noteq> Some (nextChan kv))"

text \<open>
  An acknowledged write was committed: whatever happens between the registration of a
  \<open>PutAppend\<close> call and its wake-up, it reports \<open>OK\<close> only if in the meantime this server applied the
  call's own operation at the very log index Raft assigned to it.
\<close>

theorem PutAppend_OK_committed:
  assumes "PutAppend_propose args kv0 = (Some (index, t), kv)" "chansFresh kv"
    and "PutAppend_register args index t kv = (w, kv1)"
    and "run_log (kvEvent_step sz) evs kv1 = Inr kv2" "PutAppend_wait w ev kv2 = Some OK"
  shows "\<exists>t'. KApply (CommandMsg index t' (putOp args)) \<in> set evs"
proof -
  have w: "pwChan w = nextChan kv" "pwOp w = putOp args"
    and kv1: "kv1 = kv\<lparr>notifyChans := (notifyChans kv)(index \<mapsto> nextChan kv), nextChan := nextChan kv + 1\<rparr>"
    using assms(3) by (auto simp: PutAppend_register_def)
  have "chanInv (nextChan kv) index [] kv1"
    using assms(2) kv1 by (auto simp: chanInv_def chansFresh_def)
  from chanInv_run [OF this assms(4)] have "chanInv (nextChan kv) index evs kv2" by simp
  moreover have "chans kv2 (nextChan kv) = Some (putOp args)"
    using assms(5) w by (auto simp: PutAppend_wait_def split: putEvent.splits option.splits if_splits)
  ultimately show ?thesis by (auto simp: chanInv_def)
qed

definition exArgs :: PutAppendArgs where
  "exArgs = \<lparr>paKey = ''k'', paValue = ''v'', paOp = ''Append'', paClientID = 7, paSeqNum = 1\<rparr>"

lemma exKVLeader_fields:
  "state exKVLeader = Leader" "currentTerm exKVLeader = 3" "log exKVLeader = []"
  "lastIncludedIndex exKVLeader = 0"
  by (simp_all add: exKVLeader_def NewRaft_def newRaft_def restoreLocked_def)

lemma exArgs_proposed: "fst (PutAppend_propose exArgs (exKV\<lparr>rf := exKVLeader\<rparr>)) = Some (1, 3)"
  by (simp add: PutAppend_propose_def Propose_def Let_def exKVLeader_fields)

theorem PutAppend_OK_committed_witness:
  "\<exists>t'. KApply (CommandMsg 1 t' (putOp exArgs)) \<in> set [KApply (CommandMsg 1 3 exAppend)]"
proof -
  let ?start = "exKV\<lparr>rf := exKVLeader\<rparr>"
  let ?kv = "snd (PutAppend_propose exArgs ?start)"
  have proposed: "PutAppend_propose exArgs ?start = (Some (1, 3), ?kv)"
    using exArgs_proposed by (simp add: prod_eq_iff)
  have kv: "notifyChans ?kv = Map.empty" "chans ?kv = Map.empty" "nextChan ?kv = 0" "maxRaftState ?kv = -1"
      "duplicateTable ?kv = Map.empty" "store ?kv = Map.empty"
    by (simp_all add: PutAppend_propose_def exKV_def split: prod.split)
  let ?reg = "?kv\<lparr>notifyChans := (notifyChans ?kv)(1 \<mapsto> nextChan ?kv), nextChan := nextChan ?kv + 1\<rparr>"
  let ?w = "\<lparr>pwOp = putOp exArgs, pwIndex = 1, pwTerm = 3, pwChan = nextChan ?kv\<rparr>"
  have reg: "PutAppend_register exArgs 1 3 ?kv = (?w, ?reg)" by (simp add: PutAppend_register_def)
  have op: "putOp exArgs = exAppend" by (simp add: putOp_def exArgs_def exAppend_def)
  obtain kv2 where "run_log (kvEvent_step (\<lambda>_. 0)) [KApply (CommandMsg 1 3 exAppend)] ?reg = Inr kv2"
      "chans kv2 0 = Some exAppend"
    by (simp add: applyLoop_step_def applyOp_def mutate_def markApplied_def notifyWaiter_def kv exAppend_def)
  then show ?thesis
    using PutAppend_OK_committed [OF proposed _ reg, where ev = ChanReady] op kv
    by (simp add: chansFresh_def PutAppend_wait_def)
qed

end
