(* ===== verification/KV_Cluster.thy ===== *)
theory KV_Cluster
  imports KV_Server Raft_Safety
begin

text \<open>
  The replicated key-value store as a whole: the Raft cluster of \<open>Raft_Replication\<close> with a key-value server (\<open>src/02-kv-store/server.go\<close>)
  on every node. \<open>applyLoop\<close> of a server reads the apply channel of its node; \<open>readPos\<close> is how far it has read. A call of \<open>PutAppend\<close>
  proposes, registers its channel and waits; the sections of the calls, the apply loops and the steps of Raft
  interleave in any order, and a crash of a node restarts its server empty. The servers take no snapshots (\<open>maxRaftState\<close> is -1,
  as the code has it for servers that never compact). \<open>oks\<close> records the index and operation of every call that answered \<open>OK\<close>; no step reads it.
\<close>

datatype putPhase = PProposed PutAppendArgs int int | PWaiting putWait

record kvNet =
  net :: "(Op, kvSnapshot) Net"
  kvs :: "int \<Rightarrow> KVServer"
  readPos :: "int \<Rightarrow> nat"
  puts :: "nat \<Rightarrow> (int \<times> putPhase) option"
  oks :: "(int \<times> Op) set"

text \<open>A server with its node as it is now.\<close>

definition serverAt :: "kvNet \<Rightarrow> int \<Rightarrow> KVServer" where
  "serverAt K i = (kvs K i)\<lparr>rf := nd (net K) i\<rparr>"

definition setServer :: "int \<Rightarrow> KVServer \<Rightarrow> kvNet \<Rightarrow> kvNet" where
  "setServer i kv K = K\<lparr>kvs := (kvs K)(i := kv)\<rparr>"

inductive kstep :: "(Op persistedState \<Rightarrow> int) \<Rightarrow> int set \<Rightarrow> kvNet \<Rightarrow> kvNet \<Rightarrow> bool" for sz E where
  raft: "rstep E (net K) S' \<Longrightarrow> epoch (cl S') = epoch (cl (net K)) \<Longrightarrow> kstep sz E K (K\<lparr>net := S'\<rparr>)"
| crash: "i \<in> E \<Longrightarrow> persister (nd (net K) i) = Some p \<Longrightarrow>
    S' = (net K)\<lparr>cl := restartNode i p (cl (net K)), calls := (calls (net K))(i := (\<lambda>_. NoCall))\<rparr> \<Longrightarrow> NewKVServer (nd S' i) (-1) = Inr kv \<Longrightarrow>
    kstep sz E K (K\<lparr>net := S', kvs := (kvs K)(i := kv), readPos := (readPos K)(i := 0),
      puts := (\<lambda>c. case puts K c of None \<Rightarrow> None | Some (j, p) \<Rightarrow> if j = i then None else Some (j, p))\<rparr>)"
| consume: "i \<in> E \<Longrightarrow> readPos K i < length (ApplyCh (nd (net K) i)) \<Longrightarrow>
    applyLoop_step sz (ApplyCh (nd (net K) i) ! readPos K i) (serverAt K i) = Inr kv \<Longrightarrow>
    kstep sz E K ((setServer i kv K)\<lparr>readPos := (readPos K)(i := readPos K i + 1)\<rparr>)"
| put: "i \<in> E \<Longrightarrow> puts K c = None \<Longrightarrow> PutAppend_propose args (serverAt K i) = (Some (index, t), kv) \<Longrightarrow>
    kstep sz E K (K\<lparr>net := putNode i (rf kv) (net K), puts := (puts K)(c \<mapsto> (i, PProposed args index t))\<rparr>)"
| register: "puts K c = Some (i, PProposed args index t) \<Longrightarrow> PutAppend_register args index t (serverAt K i) = (w, kv) \<Longrightarrow>
    kstep sz E K ((setServer i kv K)\<lparr>puts := (puts K)(c \<mapsto> (i, PWaiting w))\<rparr>)"
| wake: "puts K c = Some (i, PWaiting w) \<Longrightarrow> PutAppend_wait w ev (serverAt K i) = Some e \<Longrightarrow>
    kstep sz E K ((setServer i (PutAppend_return w (serverAt K i)) K)\<lparr>puts := (puts K)(c := None),
      oks := (if e = OK then insert (pwIndex w, pwOp w) (oks K) else oks K)\<rparr>)"

definition bootServer :: "(Op, kvSnapshot) Raft \<Rightarrow> KVServer" where
  "bootServer r = (case NewKVServer r (-1) of Inl _ \<Rightarrow> exKV | Inr kv \<Rightarrow> kv)"

definition initKV :: "(int \<Rightarrow> int list) \<Rightarrow> kvNet" where
  "initKV ps = \<lparr>net = initNet ps, kvs = (\<lambda>i. bootServer (node (initCluster ps) i)), readPos = (\<lambda>_. 0), puts = Map.empty, oks = {}\<rparr>"

inductive reachableK :: "(Op persistedState \<Rightarrow> int) \<Rightarrow> int set \<Rightarrow> (int \<Rightarrow> int list) \<Rightarrow> kvNet \<Rightarrow> bool" for sz E ps where
  init: "reachableK sz E ps (initKV ps)"
| step: "reachableK sz E ps K \<Longrightarrow> kstep sz E K K' \<Longrightarrow> reachableK sz E ps K'"

section \<open>Invariants\<close>

text \<open>The messages server \<open>i\<close> has consumed since it started.\<close>

definition consumed :: "kvNet \<Rightarrow> int \<Rightarrow> (Op, kvSnapshot) ApplyMsg list" where
  "consumed K i = take (readPos K i) (ApplyCh (nd (net K) i))"

definition serverOk :: "kvNet \<Rightarrow> int \<Rightarrow> bool" where
  "serverOk K i \<longleftrightarrow> readPos K i \<le> length (ApplyCh (nd (net K) i)) \<and> maxRaftState (kvs K i) = -1 \<and>
     specState (map msgCommand (consumed K i)) = Inr (kvAbs (kvs K i)) \<and>
     (\<forall>ch \<ge> nextChan (kvs K i). chans (kvs K i) ch = None \<and> (\<forall>k. notifyChans (kvs K i) k \<noteq> Some ch))"

definition waiterOk :: "kvNet \<Rightarrow> nat \<Rightarrow> bool" where
  "waiterOk K c \<longleftrightarrow> (\<forall>i w. puts K c = Some (i, PWaiting w) \<longrightarrow> chanInv (pwChan w) (pwIndex w) (map KApply (consumed K i)) (kvs K i))"

definition ackOK :: "kvNet \<Rightarrow> int \<times> Op \<Rightarrow> bool" where
  "ackOK K x \<longleftrightarrow> (\<exists>i t. (i, CommandMsg (fst x) t (snd x)) \<in> applied (net K))"

definition kinv :: "int set \<Rightarrow> (int \<Rightarrow> int list) \<Rightarrow> kvNet \<Rightarrow> bool" where
  "kinv E ps K \<longleftrightarrow> reachableN E ps (net K) \<and> (\<forall>i. serverOk K i) \<and> (\<forall>c. waiterOk K c) \<and> (\<forall>x \<in> oks K. ackOK K x)"


section \<open>The invariants are kept\<close>

lemma serverAt_simps [simp]:
  "store (serverAt K i) = store (kvs K i)" "duplicateTable (serverAt K i) = duplicateTable (kvs K i)" "chans (serverAt K i) = chans (kvs K i)"
  "notifyChans (serverAt K i) = notifyChans (kvs K i)" "nextChan (serverAt K i) = nextChan (kvs K i)" "maxRaftState (serverAt K i) = maxRaftState (kvs K i)"
  "rf (serverAt K i) = nd (net K) i" "kvAbs (serverAt K i) = kvAbs (kvs K i)"
  by (simp_all add: serverAt_def)

lemma chanInv_cong:
  assumes "chanInv ch i evs kv" "nextChan kv \<le> nextChan kv'" "\<forall>k. notifyChans kv' k = Some ch \<longrightarrow> notifyChans kv k = Some ch"
    "chans kv' ch = chans kv ch" "set evs \<subseteq> set evs'"
  shows "chanInv ch i evs' kv'"
proof -
  have "ch < nextChan kv'" using assms(1,2) by (simp add: chanInv_def)
  moreover have "k = i" if "notifyChans kv' k = Some ch" for k using that assms(1,3) unfolding chanInv_def by blast
  moreover have "\<exists>t. KApply (CommandMsg i t op) \<in> set evs'" if "chans kv' ch = Some op" for op
    using that assms(1,4,5) unfolding chanInv_def by (metis subsetD)
  ultimately show ?thesis by (simp add: chanInv_def)
qed

text \<open>Steps of Raft that restart no node leave what was consumed as it was.\<close>

lemma raft_consumed:
  assumes "rstep E S S'" "ninv E ps S" "epoch (cl S') = epoch (cl S)"
  shows "\<exists>ms. ApplyCh (nd S' i) = ApplyCh (nd S i) @ ms" "applied S \<subseteq> applied S'"
  using assms(1,2)
proof (atomize(full), cases rule: rstep_channel)
  case same
  then show "(\<exists>ms. ApplyCh (nd S' i) = ApplyCh (nd S i) @ ms) \<and> applied S \<subseteq> applied S'" by simp
next
  case (more j m)
  then show "(\<exists>ms. ApplyCh (nd S' i) = ApplyCh (nd S i) @ ms) \<and> applied S \<subseteq> applied S'" by (cases "i = j") auto
next
  case (restart j)
  then show "(\<exists>ms. ApplyCh (nd S' i) = ApplyCh (nd S i) @ ms) \<and> applied S \<subseteq> applied S'" using assms(3) by simp
qed

lemma kinv_raft:
  assumes inv: "kinv E ps K" and OK: "peersOK E ps" and step: "rstep E (net K) S'" "epoch (cl S') = epoch (cl (net K))"
    and K': "net K' = S'" "kvs K' = kvs K" "readPos K' = readPos K" "oks K' = oks K"
      "\<forall>c i w. puts K' c = Some (i, PWaiting w) \<longrightarrow> puts K c = Some (i, PWaiting w)"
  shows "kinv E ps K'"
proof -
  have reach: "reachableN E ps (net K)" using inv by (simp add: kinv_def)
  note ninv = ninv_reachable [OF reach OK]
  have ext: "\<exists>ms. ApplyCh (nd S' i) = ApplyCh (nd (net K) i) @ ms" for i by (rule raft_consumed(1) [OF step(1) ninv step(2)])
  have pos: "readPos K i \<le> length (ApplyCh (nd (net K) i))" for i using inv by (simp add: kinv_def serverOk_def)
  have same: "consumed K' i = consumed K i" for i using ext [of i] pos [of i] K' by (auto simp: consumed_def)
  have "readPos K i \<le> length (ApplyCh (nd S' i))" for i using ext [of i] pos [of i] by auto
  then have "serverOk K' i" for i using inv K' same by (simp add: kinv_def serverOk_def)
  moreover have "waiterOk K' c" for c using inv K' same unfolding kinv_def waiterOk_def by metis
  moreover have "ackOK K' x" if "x \<in> oks K'" for x
    using inv that K' raft_consumed(2) [OF step(1) ninv step(2)] unfolding kinv_def ackOK_def by fastforce
  moreover have "reachableN E ps (net K')" using reachableN.step [OF reach step(1)] K'(1) by simp
  ultimately show ?thesis by (simp add: kinv_def)
qed

text \<open>A change of one server that keeps what its waiters and its apply loop rely on.\<close>

lemma kinv_server:
  assumes inv: "kinv E ps K" and K': "net K' = net K" "readPos K' = readPos K" "kvs K' = (kvs K)(i := kv)" "\<forall>x \<in> oks K'. ackOK K' x"
    and kv: "kvAbs kv = kvAbs (kvs K i)" "maxRaftState kv = maxRaftState (kvs K i)"
      "\<forall>ch \<ge> nextChan kv. chans kv ch = None \<and> (\<forall>k. notifyChans kv k \<noteq> Some ch)"
    and waits: "\<And>c j w. puts K' c = Some (j, PWaiting w) \<Longrightarrow> chanInv (pwChan w) (pwIndex w) (map KApply (consumed K j)) (kvs K' j)"
  shows "kinv E ps K'"
proof -
  have same: "consumed K' j = consumed K j" for j using K' by (simp add: consumed_def)
  have "serverOk K' j" for j using inv K' kv same by (cases "j = i") (simp_all add: kinv_def serverOk_def)
  moreover have "waiterOk K' c" for c using waits same by (simp add: waiterOk_def)
  ultimately show ?thesis using inv K' by (simp add: kinv_def)
qed

lemma consumed_applied:
  assumes "reachableN E ps (net K)" "peersOK E ps" "readPos K i \<le> length (ApplyCh (nd (net K) i))" "m \<in> set (consumed K i)"
  shows "(i, m) \<in> applied (net K)"
proof -
  have "channelOk (net K) i" using channelOk_reachable [OF assms(1,2)] by blast
  moreover obtain k where "k < readPos K i" "m = ApplyCh (nd (net K) i) ! k" "k < length (ApplyCh (nd (net K) i))"
    using assms(3,4) by (auto simp: consumed_def in_set_conv_nth)
  ultimately show ?thesis by (simp add: channelOk_def Let_def)
qed

lemma kinv_register:
  assumes inv: "kinv E ps K" and call: "puts K c = Some (i, PProposed args index t)" "PutAppend_register args index t (serverAt K i) = (w, kv)"
    and K': "K' = (setServer i kv K)\<lparr>puts := (puts K)(c \<mapsto> (i, PWaiting w))\<rparr>"
  shows "kinv E ps K'"
proof -
  let ?s = "kvs K i"
  have w: "pwChan w = nextChan ?s" "pwIndex w = index"
    and kv: "kv = (serverAt K i)\<lparr>notifyChans := (notifyChans ?s)(index \<mapsto> nextChan ?s), nextChan := nextChan ?s + 1\<rparr>"
    using call(2) by (auto simp: PutAppend_register_def)
  have fresh: "\<forall>ch \<ge> nextChan ?s. chans ?s ch = None \<and> (\<forall>k. notifyChans ?s k \<noteq> Some ch)" using inv by (simp add: kinv_def serverOk_def)
  show ?thesis
  proof (rule kinv_server [OF inv, where i = i and kv = kv])
    show "chanInv (pwChan w') (pwIndex w') (map KApply (consumed K j)) (kvs K' j)" if p: "puts K' c' = Some (j, PWaiting w')" for c' j w'
    proof (cases "c' = c")
      case True
      then have "w' = w" "j = i" using p K' by auto
      then show ?thesis using w kv K' fresh by (auto simp: chanInv_def setServer_def split: if_splits)
    next
      case False
      then have old: "chanInv (pwChan w') (pwIndex w') (map KApply (consumed K j)) (kvs K j)"
        using inv p K' unfolding kinv_def waiterOk_def by simp
      show ?thesis
      proof (cases "j = i")
        case True
        have "pwChan w' < nextChan ?s" using old True by (simp add: chanInv_def)
        then show ?thesis using old True kv K' by (intro chanInv_cong [OF old]) (auto simp: setServer_def split: if_splits)
      next
        case False
        then show ?thesis using old K' by (simp add: setServer_def)
      qed
    qed
    show "\<forall>x \<in> oks K'. ackOK K' x" using inv K' by (simp add: kinv_def ackOK_def setServer_def)
    show "kvAbs kv = kvAbs (kvs K i)" unfolding kv by (simp add: kvAbs_def)
    show "\<forall>ch \<ge> nextChan kv. chans kv ch = None \<and> (\<forall>k. notifyChans kv k \<noteq> Some ch)" using fresh by (auto simp: kv split: if_splits)
  qed (simp_all add: K' kv setServer_def)
qed

lemma kinv_wake:
  assumes inv: "kinv E ps K" and OK: "peersOK E ps" and call: "puts K c = Some (i, PWaiting w)" "PutAppend_wait w ev (serverAt K i) = Some e"
    and K': "K' = (setServer i (PutAppend_return w (serverAt K i)) K)\<lparr>puts := (puts K)(c := None),
      oks := (if e = OK then insert (pwIndex w, pwOp w) (oks K) else oks K)\<rparr>"
  shows "kinv E ps K'"
proof -
  let ?s = "kvs K i" and ?kv = "PutAppend_return w (serverAt K i)"
  have fresh: "\<forall>ch \<ge> nextChan ?s. chans ?s ch = None \<and> (\<forall>k. notifyChans ?s k \<noteq> Some ch)" using inv by (simp add: kinv_def serverOk_def)
  have ack: "ackOK K (pwIndex w, pwOp w)" if "e = OK"
  proof -
    have "chans ?s (pwChan w) = Some (pwOp w)"
      using call(2) that by (auto simp: PutAppend_wait_def split: putEvent.splits option.splits if_splits)
    moreover have "chanInv (pwChan w) (pwIndex w) (map KApply (consumed K i)) ?s" using inv call(1) unfolding kinv_def waiterOk_def by blast
    ultimately obtain t where "CommandMsg (pwIndex w) t (pwOp w) \<in> set (consumed K i)" by (auto simp: chanInv_def)
    moreover have "reachableN E ps (net K)" "readPos K i \<le> length (ApplyCh (nd (net K) i))" using inv by (simp_all add: kinv_def serverOk_def)
    ultimately have "(i, CommandMsg (pwIndex w) t (pwOp w)) \<in> applied (net K)" using consumed_applied [OF _ OK] by blast
    then show ?thesis by (auto simp: ackOK_def)
  qed
  show ?thesis
  proof (rule kinv_server [OF inv, where i = i and kv = ?kv])
    show "chanInv (pwChan w') (pwIndex w') (map KApply (consumed K j)) (kvs K' j)" if "puts K' c' = Some (j, PWaiting w')" for c' j w'
    proof -
      have old: "chanInv (pwChan w') (pwIndex w') (map KApply (consumed K j)) (kvs K j)"
        using inv that K' unfolding kinv_def waiterOk_def by (simp split: if_splits)
      then show ?thesis using K' by (intro chanInv_cong [OF old]) (auto simp: setServer_def PutAppend_return_def split: if_splits)
    qed
    show "\<forall>x \<in> oks K'. ackOK K' x" using inv K' ack by (auto simp: kinv_def ackOK_def setServer_def)
    show "kvAbs ?kv = kvAbs (kvs K i)" by (simp add: PutAppend_return_def kvAbs_def)
    show "\<forall>ch \<ge> nextChan ?kv. chans ?kv ch = None \<and> (\<forall>k. notifyChans ?kv k \<noteq> Some ch)" using fresh by (auto simp: PutAppend_return_def)
  qed (simp_all add: K' PutAppend_return_def setServer_def)
qed


lemma applyLoop_command:
  assumes "applyLoop_step sz (CommandMsg index t op) kv = Inr kv'" "maxRaftState kv = -1"
  obtains kv2 where "applyOp op (if opType op = ''Noop'' then kv\<lparr>noopAppliedTerm := t\<rparr> else kv) = Inr kv2" "kv' = notifyWaiter index op kv2"
    "maxRaftState kv' = -1"
proof -
  obtain kv2 where kv2: "applyOp op (if opType op = ''Noop'' then kv\<lparr>noopAppliedTerm := t\<rparr> else kv) = Inr kv2"
    using assms(1) by (auto simp: applyLoop_step_def Let_def)
  have m: "maxRaftState kv2 = -1"
    using kv2 assms(2) by (auto simp: applyOp_def mutate_def markApplied_def split: if_splits)
  then have "maxRaftState (notifyWaiter index op kv2) = -1" by (simp add: notifyWaiter_def split: option.split)
  moreover have "kv' = notifyWaiter index op kv2" using assms(1) kv2 calculation by (simp add: applyLoop_step_def Let_def)
  ultimately show ?thesis using that kv2 by simp
qed

lemma kinv_consume:
  assumes inv: "kinv E ps K" and OK: "peersOK E ps" and i: "readPos K i < length (ApplyCh (nd (net K) i))"
    and app: "applyLoop_step sz (ApplyCh (nd (net K) i) ! readPos K i) (serverAt K i) = Inr kv"
    and K': "K' = (setServer i kv K)\<lparr>readPos := (readPos K)(i := readPos K i + 1)\<rparr>"
  shows "kinv E ps K'"
proof -
  let ?s = "kvs K i" and ?m = "ApplyCh (nd (net K) i) ! readPos K i"
  have reach: "reachableN E ps (net K)" and ok: "serverOk K i" using inv by (simp_all add: kinv_def)
  have del: "(i, ?m) \<in> applied (net K)" using channelOk_reachable [OF reach OK] i by (simp add: channelOk_def Let_def)
  obtain index t op where m: "?m = CommandMsg index t op"
    using ninvD(9) [OF ninv_reachable [OF reach OK] del] unfolding deliveredOk_def by blast
  have max: "maxRaftState (serverAt K i) = -1" using ok by (simp add: serverOk_def)
  obtain kv2 where kv2: "applyOp op (if opType op = ''Noop'' then (serverAt K i)\<lparr>noopAppliedTerm := t\<rparr> else serverAt K i) = Inr kv2"
    "kv = notifyWaiter index op kv2" "maxRaftState kv = -1" using applyLoop_command [OF app [unfolded m] max] by blast
  have same: "consumed K' j = consumed K j" if "j \<noteq> i" for j using that K' by (simp add: consumed_def setServer_def)
  have one: "consumed K' i = consumed K i @ [?m]" using i K' by (simp add: consumed_def setServer_def take_Suc_conv_app_nth)
  have "specState (map msgCommand (consumed K' i)) = specOp op (kvAbs (kvs K i))"
    using ok one m by (simp add: serverOk_def specState_snoc)
  also have "\<dots> = Inr (kvAbs kv)"
    using applyOp_refines [of op "if opType op = ''Noop'' then (serverAt K i)\<lparr>noopAppliedTerm := t\<rparr> else serverAt K i"] kv2(1,2) by (simp split: if_splits)
  finally have spec: "specState (map msgCommand (consumed K' i)) = Inr (kvAbs kv)" .
  have fr: "chans kv2 = chans ?s" "notifyChans kv2 = notifyChans ?s" "nextChan kv2 = nextChan ?s" using applyOp_frame [OF kv2(1)] by simp_all
  have "serverOk K' j" for j
  proof (cases "j = i")
    case True
    then show ?thesis using ok spec kv2(2,3) fr i K' by (auto simp: serverOk_def setServer_def notifyWaiter_chans split: if_splits)
  next
    case False
    then show ?thesis using inv same [OF False] K' by (simp add: kinv_def serverOk_def setServer_def)
  qed
  moreover have "waiterOk K' c" for c
  proof -
    have "chanInv (pwChan w) (pwIndex w) (map KApply (consumed K' j)) (kvs K' j)" if p: "puts K c = Some (j, PWaiting w)" for j w
    proof -
      have old: "chanInv (pwChan w) (pwIndex w) (map KApply (consumed K j)) (kvs K j)" using inv p unfolding kinv_def waiterOk_def by blast
      show ?thesis
      proof (cases "j = i")
        case True
        have "chanInv (pwChan w) (pwIndex w) (map KApply (consumed K i)) (serverAt K i)" using old True by (simp add: chanInv_def)
        from chanInv_apply [OF this app] show ?thesis using True one K' by (simp add: setServer_def)
      next
        case False
        then show ?thesis using old same K' by (simp add: setServer_def)
      qed
    qed
    then show ?thesis using K' by (simp add: waiterOk_def setServer_def)
  qed
  moreover have "net K' = net K" "oks K' = oks K" using K' by (simp_all add: setServer_def)
  ultimately show ?thesis using inv by (simp add: kinv_def ackOK_def)
qed

lemma NewKVServer_empty:
  assumes "NewKVServer r m = Inr kv" "snapshotData r = None"
  shows "kvAbs kv = \<lparr>Store = Map.empty, DuplicateTable = Map.empty\<rparr>" "maxRaftState kv = m" "chans kv = Map.empty" "notifyChans kv = Map.empty" "nextChan kv = 0"
  using assms by (auto simp: NewKVServer_def ReadSnapshot_def kvAbs_def)

lemma kinv_crash:
  assumes inv: "kinv E ps K" and OK: "peersOK E ps" and i: "i \<in> E" "persister (nd (net K) i) = Some p"
    and S': "S' = (net K)\<lparr>cl := restartNode i p (cl (net K)), calls := (calls (net K))(i := (\<lambda>_. NoCall))\<rparr>"
    and kv: "NewKVServer (nd S' i) (-1) = Inr kv"
    and K': "K' = K\<lparr>net := S', kvs := (kvs K)(i := kv), readPos := (readPos K)(i := 0),
      puts := (\<lambda>c. case puts K c of None \<Rightarrow> None | Some (j, p) \<Rightarrow> if j = i then None else Some (j, p))\<rparr>"
  shows "kinv E ps K'"
proof -
  have reach: "reachableN E ps (net K)" using inv by (simp add: kinv_def)
  note ninv = ninv_reachable [OF reach OK]
  have node: "nodeOK E ps i (nd (net K) i)" "lastIncludedIndex (nd (net K) i) = 0"
    using ninvD(1) [OF ninv] ninvD(3) [OF ninv i(1)] i(1) by (simp_all add: cinv_def plain_def)
  have step: "rstep E (net K) S'" unfolding S' by (rule rstep.crash [OF i])
  have r: "nd S' i = NewRaftWithPersister i (peers (nd (net K) i)) p" "\<And>j. j \<noteq> i \<Longrightarrow> nd S' j = nd (net K) j" "applied S' = applied (net K)"
    by (simp_all add: S' restartNode_def)
  have "lastIncludedIndex (nd S' i) = 0" using restart_plain(3) [OF node(1) i(2) refl] node(2) r(1) by simp
  then have "snapshotData (nd S' i) = None"
    unfolding r(1) by (auto simp: NewRaftWithPersister_def newRaft_def restoreLocked_def Let_def split: option.splits if_splits)
  note boot = NewKVServer_empty [OF kv this]
  have ch: "ApplyCh (nd S' i) = []" using restart_channel(1) [OF node(1) i(2) node(2)] r(1) by simp
  have "consumed K' i = []" "\<And>j. j \<noteq> i \<Longrightarrow> consumed K' j = consumed K j" using ch r(2) K' by (simp_all add: consumed_def)
  note con = this
  have "serverOk K' j" for j
  proof (cases "j = i")
    case True
    then show ?thesis using boot con(1) K' by (simp add: serverOk_def specState_def)
  next
    case False
    then show ?thesis using inv con(2) r(2) K' by (simp add: kinv_def serverOk_def)
  qed
  moreover have "waiterOk K' c" for c
  proof -
    have "chanInv (pwChan w) (pwIndex w) (map KApply (consumed K' j)) (kvs K' j)" if "puts K' c = Some (j, PWaiting w)" for j w
    proof -
      have "puts K c = Some (j, PWaiting w)" "j \<noteq> i" using that K' by (auto split: option.splits if_splits)
      then show ?thesis using inv con(2) K' unfolding kinv_def waiterOk_def by simp
    qed
    then show ?thesis by (simp add: waiterOk_def)
  qed
  moreover have "ackOK K' x" if "x \<in> oks K'" for x using inv that K' r(3) by (simp add: kinv_def ackOK_def)
  moreover have "reachableN E ps (net K')" using reachableN.step [OF reach step] K' by simp
  ultimately show ?thesis by (simp add: kinv_def)
qed

lemma kinv_step:
  assumes "kstep sz E K K'" "kinv E ps K" "peersOK E ps"
  shows "kinv E ps K'"
  using assms(1)
proof cases
  case (raft S')
  then show ?thesis by (intro kinv_raft [OF assms(2,3) raft(2,3)]) simp_all
next
  case (crash i p S' kv)
  show ?thesis by (rule kinv_crash [OF assms(2,3) crash(2-5) crash(1)])
next
  case (consume i kv)
  show ?thesis by (rule kinv_consume [OF assms(2,3) consume(3,4,1)])
next
  case (put i c args index t kv)
  let ?r = "snd (Propose (putOp args) (nd (net K) i))"
  have "rf kv = ?r" using put(4) by (auto simp: PutAppend_propose_def split: prod.splits)
  moreover have "rstep E (net K) (putNode i ?r (net K))" by (rule rstep.propose [OF put(2), of "putOp args" _ "fst (Propose (putOp args) (nd (net K) i))"]) simp
  ultimately show ?thesis by (intro kinv_raft [OF assms(2,3), of "putNode i ?r (net K)"]) (auto simp: put(1) split: if_splits)
next
  case (register c i args index t w kv)
  show ?thesis by (rule kinv_register [OF assms(2) register(2,3,1)])
next
  case (wake c i w ev e)
  show ?thesis by (rule kinv_wake [OF assms(2,3) wake(2,3,1)])
qed

lemma kinv_init: "kinv E ps (initKV ps)"
proof -
  have none: "snapshotData (node (initCluster ps :: (Op, kvSnapshot) Cluster) i) = None" for i
    by (simp add: initCluster_def NewRaftWithPersister_def newRaft_def restoreLocked_def NewMemoryPersister_def ReadState_def)
  then have "NewKVServer (node (initCluster ps) i) (-1) = Inr (bootServer (node (initCluster ps) i))" for i
    by (simp add: bootServer_def NewKVServer_def ReadSnapshot_def)
  note boot = NewKVServer_empty [OF this none]
  show ?thesis by (simp add: kinv_def initKV_def reachableN.init serverOk_def consumed_def boot specState_def waiterOk_def)
qed

lemma kinv_reachable: "reachableK sz E ps K \<Longrightarrow> peersOK E ps \<Longrightarrow> kinv E ps K"
  by (induction rule: reachableK.induct) (auto intro: kinv_init kinv_step)


section \<open>What the servers hold\<close>

lemma consumed_prefix:
  assumes "kinv E ps K" "peersOK E ps" "readPos K i \<le> readPos K j"
  shows "consumed K i = take (readPos K i) (ApplyCh (nd (net K) j))"
proof -
  have reach: "reachableN E ps (net K)" using assms(1) by (simp add: kinv_def)
  have len: "readPos K i \<le> length (ApplyCh (nd (net K) i))" "readPos K i \<le> length (ApplyCh (nd (net K) j))"
    using assms(1,3) by (auto simp: kinv_def serverOk_def intro: order_trans)
  then show ?thesis unfolding consumed_def using channels_agree [OF reach assms(2)] by (intro nth_equalityI) auto
qed

lemma specOp_table: "specOp op s = Inr s' \<Longrightarrow> get0 (DuplicateTable s) c \<le> get0 (DuplicateTable s') c \<and> opSeqNum op \<le> get0 (DuplicateTable s') (opClientID op)"
  by (auto simp: specOp_def Let_def split: if_splits)

lemma spec_seen:
  assumes "run_log specOp ops s = Inr s'"
  shows "get0 (DuplicateTable s) c \<le> get0 (DuplicateTable s') c \<and> (op \<in> set ops \<longrightarrow> opSeqNum op \<le> get0 (DuplicateTable s') (opClientID op))"
  using assms
proof (induction ops arbitrary: s c)
  case (Cons x ops)
  then obtain s1 where s1: "specOp x s = Inr s1" "run_log specOp ops s1 = Inr s'" by auto
  have "get0 (DuplicateTable s) c \<le> get0 (DuplicateTable s') c"
    using specOp_table [OF s1(1), of c] Cons.IH [OF s1(2), of c] by simp
  moreover have "opSeqNum x \<le> get0 (DuplicateTable s') (opClientID x)"
    using specOp_table [OF s1(1), of "opClientID x"] Cons.IH [OF s1(2), of "opClientID x"] by simp
  ultimately show ?case using Cons.IH [OF s1(2), of "opClientID op"] by auto
qed simp

text \<open>
  (C15) The replicated store behaves as one: in every reachable state of the whole system, Raft and servers, with crashes and
  restarts, every server holds exactly the state of the abstract key-value machine after a prefix of one and the same sequence of
  operations, the one delivered to any server that is at least as far; two servers that have consumed equally many operations
  hold the same store and the same table of applied requests.
\<close>

theorem kv_cluster_agreement:
  assumes "reachableK sz E ps K" "peersOK E ps" "readPos K i \<le> readPos K j"
  shows "specState (map msgCommand (take (readPos K i) (ApplyCh (nd (net K) j)))) = Inr (kvAbs (kvs K i)) \<and>
     (readPos K i = readPos K j \<longrightarrow> kvAbs (kvs K i) = kvAbs (kvs K j))"
proof -
  have inv: "kinv E ps K" using kinv_reachable [OF assms(1,2)] .
  have spec: "specState (map msgCommand (consumed K k)) = Inr (kvAbs (kvs K k))" for k using inv by (simp add: kinv_def serverOk_def)
  have pre: "consumed K i = take (readPos K i) (ApplyCh (nd (net K) j))" by (rule consumed_prefix [OF inv assms(2,3)])
  have "kvAbs (kvs K i) = kvAbs (kvs K j)" if "readPos K i = readPos K j"
    using spec [of i] spec [of j] pre that by (simp add: consumed_def)
  then show ?thesis using spec [of i] pre by simp
qed

text \<open>
  (C16) An acknowledged write is never lost: once a \<open>PutAppend\<close> call has answered \<open>OK\<close>, its operation stands at its index in the
  sequence that every server consumes, whatever crashes, elections and restarts follow, and every server that has got that far has it in
  its table of applied requests, so that no retry of it will be applied again.
\<close>

theorem acknowledged_write_kept:
  assumes "reachableK sz E ps K" "peersOK E ps" "(index, op) \<in> oks K" "index \<le> int (readPos K i)"
  shows "1 \<le> index \<and> msgCommand (ApplyCh (nd (net K) i) ! nat (index - 1)) = op \<and>
     opSeqNum op \<le> get0 (duplicateTable (kvs K i)) (opClientID op)"
proof -
  have inv: "kinv E ps K" and fin: "finite E" using kinv_reachable [OF assms(1,2)] assms(2) by (auto simp: peersOK_def)
  have reach: "reachableN E ps (net K)" using inv by (simp add: kinv_def)
  note ninv = ninv_reachable [OF reach assms(2)]
  have "ackOK K (index, op)" using inv assms(3) by (simp add: kinv_def)
  then obtain j t where j: "(j, CommandMsg index t op) \<in> applied (net K)" by (auto simp: ackOK_def)
  then have pos: "1 \<le> index" using ninvD(9) [OF ninv j] by (auto simp: deliveredOk_def)
  let ?k = "nat (index - 1)" and ?ch = "ApplyCh (nd (net K) i)"
  have k: "?k < readPos K i" "readPos K i \<le> length ?ch" using assms(4) pos inv by (auto simp: kinv_def serverOk_def)
  then have lt: "?k < length ?ch" by simp
  have "channelOk (net K) i" using channelOk_reachable [OF reach assms(2)] by blast
  then have "(i, ?ch ! ?k) \<in> applied (net K)" "msgIndex (?ch ! ?k) = int ?k + 1" using lt unfolding channelOk_def Let_def by (blast, blast)
  moreover have "int ?k + 1 = index" using pos by simp
  ultimately have m: "?ch ! ?k = CommandMsg index t op" using delivered_unique [OF ninv fin _ j] by (metis ApplyMsg.sel(1))
  have "CommandMsg index t op = consumed K i ! ?k" "?k < length (consumed K i)" using k m by (simp_all add: consumed_def)
  then have "CommandMsg index t op \<in> set (consumed K i)" by simp
  then have "op \<in> set (map msgCommand (consumed K i))" by force
  moreover have "specState (map msgCommand (consumed K i)) = Inr (kvAbs (kvs K i))" using inv by (simp add: kinv_def serverOk_def)
  ultimately have "opSeqNum op \<le> get0 (DuplicateTable (kvAbs (kvs K i))) (opClientID op)" using spec_seen by (metis specState_def)
  then show ?thesis using pos m by (simp add: kvAbs_def)
qed


section \<open>An example run\<close>

text \<open>Server 1 leads, executes one \<open>PutAppend\<close> call and answers \<open>OK\<close>; then server 2 learns of the write and applies it.\<close>

lemma quiet_lift:
  assumes "quietStep\<^sup>*\<^sup>* (net K) S" "reachableK sz {1, 2, 3} ps K"
  shows "reachableK sz {1, 2, 3} ps (K\<lparr>net := S\<rparr>)"
  using assms
proof (induction rule: rtranclp_induct)
  case (step S S')
  then have "reachableK sz {1, 2, 3} ps (K\<lparr>net := S\<rparr>)" by blast
  moreover have "kstep sz {1, 2, 3} (K\<lparr>net := S\<rparr>) ((K\<lparr>net := S\<rparr>)\<lparr>net := S'\<rparr>)"
    using step.hyps(2) by (intro kstep.raft) (simp_all add: quietStep_def)
  ultimately show ?case using reachableK.step by fastforce
qed simp

definition exServer :: "int \<Rightarrow> (Op, kvSnapshot) Raft \<Rightarrow> KVServer" where
  "exServer i r = \<lparr>rf = r, store = Map.empty, notifyChans = Map.empty, chans = Map.empty, nextChan = 0, duplicateTable = Map.empty,
     maxRaftState = -1, noopAppliedTerm = 0\<rparr>"

lemma boot_server: "kvs (initKV ps) i = exServer i (node (initCluster ps) i)"
  by (simp add: initKV_def bootServer_def NewKVServer_def ReadSnapshot_def exServer_def initCluster_def NewRaftWithPersister_def newRaft_def
      restoreLocked_def NewMemoryPersister_def ReadState_def)

lemma ex_written:
  "\<exists>K es. reachableK (\<lambda>_. 0) {1, 2, 3} exPeers K \<and> runAt (net K) (exLead [exEntry exAppend] 0 0 [] 1 0) (exFollow [] 0 0 []) 0 es NoCall \<and>
     readPos K = (\<lambda>_. 0) \<and> oks K = {} \<and> puts K 0 = Some (1, PWaiting \<lparr>pwOp = exAppend, pwIndex = 1, pwTerm = 1, pwChan = 0\<rparr>) \<and>
     kvs K 1 = (exServer 1 (nd (net K) 1))\<lparr>notifyChans := [1 \<mapsto> 0], nextChan := 1\<rparr> \<and> kvs K 2 = exServer 2 (node (initCluster exPeers) 2)"
proof -
  obtain S :: "(Op, kvSnapshot) Net" and es where S: "quietStep\<^sup>*\<^sup>* (initNet exPeers) S" "runAt S (exLead [] 0 0 [] 1 0) (exFollow [] 0 0 []) 0 es NoCall" using ex_elected by blast
  let ?K1 = "(initKV exPeers)\<lparr>net := S\<rparr>"
  have K1: "reachableK (\<lambda>_. 0) {1, 2, 3} exPeers ?K1" using S(1) by (intro quiet_lift reachableK.init) (simp add: initKV_def)
  let ?r = "exLead [exEntry exAppend] 0 0 [] 1 0"
  have proposed: "PutAppend_propose exArgs (serverAt ?K1 1) = (Some (1, 1), (serverAt ?K1 1)\<lparr>rf := ?r\<rparr>)"
  proof -
    have "nd S 1 = exLead [] 0 0 [] 1 0" using S(2) by (simp add: runAt_def)
    moreover have "Propose exAppend (exLead [] 0 0 [] 1 0 :: (Op, kvSnapshot) Raft) = ((1, 1, True), ?r)"
      using ex_propose [of exAppend] by (simp add: prod_eq_iff Propose_def Let_def) (simp add: exNode_def)
    ultimately show ?thesis by (simp add: PutAppend_propose_def putOp_def exArgs_def exAppend_def)
  qed
  let ?K2 = "?K1\<lparr>net := putNode 1 ?r S, puts := (puts ?K1)(0 \<mapsto> (1, PProposed exArgs 1 1))\<rparr>"
  have "kstep (\<lambda>_. 0) {1, 2, 3} ?K1 (?K1\<lparr>net := putNode 1 (rf ((serverAt ?K1 1)\<lparr>rf := ?r\<rparr>)) (net ?K1), puts := (puts ?K1)(0 \<mapsto> (1, PProposed exArgs 1 1))\<rparr>)"
    by (rule kstep.put [OF _ _ proposed]) (simp_all add: initKV_def)
  then have K2: "reachableK (\<lambda>_. 0) {1, 2, 3} exPeers ?K2" using reachableK.step [OF K1] by simp
  let ?w = "\<lparr>pwOp = exAppend, pwIndex = 1, pwTerm = 1, pwChan = 0\<rparr>"
  let ?kv = "(exServer 1 ?r)\<lparr>notifyChans := [1 \<mapsto> 0], nextChan := 1\<rparr>"
  have op: "putOp exArgs = exAppend" by (simp add: putOp_def exArgs_def exAppend_def)
  have reg: "PutAppend_register exArgs 1 1 (serverAt ?K2 1) = (?w, ?kv)"
    by (simp add: PutAppend_register_def serverAt_def boot_server exServer_def op)
  have "puts ?K2 0 = Some (1, PProposed exArgs 1 1)" by simp
  from kstep.register [OF this reg] have K3: "reachableK (\<lambda>_. 0) {1, 2, 3} exPeers ((setServer 1 ?kv ?K2)\<lparr>puts := (puts ?K2)(0 \<mapsto> (1, PWaiting ?w))\<rparr>)"
    by (rule reachableK.step [OF K2])
  have "runAt (putNode 1 ?r S) ?r (exFollow [] 0 0 []) 0 es NoCall" using S(2) by (simp add: runAt_def)
  then show ?thesis
    using K3 by (intro exI [of _ "(setServer 1 ?kv ?K2)\<lparr>puts := (puts ?K2)(0 \<mapsto> (1, PWaiting ?w))\<rparr>"]) (auto simp: setServer_def boot_server, simp_all add: initKV_def)
qed


lemma ex_apply:
  "applyLoop_step (\<lambda>_. 0) (CommandMsg 1 1 exAppend) ((exServer i r)\<lparr>notifyChans := nc, nextChan := n\<rparr>) =
     Inr ((exServer i r)\<lparr>store := [''k'' \<mapsto> ''v''], duplicateTable := [7 \<mapsto> 1], notifyChans := nc(1 := None),
       chans := (case nc 1 of None \<Rightarrow> Map.empty | Some ch \<Rightarrow> [ch \<mapsto> exAppend]), nextChan := n\<rparr>)"
  by (simp add: applyLoop_step_def applyOp_def mutate_def markApplied_def notifyWaiter_def exServer_def exAppend_def fun_upd_idem split: option.split)

lemma ex_acknowledged:
  "\<exists>K es. reachableK (\<lambda>_. 0) {1, 2, 3} exPeers K \<and> runAt (net K) (exLead [exEntry exAppend] 1 1 [CommandMsg 1 1 exAppend] 2 1)
       (exFollow [exEntry exAppend] 0 0 []) 0 es NoCall \<and> readPos K = (\<lambda>_. 0)(1 := 1) \<and> oks K = {(1, exAppend)} \<and>
     store (kvs K 1) = [''k'' \<mapsto> ''v''] \<and> kvs K 2 = exServer 2 (node (initCluster exPeers) 2)"
proof -
  let ?w = "\<lparr>pwOp = exAppend, pwIndex = 1, pwTerm = 1, pwChan = 0\<rparr>" and ?a = "exLead [exEntry exAppend] 1 1 [CommandMsg 1 1 exAppend] 2 1"
  obtain K es where K: "reachableK (\<lambda>_. 0) {1, 2, 3} exPeers K" "runAt (net K) (exLead [exEntry exAppend] 0 0 [] 1 0) (exFollow [] 0 0 []) 0 es NoCall"
    "readPos K = (\<lambda>_. 0)" "oks K = {}" "puts K 0 = Some (1, PWaiting ?w)"
    "kvs K 1 = (exServer 1 (nd (net K) 1))\<lparr>notifyChans := [1 \<mapsto> 0], nextChan := 1\<rparr>" "kvs K 2 = exServer 2 (node (initCluster exPeers) 2)"
    using ex_written by blast
  obtain S where S: "quietStep\<^sup>*\<^sup>* (net K) S" "runAt S ?a (exFollow [exEntry exAppend] 0 0 []) 0 es NoCall" using ex_committed [OF K(2)] by blast
  let ?K1 = "K\<lparr>net := S\<rparr>"
  have K1: "reachableK (\<lambda>_. 0) {1, 2, 3} exPeers ?K1" by (rule quiet_lift [OF S(1) K(1)])
  have n1: "nd S 1 = ?a" "ApplyCh (nd S 1) = [CommandMsg 1 1 exAppend]" using S(2) by (simp_all add: runAt_def exNode_def)
  let ?kv = "(exServer 1 ?a)\<lparr>store := [''k'' \<mapsto> ''v''], duplicateTable := [7 \<mapsto> 1], notifyChans := Map.empty, chans := [0 \<mapsto> exAppend], nextChan := 1\<rparr>"
  have at1: "serverAt ?K1 1 = (exServer 1 ?a)\<lparr>notifyChans := [1 \<mapsto> 0], nextChan := 1\<rparr>" using K(6) n1(1) by (simp add: serverAt_def exServer_def)
  have "applyLoop_step (\<lambda>_. 0) (ApplyCh (nd (net ?K1) 1) ! readPos ?K1 1) (serverAt ?K1 1) = Inr ?kv"
    unfolding at1 using K(3) n1(2) ex_apply [where i = 1 and r = ?a and nc = "[1 \<mapsto> 0]" and n = 1] by simp
  then have "kstep (\<lambda>_. 0) {1, 2, 3} ?K1 ((setServer 1 ?kv ?K1)\<lparr>readPos := (readPos ?K1)(1 := readPos ?K1 1 + 1)\<rparr>)"
    using K(3) n1(2) by (intro kstep.consume) simp_all
  then have K2: "reachableK (\<lambda>_. 0) {1, 2, 3} exPeers ((setServer 1 ?kv ?K1)\<lparr>readPos := (readPos ?K1)(1 := readPos ?K1 1 + 1)\<rparr>)" (is "reachableK _ _ _ ?K2")
    by (rule reachableK.step [OF K1])
  have put: "puts ?K2 0 = Some (1, PWaiting ?w)" using K(5) by (simp add: setServer_def)
  have "PutAppend_wait ?w ChanReady (serverAt ?K2 1) = Some OK" by (simp add: PutAppend_wait_def setServer_def)
  from kstep.wake [OF put this] have "reachableK (\<lambda>_. 0) {1, 2, 3} exPeers ((setServer 1 (PutAppend_return ?w (serverAt ?K2 1)) ?K2)\<lparr>puts := (puts ?K2)(0 := None),
      oks := insert (pwIndex ?w, pwOp ?w) (oks ?K2)\<rparr>)" (is "reachableK _ _ _ ?K3") using reachableK.step [OF K2] by simp
  then show ?thesis
    using S(2) K(3,4,7) by (intro exI [of _ ?K3]) (auto simp: setServer_def PutAppend_return_def serverAt_def)
qed

lemma ex_replicated:
  "\<exists>K. reachableK (\<lambda>_. 0) {1, 2, 3} exPeers K \<and> readPos K 1 = 1 \<and> readPos K 2 = 1 \<and> oks K = {(1, exAppend)} \<and> store (kvs K 1) = [''k'' \<mapsto> ''v'']"
proof -
  let ?a = "exLead [exEntry exAppend] 1 1 [CommandMsg 1 1 exAppend] 2 1" and ?b = "exFollow [exEntry exAppend] 1 1 [CommandMsg 1 1 exAppend]"
  obtain K es where K: "reachableK (\<lambda>_. 0) {1, 2, 3} exPeers K" "runAt (net K) ?a (exFollow [exEntry exAppend] 0 0 []) 0 es NoCall"
    "readPos K = (\<lambda>_. 0)(1 := 1)" "oks K = {(1, exAppend)}" "store (kvs K 1) = [''k'' \<mapsto> ''v'']" "kvs K 2 = exServer 2 (node (initCluster exPeers) 2)"
    using ex_acknowledged by blast
  obtain S x where S: "quietStep\<^sup>*\<^sup>* (net K) S" "runAt S ?a ?b 0 es x" using ex_followed [OF K(2)] by blast
  let ?K1 = "K\<lparr>net := S\<rparr>"
  have K1: "reachableK (\<lambda>_. 0) {1, 2, 3} exPeers ?K1" by (rule quiet_lift [OF S(1) K(1)])
  have n2: "nd S 2 = ?b" "ApplyCh (nd S 2) = [CommandMsg 1 1 exAppend]" using S(2) by (simp_all add: runAt_def exNode_def)
  have at2: "serverAt ?K1 2 = (exServer 2 ?b)\<lparr>notifyChans := Map.empty, nextChan := 0\<rparr>" using K(6) n2(1) by (simp add: serverAt_def exServer_def)
  obtain kv where "applyLoop_step (\<lambda>_. 0) (ApplyCh (nd (net ?K1) 2) ! readPos ?K1 2) (serverAt ?K1 2) = Inr kv"
    unfolding at2 using K(3) n2(2) ex_apply [where i = 2 and r = ?b and nc = Map.empty and n = 0] by simp
  then have "kstep (\<lambda>_. 0) {1, 2, 3} ?K1 ((setServer 2 kv ?K1)\<lparr>readPos := (readPos ?K1)(2 := readPos ?K1 2 + 1)\<rparr>)"
    using K(3) n2(2) by (intro kstep.consume) simp_all
  then have "reachableK (\<lambda>_. 0) {1, 2, 3} exPeers ((setServer 2 kv ?K1)\<lparr>readPos := (readPos ?K1)(2 := readPos ?K1 2 + 1)\<rparr>)" (is "reachableK _ _ _ ?K2")
    by (rule reachableK.step [OF K1])
  then show ?thesis using K(3-5) by (intro exI [of _ ?K2]) (auto simp: setServer_def)
qed

theorem kv_cluster_agreement_witness:
  "\<exists>K. reachableK (\<lambda>_. 0) {1, 2, 3} exPeers K \<and> readPos K 1 = 1 \<and> store (kvs K 2) = [''k'' \<mapsto> ''v''] \<and> kvAbs (kvs K 1) = kvAbs (kvs K 2)"
proof -
  obtain K where K: "reachableK (\<lambda>_. 0) {1, 2, 3} exPeers K" "readPos K 1 = 1" "readPos K 2 = 1" "store (kvs K 1) = [''k'' \<mapsto> ''v'']"
    using ex_replicated by blast
  then have "kvAbs (kvs K 1) = kvAbs (kvs K 2)" using kv_cluster_agreement [OF K(1) exPeers_OK, of 1 2] by simp
  then show ?thesis using K by (intro exI [of _ K]) (simp add: kvAbs_def)
qed

theorem acknowledged_write_kept_witness:
  "\<exists>K. reachableK (\<lambda>_. 0) {1, 2, 3} exPeers K \<and> (1, exAppend) \<in> oks K \<and> msgCommand (ApplyCh (nd (net K) 2) ! 0) = exAppend"
proof -
  obtain K where K: "reachableK (\<lambda>_. 0) {1, 2, 3} exPeers K" "readPos K 2 = 1" "oks K = {(1, exAppend)}" using ex_replicated by blast
  then show ?thesis using acknowledged_write_kept [OF K(1) exPeers_OK, of 1 exAppend 2] by auto
qed

end
