(* ===== verification/Pool.thy ===== *)
theory Pool
  imports Prelude "HOL-Library.Multiset"
begin

text \<open>
  The elastic connection pool (\<open>src/03-connection-pooling/pooled_client.go\<close>). The state is the struct \<open>Pool\<close>: the buffered
  channel \<open>free\<close> as a list of at most \<open>MaxSize\<close> elements, the counter, and beside them the identities of the
  connections dialed and closed so far. A goroutine is a value of \<open>pthread\<close>, which says where in \<open>Call\<close>, \<open>checkout\<close>,
  \<open>evictAndReplace\<close>, \<open>redialUntilMinRestored\<close> or \<open>evictIdleConnections\<close> it stands; each of these functions is one
  definition that takes the goroutine to its next stop, under an event that says how a dial, a call or a select
  came out, and gives \<open>None\<close> where the goroutine blocks. Runs interleave any number of goroutines.
\<close>

section \<open>State\<close>

record PoolOptions =
  MinSize :: int
  MaxSize :: int
  CheckoutTimeout :: int
  RedialInterval :: int
  IdleTimeout :: int

record pooledConn =
  client :: nat
  returnedAt :: int

record Pool =
  popts :: PoolOptions
  free :: "pooledConn list"
  count :: int
  stopped :: bool
  freeClosed :: bool
  nextConn :: nat
  closedConns :: "nat list"

datatype poolError = BadMaxSize int | BadMinSize int int | DialFailed nat

section \<open>Operations on the struct\<close>

text \<open>\<open>rpc.Dial\<close> gives a connection that no other holds; \<open>closeConn\<close> is \<open>Close\<close> of a connection.\<close>

definition dialed :: "Pool \<Rightarrow> nat \<times> Pool" where
  "dialed p = (nextConn p, p\<lparr>nextConn := nextConn p + 1\<rparr>)"

definition closeConn :: "nat \<Rightarrow> Pool \<Rightarrow> Pool" where
  "closeConn c p = p\<lparr>closedConns := c # closedConns p\<rparr>"

definition drainFree :: "Pool \<Rightarrow> Pool" where
  "drainFree p = p\<lparr>free := [], closedConns := rev (map client (free p)) @ closedConns p\<rparr>"

fun dialLoop :: "(nat \<Rightarrow> bool) \<Rightarrow> int \<Rightarrow> nat \<Rightarrow> nat \<Rightarrow> Pool \<Rightarrow> (poolError \<times> Pool) + Pool" where
  "dialLoop answers now i 0 p = Inr p"
| "dialLoop answers now i (Suc n) p =
     (if answers i
      then let (c, p1) = dialed p
           in dialLoop answers now (Suc i) n (p1\<lparr>count := count p1 + 1, free := free p1 @ [\<lparr>client = c, returnedAt = now\<rparr>]\<rparr>)
      else Inl (DialFailed (i + 1), drainFree p))"

definition NewPool :: "PoolOptions \<Rightarrow> (nat \<Rightarrow> bool) \<Rightarrow> int \<Rightarrow> (poolError \<times> Pool) + Pool" where
  "NewPool opts answers now =
     (let p = \<lparr>popts = opts, free = [], count = 0, stopped = False, freeClosed = False, nextConn = 0, closedConns = []\<rparr>
      in if MaxSize opts < 1 then Inl (BadMaxSize (MaxSize opts), p)
         else if MinSize opts < 0 \<or> MinSize opts > MaxSize opts then Inl (BadMinSize (MinSize opts) (MaxSize opts), p)
         else dialLoop answers now 0 (nat (MinSize opts)) p)"

definition tryReserveGrowth :: "Pool \<Rightarrow> bool \<times> Pool" where
  "tryReserveGrowth p = (if count p < MaxSize (popts p) then (True, p\<lparr>count := count p + 1\<rparr>) else (False, p))"

definition releaseGrowthReservation :: "Pool \<Rightarrow> Pool" where
  "releaseGrowthReservation p = p\<lparr>count := count p - 1\<rparr>"

definition tryReserveRestore :: "Pool \<Rightarrow> bool \<times> Pool" where
  "tryReserveRestore p =
     (if count p < MinSize (popts p) \<and> count p < MaxSize (popts p) then (True, p\<lparr>count := count p + 1\<rparr>) else (False, p))"

text \<open>A send on \<open>free\<close> blocks while the buffer is full.\<close>

definition sendFree :: "pooledConn \<Rightarrow> Pool \<Rightarrow> Pool option" where
  "sendFree pc p = (if int (length (free p)) < MaxSize (popts p) then Some (p\<lparr>free := free p @ [pc]\<rparr>) else None)"

definition checkin :: "nat \<Rightarrow> int \<Rightarrow> Pool \<Rightarrow> Pool option" where
  "checkin c now p = sendFree \<lparr>client = c, returnedAt = now\<rparr> p"

definition idleCheckInterval :: "PoolOptions \<Rightarrow> int" where
  "idleCheckInterval opts =
     (let interval = (if IdleTimeout opts < 0 then - ((- IdleTimeout opts) div 4) else IdleTimeout opts div 4)
      in if interval < 1000000 then 1000000 else interval)"

definition shouldEvict :: "pooledConn \<Rightarrow> int \<Rightarrow> Pool \<Rightarrow> bool" where
  "shouldEvict pc now p \<longleftrightarrow> count p > MinSize (popts p) \<and> now - returnedAt pc > IdleTimeout (popts p)"

section \<open>Goroutines\<close>

datatype callResult = CallOK | CallFailed | ErrPoolExhausted

text \<open>
  Where a goroutine stands: in \<open>checkout\<close> before the first receive, before \<open>tryReserveGrowth\<close>, dialing with its slot
  reserved, giving the slot back, waiting; holding a connection in \<open>Call\<close>; checking it in; in \<open>evictAndReplace\<close>
  before the counter, before \<open>tryReserveRestore\<close>, dialing, checking in, giving up; in \<open>redialUntilMinRestored\<close>
  waiting for the ticker, dialing, giving the slot back, sending; in the idle evictor waiting for the ticker, with
  \<open>n\<close> rounds of the sweep to go, and within a round holding a connection, closing it or putting it back.
\<close>

datatype callAt =
    CheckFast | CheckGrow | CheckDial | CheckRelease | CheckWait
  | Using nat | Checkin nat
  | EvictCount | EvictRestore | EvictDial | EvictSend nat | EvictRelease
  | CallDone callResult

datatype redialAt = RedialWait | RedialDial | RedialRelease | RedialSend nat | RedialDone

datatype evictorAt =
    EvictorWait | Sweep nat | SweepHold nat pooledConn | SweepClose nat pooledConn | SweepPut nat pooledConn | EvictorDone

datatype pthread = TCall callAt | TRedial redialAt | TEvictor evictorAt

datatype ev = Go | Dialed | DialError | Timeout | CallError | Stop

definition recvFree :: "Pool \<Rightarrow> (pooledConn \<times> Pool) option" where
  "recvFree p = (case free p of [] \<Rightarrow> None | pc # rest \<Rightarrow> Some (pc, p\<lparr>free := rest\<rparr>))"

definition checkoutDial :: "ev \<Rightarrow> Pool \<Rightarrow> (callAt \<times> Pool) option" where
  "checkoutDial e p =
     (if e = Dialed then (let (c, p1) = dialed p in Some (Using c, p1))
      else if e = DialError then Some (CheckRelease, p) else None)"

definition checkoutWait :: "ev \<Rightarrow> Pool \<Rightarrow> (callAt \<times> Pool) option" where
  "checkoutWait e p =
     (if e = Go then map_option (\<lambda>(pc, p1). (Using (client pc), p1)) (recvFree p)
      else if e = Timeout then Some (CallDone ErrPoolExhausted, p) else None)"

definition checkout :: "ev \<Rightarrow> callAt \<Rightarrow> Pool \<Rightarrow> (callAt \<times> Pool) option" where
  "checkout e t p =
     (case t of
        CheckFast \<Rightarrow> Some (case recvFree p of Some (pc, p1) \<Rightarrow> (Using (client pc), p1) | None \<Rightarrow> (CheckGrow, p))
      | CheckGrow \<Rightarrow> (let (ok, p1) = tryReserveGrowth p in Some (if ok then CheckDial else CheckWait, p1))
      | CheckDial \<Rightarrow> checkoutDial e p
      | CheckRelease \<Rightarrow> Some (CheckWait, releaseGrowthReservation p)
      | CheckWait \<Rightarrow> checkoutWait e p
      | _ \<Rightarrow> None)"

definition evictDial :: "ev \<Rightarrow> Pool \<Rightarrow> (callAt \<times> Pool) option" where
  "evictDial e p =
     (if e = Dialed then (let (c, p1) = dialed p in Some (EvictSend c, p1))
      else if e = DialError then Some (EvictRelease, p) else None)"

text \<open>The goroutine for \<open>redialUntilMinRestored\<close> starts where the last step of \<open>evictAndReplace\<close> returns \<open>True\<close>.\<close>

definition evictAndReplace :: "ev \<Rightarrow> int \<Rightarrow> callAt \<Rightarrow> Pool \<Rightarrow> (callAt \<times> Pool \<times> bool) option" where
  "evictAndReplace e clock t p =
     (case t of
        EvictCount \<Rightarrow> Some (EvictRestore, p\<lparr>count := count p - 1\<rparr>, False)
      | EvictRestore \<Rightarrow> (let (ok, p1) = tryReserveRestore p in Some (if ok then EvictDial else CallDone CallFailed, p1, False))
      | EvictDial \<Rightarrow> map_option (\<lambda>(t1, p1). (t1, p1, False)) (evictDial e p)
      | EvictSend c \<Rightarrow> map_option (\<lambda>p1. (CallDone CallFailed, p1, False)) (checkin c clock p)
      | EvictRelease \<Rightarrow> Some (CallDone CallFailed, releaseGrowthReservation p, True)
      | _ \<Rightarrow> None)"

definition Call :: "ev \<Rightarrow> int \<Rightarrow> callAt \<Rightarrow> Pool \<Rightarrow> (callAt \<times> Pool \<times> bool) option" where
  "Call e clock t p =
     (case t of
        Using c \<Rightarrow> (if e = CallError then Some (EvictCount, closeConn c p, False) else Some (Checkin c, p, False))
      | Checkin c \<Rightarrow> map_option (\<lambda>p1. (CallDone CallOK, p1, False)) (checkin c clock p)
      | _ \<Rightarrow> (case checkout e t p of Some (t1, p1) \<Rightarrow> Some (t1, p1, False) | None \<Rightarrow> evictAndReplace e clock t p))"

definition redialDial :: "ev \<Rightarrow> Pool \<Rightarrow> (redialAt \<times> Pool) option" where
  "redialDial e p =
     (if e = Dialed then (let (c, p1) = dialed p in Some (RedialSend c, p1))
      else if e = DialError then Some (RedialRelease, p) else None)"

definition redialSend :: "ev \<Rightarrow> int \<Rightarrow> nat \<Rightarrow> Pool \<Rightarrow> (redialAt \<times> Pool) option" where
  "redialSend e clock c p =
     (if e = Go then map_option (\<lambda>p1. (RedialDone, p1)) (sendFree \<lparr>client = c, returnedAt = clock\<rparr> p)
      else if e = Stop \<and> stopped p then Some (RedialDone, closeConn c (releaseGrowthReservation p)) else None)"

definition redialUntilMinRestored :: "ev \<Rightarrow> int \<Rightarrow> redialAt \<Rightarrow> Pool \<Rightarrow> (redialAt \<times> Pool) option" where
  "redialUntilMinRestored e clock t p =
     (case t of
        RedialWait \<Rightarrow>
          (if e = Go then (let (ok, p1) = tryReserveRestore p in Some (if ok then RedialDial else RedialDone, p1))
           else if e = Stop \<and> stopped p then Some (RedialDone, p) else None)
      | RedialDial \<Rightarrow> redialDial e p
      | RedialRelease \<Rightarrow> Some (RedialWait, releaseGrowthReservation p)
      | RedialSend c \<Rightarrow> redialSend e clock c p
      | RedialDone \<Rightarrow> None)"

definition evictIdleConnections :: "int \<Rightarrow> evictorAt \<Rightarrow> Pool \<Rightarrow> (evictorAt \<times> Pool) option" where
  "evictIdleConnections clock t p =
     (case t of
        Sweep 0 \<Rightarrow> Some (EvictorWait, p)
      | Sweep (Suc n) \<Rightarrow> Some (case recvFree p of None \<Rightarrow> (EvictorWait, p) | Some (pc, p1) \<Rightarrow> (SweepHold n pc, p1))
      | SweepHold n pc \<Rightarrow>
          Some (if shouldEvict pc clock p then (SweepClose n pc, p\<lparr>count := count p - 1\<rparr>) else (SweepPut n pc, p))
      | SweepClose n pc \<Rightarrow> Some (Sweep n, closeConn (client pc) p)
      | SweepPut n pc \<Rightarrow> map_option (\<lambda>p1. (Sweep n, p1)) (sendFree pc p)
      | _ \<Rightarrow> None)"

definition runIdleEvictor :: "ev \<Rightarrow> int \<Rightarrow> evictorAt \<Rightarrow> Pool \<Rightarrow> (evictorAt \<times> Pool) option" where
  "runIdleEvictor e clock t p =
     (case t of
        EvictorWait \<Rightarrow>
          (if e = Go then Some (Sweep (length (free p)), p) else if e = Stop \<and> stopped p then Some (EvictorDone, p) else None)
      | _ \<Rightarrow> evictIdleConnections clock t p)"

fun threadStep :: "ev \<Rightarrow> int \<Rightarrow> pthread \<Rightarrow> Pool \<Rightarrow> (pthread \<times> Pool \<times> bool) option" where
  "threadStep e clock (TCall t) p = map_option (\<lambda>(t1, p1, b). (TCall t1, p1, b)) (Call e clock t p)"
| "threadStep e clock (TRedial t) p = map_option (\<lambda>(t1, p1). (TRedial t1, p1, False)) (redialUntilMinRestored e clock t p)"
| "threadStep e clock (TEvictor t) p = map_option (\<lambda>(t1, p1). (TEvictor t1, p1, False)) (runIdleEvictor e clock t p)"

section \<open>Runs\<close>

record psys =
  pool :: Pool
  threads :: "pthread list"
  now :: int

definition finished :: "pthread \<Rightarrow> bool" where
  "finished t = (case t of TCall (CallDone _) \<Rightarrow> True | TRedial RedialDone \<Rightarrow> True | TEvictor EvictorDone \<Rightarrow> True | _ \<Rightarrow> False)"

definition pstart :: "Pool \<Rightarrow> int \<Rightarrow> psys" where
  "pstart p t = \<lparr>pool = p, threads = [TEvictor EvictorWait], now = t\<rparr>"

text \<open>
  A goroutine takes a step, a caller calls \<open>Call\<close>, \<open>Close\<close> closes \<open>stopCh\<close>, and, once every goroutine has ended (the
  documented precondition of \<open>Close\<close> for the calls, \<open>wg.Wait\<close> for the background ones), closes and drains \<open>free\<close>.
\<close>

inductive pstep :: "psys \<Rightarrow> psys \<Rightarrow> bool" where
  thread: "i < length (threads S) \<Longrightarrow> threadStep e (now S) (threads S ! i) (pool S) = Some (t', p', b) \<Longrightarrow>
    pstep S (S\<lparr>pool := p', threads := (threads S)[i := t'] @ (if b then [TRedial RedialWait] else [])\<rparr>)"
| call: "\<not> stopped (pool S) \<Longrightarrow> pstep S (S\<lparr>threads := threads S @ [TCall CheckFast]\<rparr>)"
| close_stop: "pstep S (S\<lparr>pool := (pool S)\<lparr>stopped := True\<rparr>\<rparr>)"
| close_drain: "stopped (pool S) \<Longrightarrow> list_all finished (threads S) \<Longrightarrow> \<not> freeClosed (pool S) \<Longrightarrow>
    pstep S (S\<lparr>pool := (drainFree (pool S))\<lparr>freeClosed := True\<rparr>\<rparr>)"
| clock: "now S \<le> t \<Longrightarrow> pstep S (S\<lparr>now := t\<rparr>)"

definition preach :: "psys \<Rightarrow> psys \<Rightarrow> bool" where
  "preach = pstep\<^sup>*\<^sup>*"

section \<open>Slots and connections\<close>

text \<open>Which goroutines account for one unit of the counter, and which connections a goroutine holds.\<close>

fun slots :: "pthread \<Rightarrow> int" where
  "slots (TCall t) = (case t of CheckDial \<Rightarrow> 1 | CheckRelease \<Rightarrow> 1 | Using _ \<Rightarrow> 1 | Checkin _ \<Rightarrow> 1 | EvictCount \<Rightarrow> 1
     | EvictDial \<Rightarrow> 1 | EvictSend _ \<Rightarrow> 1 | EvictRelease \<Rightarrow> 1 | _ \<Rightarrow> 0)"
| "slots (TRedial t) = (case t of RedialDial \<Rightarrow> 1 | RedialRelease \<Rightarrow> 1 | RedialSend _ \<Rightarrow> 1 | _ \<Rightarrow> 0)"
| "slots (TEvictor t) = (case t of SweepHold _ _ \<Rightarrow> 1 | SweepPut _ _ \<Rightarrow> 1 | _ \<Rightarrow> 0)"

fun holds :: "pthread \<Rightarrow> nat list" where
  "holds (TCall t) = (case t of Using c \<Rightarrow> [c] | Checkin c \<Rightarrow> [c] | EvictSend c \<Rightarrow> [c] | _ \<Rightarrow> [])"
| "holds (TRedial t) = (case t of RedialSend c \<Rightarrow> [c] | _ \<Rightarrow> [])"
| "holds (TEvictor t) = (case t of SweepHold _ pc \<Rightarrow> [client pc] | SweepClose _ pc \<Rightarrow> [client pc] | SweepPut _ pc \<Rightarrow> [client pc] | _ \<Rightarrow> [])"

definition live :: "psys \<Rightarrow> nat list" where
  "live S = map client (free (pool S)) @ concat (map holds (threads S))"

definition sending :: "pthread \<Rightarrow> bool" where
  "sending t = (case t of
      TCall a \<Rightarrow> (case a of Checkin _ \<Rightarrow> True | EvictSend _ \<Rightarrow> True | _ \<Rightarrow> False)
    | TRedial a \<Rightarrow> (case a of RedialSend _ \<Rightarrow> True | _ \<Rightarrow> False)
    | TEvictor a \<Rightarrow> (case a of SweepPut _ _ \<Rightarrow> True | _ \<Rightarrow> False))"

definition pinv :: "psys \<Rightarrow> bool" where
  "pinv S \<longleftrightarrow>
     (freeClosed (pool S) \<or> count (pool S) = int (length (free (pool S))) + sum_list (map slots (threads S))) \<and>
     count (pool S) \<le> MaxSize (popts (pool S)) \<and>
     mset (live S) + mset (closedConns (pool S)) = mset [0..<nextConn (pool S)]"

text \<open>What a step of one goroutine does to the pool and to what it holds itself.\<close>

definition stepBalance :: "pthread \<Rightarrow> Pool \<Rightarrow> pthread \<Rightarrow> Pool \<Rightarrow> bool" where
  "stepBalance t p t' p' \<longleftrightarrow> popts p' = popts p \<and> stopped p' = stopped p \<and> freeClosed p' = freeClosed p \<and>
     count p' - int (length (free p')) - slots t' = count p - int (length (free p)) - slots t \<and>
     (count p' \<le> count p \<or> count p' \<le> MaxSize (popts p)) \<and>
     (nextConn p' = nextConn p \<and>
        mset (map client (free p')) + mset (holds t') + mset (closedConns p') =
        mset (map client (free p)) + mset (holds t) + mset (closedConns p) \<or>
      nextConn p' = Suc (nextConn p) \<and>
        mset (map client (free p')) + mset (holds t') + mset (closedConns p') =
        add_mset (nextConn p) (mset (map client (free p)) + mset (holds t) + mset (closedConns p)))"

lemmas pool_op_defs = recvFree_def dialed_def tryReserveGrowth_def tryReserveRestore_def releaseGrowthReservation_def
  sendFree_def checkin_def closeConn_def Let_def

lemma callAt_balance:
  assumes "Call e clock t p = Some (t', p', b)"
  shows "stepBalance (TCall t) p (TCall t') p'"
  using assms unfolding Call_def
  by (cases t; auto simp: stepBalance_def checkout_def checkoutDial_def checkoutWait_def evictAndReplace_def evictDial_def
      pool_op_defs split: if_splits list.splits option.splits)

lemma redialAt_balance:
  assumes "redialUntilMinRestored e clock t p = Some (t', p')"
  shows "stepBalance (TRedial t) p (TRedial t') p'"
  using assms unfolding redialUntilMinRestored_def
  by (cases t; auto simp: stepBalance_def redialDial_def redialSend_def pool_op_defs split: if_splits)

lemma evictorAt_balance:
  assumes "runIdleEvictor e clock t p = Some (t', p')"
  shows "stepBalance (TEvictor t) p (TEvictor t') p'"
  using assms unfolding runIdleEvictor_def evictIdleConnections_def
  by (cases t; auto simp: stepBalance_def pool_op_defs split: if_splits list.splits nat.splits)

lemma threadStep_balance:
  assumes "threadStep e clock t p = Some (t', p', b)"
  shows "stepBalance t p t' p'"
  using assms callAt_balance redialAt_balance evictorAt_balance by (cases t) auto

lemma sum_slots_upd:
  "i < length ts \<Longrightarrow> sum_list (map slots (ts[i := t])) = sum_list (map slots ts) - slots (ts ! i) + slots t"
proof (induction ts arbitrary: i)
  case (Cons a ts)
  then show ?case by (cases i) auto
qed simp

lemma mset_holds_upd:
  "i < length ts \<Longrightarrow> mset (concat (map holds (ts[i := t]))) + mset (holds (ts ! i)) = mset (concat (map holds ts)) + mset (holds t)"
proof (induction ts arbitrary: i)
  case (Cons a ts)
  then show ?case by (cases i) (auto simp: ac_simps)
qed simp

lemma thread_pinv:
  assumes inv: "pinv S" and i: "i < length (threads S)"
    and st: "threadStep e (now S) (threads S ! i) (pool S) = Some (t', p', b)"
  shows "pinv (S\<lparr>pool := p', threads := (threads S)[i := t'] @ (if b then [TRedial RedialWait] else [])\<rparr>)" (is "pinv ?S")
proof -
  let ?t = "threads S ! i" and ?p = "pool S"
  have bal: "stepBalance ?t ?p t' p'" using threadStep_balance [OF st] .
  have th: "sum_list (map slots (threads ?S)) = sum_list (map slots (threads S)) - slots ?t + slots t'"
    using sum_slots_upd [OF i, of t'] by simp
  have lv: "mset (live ?S) + mset (holds ?t) = mset (map client (free p')) + mset (concat (map holds (threads S))) + mset (holds t')"
    using mset_holds_upd [OF i, of t'] by (simp add: live_def add.assoc)
  have old: "mset (live S) = mset (map client (free ?p)) + mset (concat (map holds (threads S)))" by (simp add: live_def)
  have tot: "mset (live S) + mset (closedConns ?p) = mset [0..<nextConn ?p]" using inv by (simp add: pinv_def)
  have "mset (live ?S) + mset (closedConns p') + mset (holds ?t) =
    mset (concat (map holds (threads S))) + (mset (map client (free p')) + mset (holds t') + mset (closedConns p'))"
    using lv by (simp add: ac_simps)
  also have "\<dots> = mset [0..<nextConn p'] + mset (holds ?t)"
  proof (cases "nextConn p' = nextConn ?p")
    case True
    then have "mset (map client (free p')) + mset (holds t') + mset (closedConns p') =
        mset (map client (free ?p)) + mset (holds ?t) + mset (closedConns ?p)" using bal by (simp add: stepBalance_def)
    then show ?thesis using True tot old by (simp add: ac_simps)
  next
    case False
    then have nc: "nextConn p' = Suc (nextConn ?p)" "mset (map client (free p')) + mset (holds t') + mset (closedConns p') =
        add_mset (nextConn ?p) (mset (map client (free ?p)) + mset (holds ?t) + mset (closedConns ?p))"
      using bal by (auto simp: stepBalance_def)
    have "mset [0..<nextConn p'] = add_mset (nextConn ?p) (mset (live S) + mset (closedConns ?p))" using nc(1) tot by simp
    then show ?thesis unfolding nc(2) old by (simp add: ac_simps)
  qed
  finally have "mset (live ?S) + mset (closedConns p') = mset [0..<nextConn p']" by simp
  then show ?thesis using inv bal th unfolding pinv_def stepBalance_def by auto
qed

lemma finished_no_step: "finished t \<Longrightarrow> threadStep e clock t p = None"
  by (auto simp: finished_def Call_def checkout_def evictAndReplace_def redialUntilMinRestored_def runIdleEvictor_def
      evictIdleConnections_def split: pthread.splits callAt.splits redialAt.splits evictorAt.splits)

lemma finished_holds: "finished t \<Longrightarrow> holds t = [] \<and> \<not> sending t"
  by (auto simp: finished_def sending_def split: pthread.splits callAt.splits redialAt.splits evictorAt.splits)

definition closedInv :: "psys \<Rightarrow> bool" where
  "closedInv S \<longleftrightarrow> freeClosed (pool S) \<longrightarrow> stopped (pool S) \<and> free (pool S) = [] \<and> list_all finished (threads S)"

lemma pstep_inv:
  assumes "pstep S S'" "pinv S" "closedInv S"
  shows "pinv S' \<and> closedInv S' \<and> popts (pool S') = popts (pool S) \<and> length (threads S) \<le> length (threads S')"
  using assms(1)
proof cases
  case (thread i e t' p' b)
  have "\<not> finished (threads S ! i)" using finished_no_step thread(3) by (metis option.distinct(1))
  then have open': "\<not> freeClosed (pool S)" using assms(3) thread(2) by (auto simp: closedInv_def list_all_length)
  have "stepBalance (threads S ! i) (pool S) t' p'" using threadStep_balance [OF thread(3)] .
  then show ?thesis using thread_pinv [OF assms(2) thread(2,3)] open' thread(1) by (auto simp: closedInv_def stepBalance_def)
next
  case call
  then show ?thesis using assms(2,3) by (auto simp: pinv_def closedInv_def live_def)
next
  case close_stop
  then show ?thesis using assms(2,3) by (auto simp: pinv_def closedInv_def live_def)
next
  case close_drain
  then show ?thesis using assms(2,3) by (simp add: pinv_def closedInv_def live_def drainFree_def ac_simps)
next
  case (clock t)
  then show ?thesis using assms(2,3) by (simp add: pinv_def closedInv_def live_def)
qed

lemma slots_nonneg: "0 \<le> slots t"
  by (cases t rule: slots.cases) (auto split: callAt.split redialAt.split evictorAt.split)

lemma sending_slot: "sending t \<Longrightarrow> slots t = 1"
  by (cases t rule: slots.cases) (auto simp: sending_def split: callAt.splits redialAt.splits evictorAt.splits)

lemma dialLoop_ok:
  assumes "dialLoop answers t i n p = Inr p'" "count p = int (length (free p))"
    "mset (map client (free p)) + mset (closedConns p) = mset [0..<nextConn p]"
  shows "count p' = int (length (free p')) \<and> mset (map client (free p')) + mset (closedConns p') = mset [0..<nextConn p'] \<and>
    count p' = count p + int n \<and> popts p' = popts p \<and> \<not> (stopped p' \<noteq> stopped p \<or> freeClosed p' \<noteq> freeClosed p)"
  using assms
proof (induction n arbitrary: i p)
  case (Suc n)
  let ?p = "p\<lparr>nextConn := nextConn p + 1, count := count p + 1, free := free p @ [\<lparr>client = nextConn p, returnedAt = t\<rparr>]\<rparr>"
  have "dialLoop answers t (Suc i) n ?p = Inr p'" using Suc.prems(1) by (simp add: dialed_def Let_def split: if_splits)
  from Suc.IH [OF this] show ?case using Suc.prems(2,3) by simp
qed simp

lemma NewPool_pinv:
  assumes "NewPool opts answers t0 = Inr p"
  shows "pinv (pstart p t) \<and> closedInv (pstart p t) \<and> popts p = opts \<and> 1 \<le> MaxSize opts \<and> 0 \<le> MinSize opts \<and>
    MinSize opts \<le> MaxSize opts \<and> count p = MinSize opts"
proof -
  have o: "1 \<le> MaxSize opts" "0 \<le> MinSize opts" "MinSize opts \<le> MaxSize opts"
    and d: "dialLoop answers t0 0 (nat (MinSize opts))
      \<lparr>popts = opts, free = [], count = 0, stopped = False, freeClosed = False, nextConn = 0, closedConns = []\<rparr> = Inr p"
    using assms by (auto simp: NewPool_def Let_def split: if_splits)
  show ?thesis using dialLoop_ok [OF d] o by (simp add: pinv_def closedInv_def pstart_def live_def)
qed

lemma preach_inv:
  assumes "preach S S'" "pinv S" "closedInv S"
  shows "pinv S' \<and> closedInv S' \<and> popts (pool S') = popts (pool S)"
  using assms unfolding preach_def by induction (auto dest: pstep_inv)

lemma pool_room:
  assumes "pinv S" "closedInv S" "t \<in> set (threads S)" "sending t"
  shows "int (length (free (pool S))) < MaxSize (popts (pool S))"
proof -
  have nf: "\<not> finished t" using finished_holds assms(4) by blast
  then have "\<not> freeClosed (pool S)" using assms(2,3) by (auto simp: closedInv_def list_all_iff)
  then have "int (length (free (pool S))) + sum_list (map slots (threads S)) \<le> MaxSize (popts (pool S))"
    using assms(1) by (simp add: pinv_def)
  moreover have "1 \<le> sum_list (map slots (threads S))"
    using assms(3) sending_slot [OF assms(4)] member_le_sum_list [of "slots t" "map slots (threads S)"] slots_nonneg by force
  ultimately show ?thesis by linarith
qed

text \<open>
  (C39) In every state of every run of a pool that \<open>NewPool\<close> made: the counter is at most \<open>MaxSize\<close> and, until the pool is
  closed, equals the connections in the free list plus the goroutines that account for a slot (those
  dialing, holding, checking in or giving back); so a goroutine about to send on the free list finds
  room and never blocks. Every connection ever dialed is in exactly one place: the free list, one goroutine, or closed; no
  two callers share a connection and none is handed out after it was closed. Once \<open>Close\<close> has drained the free list, all of them
  are closed and no goroutine sends on it any more.
\<close>
theorem pool_bounded:
  assumes "NewPool opts answers t0 = Inr p" "preach (pstart p t) S"
  shows "count (pool S) \<le> MaxSize opts \<and>
    (\<not> freeClosed (pool S) \<longrightarrow> 0 \<le> count (pool S) \<and> count (pool S) = int (length (free (pool S))) + sum_list (map slots (threads S))) \<and>
    (\<forall>t \<in> set (threads S). sending t \<longrightarrow> int (length (free (pool S))) < MaxSize opts \<and> \<not> freeClosed (pool S)) \<and>
    distinct (live S @ closedConns (pool S)) \<and> set (live S @ closedConns (pool S)) = {0..<nextConn (pool S)} \<and>
    (freeClosed (pool S) \<longrightarrow> set (closedConns (pool S)) = {0..<nextConn (pool S)})"
proof -
  note n = NewPool_pinv [OF assms(1), of t]
  have inv: "pinv S" "closedInv S" "popts (pool S) = opts"
    using preach_inv [OF assms(2)] n by (simp_all add: pstart_def)
  have total: "mset (live S @ closedConns (pool S)) = mset [0..<nextConn (pool S)]" using inv(1) by (simp add: pinv_def)
  have snd: "int (length (free (pool S))) < MaxSize opts \<and> \<not> freeClosed (pool S)" if "t \<in> set (threads S)" "sending t" for t
    using pool_room [OF inv(1,2) that] finished_holds [of t] that inv(2,3) by (auto simp: closedInv_def list_all_iff)
  have nonneg: "0 \<le> sum_list (map slots (threads S))" using slots_nonneg by (intro sum_list_nonneg) auto
  have "live S = []" if "freeClosed (pool S)"
    using inv(2) that finished_holds by (simp add: closedInv_def live_def list_all_iff)
  moreover have "set (live S @ closedConns (pool S)) = {0..<nextConn (pool S)}" using mset_eq_setD [OF total] by simp
  moreover have "distinct (live S @ closedConns (pool S))" using mset_eq_imp_distinct_iff [OF total] by simp
  ultimately show ?thesis using inv snd nonneg by (auto simp: pinv_def)
qed

section \<open>Concrete runs\<close>

datatype move = MCall | MThread nat ev

fun makeMove :: "move \<Rightarrow> psys \<Rightarrow> psys option" where
  "makeMove MCall S = (if stopped (pool S) then None else Some (S\<lparr>threads := threads S @ [TCall CheckFast]\<rparr>))"
| "makeMove (MThread i e) S =
     (if i < length (threads S)
      then map_option (\<lambda>(t', p', b). S\<lparr>pool := p', threads := (threads S)[i := t'] @ (if b then [TRedial RedialWait] else [])\<rparr>)
             (threadStep e (now S) (threads S ! i) (pool S))
      else None)"

fun makeMoves :: "move list \<Rightarrow> psys \<Rightarrow> psys option" where
  "makeMoves [] S = Some S"
| "makeMoves (m # ms) S = (case makeMove m S of None \<Rightarrow> None | Some S1 \<Rightarrow> makeMoves ms S1)"

lemma makeMove_pstep:
  assumes "makeMove m S = Some S'"
  shows "pstep S S'"
proof (cases m)
  case MCall
  then show ?thesis using assms pstep.call [of S] by (simp split: if_splits)
next
  case (MThread i e)
  have i: "i < length (threads S)" using assms MThread by (simp split: if_splits)
  obtain t' p' b where t: "threadStep e (now S) (threads S ! i) (pool S) = Some (t', p', b)"
    using assms MThread i by (cases "threadStep e (now S) (threads S ! i) (pool S)") auto
  have S': "S' = S\<lparr>pool := p', threads := (threads S)[i := t'] @ (if b then [TRedial RedialWait] else [])\<rparr>"
    using assms MThread i t by simp
  show ?thesis unfolding S' by (rule pstep.thread [OF i t])
qed

lemma makeMoves_preach: "makeMoves ms S = Some S' \<Longrightarrow> preach S S'"
proof (induction ms arbitrary: S)
  case Nil
  then show ?case by (simp add: preach_def)
next
  case (Cons m ms)
  then obtain S1 where "makeMove m S = Some S1" "makeMoves ms S1 = Some S'" by (auto split: option.splits)
  then show ?case using Cons.IH makeMove_pstep unfolding preach_def by (metis converse_rtranclp_into_rtranclp)
qed

definition smallOpts :: PoolOptions where
  "smallOpts = \<lparr>MinSize = 1, MaxSize = 2, CheckoutTimeout = 10, RedialInterval = 5, IdleTimeout = 20\<rparr>"

definition smallPool :: Pool where
  "smallPool = \<lparr>popts = smallOpts, free = [\<lparr>client = 0, returnedAt = 0\<rparr>], count = 1, stopped = False,
     freeClosed = False, nextConn = 1, closedConns = []\<rparr>"

lemma smallPool_new: "NewPool smallOpts (\<lambda>_. True) 0 = Inr smallPool"
  by (simp add: NewPool_def smallOpts_def smallPool_def dialed_def)

lemmas pool_eval = pstart_def smallPool_def smallOpts_def Call_def checkout_def checkoutDial_def checkoutWait_def
  evictAndReplace_def evictDial_def redialUntilMinRestored_def redialDial_def redialSend_def runIdleEvictor_def
  evictIdleConnections_def pool_op_defs

text \<open>Two callers at once: the first gets the idle connection, the second grows the pool.\<close>

lemma smallPool_grown: "\<exists>S. makeMoves [MCall, MCall, MThread 1 Go, MThread 2 Go, MThread 2 Go, MThread 2 Dialed, MThread 2 Go]
    (pstart smallPool 0) = Some S \<and> threads S = [TEvictor EvictorWait, TCall (Using 0), TCall (Checkin 1)]"
  by (simp add: pool_eval)

theorem pool_bounded_witness:
  "\<exists>S. preach (pstart smallPool 0) S \<and> threads S = [TEvictor EvictorWait, TCall (Using 0), TCall (Checkin 1)] \<and>
     count (pool S) \<le> 2 \<and> distinct (live S @ closedConns (pool S)) \<and> int (length (free (pool S))) < 2"
proof -
  obtain S where S: "preach (pstart smallPool 0) S" "threads S = [TEvictor EvictorWait, TCall (Using 0), TCall (Checkin 1)]"
    using smallPool_grown makeMoves_preach by blast
  have "count (pool S) \<le> 2 \<and> distinct (live S @ closedConns (pool S)) \<and> int (length (free (pool S))) < 2"
    using pool_bounded [OF smallPool_new S(1)] S(2) by (auto simp: smallOpts_def sending_def)
  then show ?thesis using S by blast
qed

text \<open>
  The connection of a call breaks and the redial fails, so the background redialer waits for its ticker. A second
  caller reserves the slot to grow; while it dials, the ticker fires, \<open>tryReserveRestore\<close> finds the counter at the
  minimum and the redialer returns. Then the second caller's dial fails and the slot is given back.
\<close>

definition minLostMoves :: "move list" where
  "minLostMoves = [MCall, MThread 1 Go, MThread 1 CallError, MThread 1 Go, MThread 1 Go, MThread 1 DialError, MThread 1 Go,
     MCall, MThread 3 Go, MThread 3 Go, MThread 2 Go, MThread 3 DialError, MThread 3 Go, MThread 3 Timeout]"

definition minLost :: psys where
  "minLost = \<lparr>pool = \<lparr>popts = smallOpts, free = [], count = 0, stopped = False, freeClosed = False, nextConn = 1, closedConns = [0]\<rparr>,
     threads = [TEvictor EvictorWait, TCall (CallDone CallFailed), TRedial RedialDone, TCall (CallDone ErrPoolExhausted)], now = 0\<rparr>"

lemma minLost_run: "makeMoves minLostMoves (pstart smallPool 0) = Some minLost"
  by (simp add: minLostMoves_def minLost_def pool_eval)

definition noCallStep :: "psys \<Rightarrow> psys \<Rightarrow> bool" where
  "noCallStep S S' \<longleftrightarrow> pstep S S' \<and> length (threads S') = length (threads S)"

definition onlyEvictor :: "psys \<Rightarrow> bool" where
  "onlyEvictor S \<longleftrightarrow> free (pool S) = [] \<and> count (pool S) = 0 \<and>
     (\<exists>t ts. threads S = TEvictor t # ts \<and> t \<in> {EvictorWait, Sweep 0, EvictorDone} \<and> list_all finished ts)"

lemma onlyEvictor_step:
  assumes "noCallStep S S'" "onlyEvictor S"
  shows "onlyEvictor S'"
proof -
  obtain t ts where t: "threads S = TEvictor t # ts" "t \<in> {EvictorWait, Sweep 0, EvictorDone}" "list_all finished ts"
    and p: "free (pool S) = []" "count (pool S) = 0"
    using assms(2) by (auto simp: onlyEvictor_def)
  have "pstep S S'" "length (threads S') = length (threads S)" using assms(1) by (simp_all add: noCallStep_def)
  then show ?thesis
  proof cases
    case (thread i e t' p' b)
    have "\<not> finished (threads S ! i)" using finished_no_step thread(3) by (metis option.distinct(1))
    then have "i = 0" using t(1,3) thread(2) by (cases i) (auto simp: list_all_length)
    then show ?thesis using thread t p
      by (auto simp: onlyEvictor_def runIdleEvictor_def evictIdleConnections_def split: if_splits)
  next
    case close_drain
    then show ?thesis using t p by (auto simp: onlyEvictor_def drainFree_def)
  qed (use t p in \<open>auto simp: onlyEvictor_def\<close>)
qed



end
