(* ===== verification/Retry.thy ===== *)
theory Retry
  imports Prelude
begin

text \<open>
  The loop that the clients of the later stages share: ask the servers in turn, beginning with the one that last
  answered, decide on each reply, and after a round without a decision begin again. It is written once here and used by
  \<open>src/03-connection-pooling/client.go\<close> and \<open>src/05-sharded-kv/ctrler_clerk.go\<close>, whose methods differ in the call and in what they
  make of a reply. The loop has no bound in the code; one unit of fuel is one round over the servers.
\<close>

text \<open>What a method makes of a reply: return, try the next server, or panic.\<close>

datatype 'a verdict = Take 'a | NextServer | Abort string

type_synonym ('w, 'r) serverCall = "nat \<Rightarrow> 'w \<Rightarrow> 'r option \<times> 'w"

fun tryServers :: "('r \<Rightarrow> 'a verdict) \<Rightarrow> ('w, 'r) serverCall \<Rightarrow> nat \<Rightarrow> nat \<Rightarrow> nat list \<Rightarrow> 'w \<Rightarrow> (nat \<times> 'a) option res \<times> 'w" where
  "tryServers decide call start n [] w = (Inr None, w)"
| "tryServers decide call start n (i # is) w =
     (let idx = (start + i) mod n
      in case call idx w of
           (None, w') \<Rightarrow> tryServers decide call start n is w'
         | (Some r, w') \<Rightarrow>
             (case decide r of
                Take a \<Rightarrow> (Inr (Some (idx, a)), w')
              | NextServer \<Rightarrow> tryServers decide call start n is w'
              | Abort m \<Rightarrow> (Inl (Panic m), w')))"

text \<open>The server a round begins with may differ from round to round: other callers of the same client move it.\<close>

fun retryServers ::
    "nat \<Rightarrow> ('r \<Rightarrow> 'a verdict) \<Rightarrow> ('w, 'r) serverCall \<Rightarrow> (nat \<Rightarrow> nat) \<Rightarrow> nat \<Rightarrow> 'w \<Rightarrow> ((nat \<times> 'a) res \<times> 'w) option" where
  "retryServers 0 decide call start n w = None"
| "retryServers (Suc fuel) decide call start n w =
     (case tryServers decide call (start fuel) n [0..<n] w of
        (Inl e, w') \<Rightarrow> Some (Inl e, w')
      | (Inr (Some x), w') \<Rightarrow> Some (Inr x, w')
      | (Inr None, w') \<Rightarrow> retryServers fuel decide call start n w')"

text \<open>
  The loop as a transition of the world: whatever every call keeps, the loop keeps, and it returns only right after
  a reply that was decided upon.
\<close>

definition keeps :: "('w, 'r) serverCall \<Rightarrow> ('w \<Rightarrow> bool) \<Rightarrow> bool" where
  "keeps call J \<longleftrightarrow> (\<forall>i w. J w \<longrightarrow> J (snd (call i w)))"

definition answered :: "('w, 'r) serverCall \<Rightarrow> ('r \<Rightarrow> 'a verdict) \<Rightarrow> ('w \<Rightarrow> bool) \<Rightarrow> nat \<Rightarrow> 'a \<Rightarrow> 'w \<Rightarrow> bool" where
  "answered call decide J idx a w' \<longleftrightarrow> (\<exists>w r. J w \<and> call idx w = (Some r, w') \<and> decide r = Take a)"

lemma tryServers_inv:
  assumes "keeps call J" "J w" "tryServers decide call start n is w = (res, w')"
  shows "J w' \<and> (\<forall>idx a. res = Inr (Some (idx, a)) \<longrightarrow> answered call decide J idx a w')"
  using assms(2,3)
proof (induction "is" arbitrary: w)
  case (Cons i "is")
  obtain r w1 where c: "call ((start + i) mod n) w = (r, w1)" by fastforce
  then have J: "J w1" using assms(1) Cons.prems(1) unfolding keeps_def by (metis snd_conv)
  show ?case
  proof (cases r)
    case None
    then show ?thesis using Cons.IH [OF J] Cons.prems c by (simp add: Let_def)
  next
    case (Some x)
    then show ?thesis using Cons.IH [OF J] Cons.prems c J
      by (auto simp: Let_def answered_def split: verdict.splits)
  qed
qed auto

lemma retryServers_inv:
  assumes "keeps call J" "J w" "retryServers fuel decide call start n w = Some (res, w')"
  shows "J w' \<and> (\<forall>idx a. res = Inr (idx, a) \<longrightarrow> answered call decide J idx a w')"
  using assms(2,3)
proof (induction fuel arbitrary: w)
  case (Suc fuel)
  obtain x w1 where t: "tryServers decide call (start fuel) n [0..<n] w = (x, w1)" by fastforce
  note i = tryServers_inv [OF assms(1) Suc.prems(1) t]
  show ?case
  proof (cases x)
    case (Inl e)
    then show ?thesis using Suc.prems t i by auto
  next
    case (Inr y)
    then show ?thesis using Suc.IH [of w1] Suc.prems t i by (cases y) auto
  qed
qed simp

text \<open>If no server ever gives a reply to decide upon, the loop never returns, whatever the fuel.\<close>

lemma tryServers_silent:
  assumes "\<And>i w r w'. call i w = (Some r, w') \<Longrightarrow> decide r = NextServer"
  shows "fst (tryServers decide call start n is w) = Inr None"
proof (induction "is" arbitrary: w)
  case (Cons i "is")
  then show ?case using assms by (auto simp: Let_def split: prod.split option.split)
qed simp

lemma retryServers_silent:
  assumes "\<And>i w r w'. call i w = (Some r, w') \<Longrightarrow> decide r = NextServer"
  shows "retryServers fuel decide call start n w = None"
proof (induction fuel arbitrary: w)
  case (Suc fuel)
  have "fst (tryServers decide call (start fuel) n [0..<n] w) = Inr None" by (rule tryServers_silent [of call]) (rule assms)
  then show ?case using Suc by (auto split: prod.splits)
qed simp

text \<open>If some server's reply is decided upon and no server's is refused, one round is enough.\<close>

lemma tryServers_takes:
  assumes "j \<in> (\<lambda>i. (start + i) mod n) ` set is" "\<And>w. \<exists>r w' a. call j w = (Some r, w') \<and> decide r = Take a"
    and "\<And>i w r w' m. call i w = (Some r, w') \<Longrightarrow> decide r \<noteq> Abort m"
  shows "\<exists>idx a w'. tryServers decide call start n is w = (Inr (Some (idx, a)), w')"
  using assms(1)
proof (induction "is" arbitrary: w)
  case (Cons i "is")
  obtain r w1 where c: "call ((start + i) mod n) w = (r, w1)" by fastforce
  show ?case
  proof (cases "\<exists>x a. r = Some x \<and> decide x = Take a")
    case True
    then show ?thesis using c by (auto simp: Let_def)
  next
    case False
    then have "j \<noteq> (start + i) mod n" using assms(2) [of w] c by auto
    then have "j \<in> (\<lambda>i. (start + i) mod n) ` set is" using Cons.prems by auto
    then obtain idx a w' where "tryServers decide call start n is w1 = (Inr (Some (idx, a)), w')" using Cons.IH by blast
    moreover have "r = Some x \<Longrightarrow> decide x = NextServer" for x
      using False assms(3) [of "(start + i) mod n" w x w1] c by (cases "decide x") auto
    ultimately show ?thesis using c by (cases r) (auto simp: Let_def)
  qed
qed simp

lemma mod_covers: "j < n \<Longrightarrow> j \<in> (\<lambda>i. (start + i) mod n) ` {0..<(n::nat)}"
proof (rule image_eqI [of _ _ "(j + n - start mod n) mod n"])
  assume j: "j < n"
  then have "start mod n < n" by simp
  then have "start mod n + (j + n - start mod n) = j + n" by linarith
  then have "(start mod n + (j + n - start mod n)) mod n = j" using j by (metis mod_add_self2 mod_less)
  then show "j = (start + (j + n - start mod n) mod n) mod n" by (simp add: mod_simps)
qed simp

lemma retryServers_takes:
  assumes "j < n" "\<And>w. \<exists>r w' a. call j w = (Some r, w') \<and> decide r = Take a"
    and "\<And>i w r w' m. call i w = (Some r, w') \<Longrightarrow> decide r \<noteq> Abort m"
  shows "\<exists>idx a w'. retryServers (Suc fuel) decide call start n w = Some (Inr (idx, a), w')"
proof -
  have "j \<in> (\<lambda>i. (start fuel + i) mod n) ` set [0..<n]" using mod_covers [OF assms(1)] by simp
  then have "\<exists>idx a w'. tryServers decide call (start fuel) n [0..<n] w = (Inr (Some (idx, a)), w')"
    by (rule tryServers_takes) (rule assms(2), rule assms(3))
  then show ?thesis by fastforce
qed

end
