(* ===== verification/KV_Clerk.thy ===== *)
theory KV_Clerk
  imports KV_Server
begin

text \<open>
  The client of the key-value store (\<open>src/02-kv-store/clerk.go\<close>). The servers are reached through
  two functions, one per call, that map the server's position, the arguments and the state of the
  world to the outcome (\<open>None\<close> for an error of the call itself) and the next state of the world. The
  outer \<open>for\<close> loop has no bound, so it takes fuel, one unit per pass over the servers, and the
  theorems show when the fuel suffices.
\<close>

record Clerk =
  servers :: nat
  clientID :: int
  seqNum :: int
  lastKnown :: nat

type_synonym 'w putCall = "nat \<Rightarrow> PutAppendArgs \<Rightarrow> 'w \<Rightarrow> Err option \<times> 'w"
type_synonym 'w getCall = "nat \<Rightarrow> string \<Rightarrow> 'w \<Rightarrow> GetReply option \<times> 'w"

definition NewClerk :: "nat \<Rightarrow> int \<Rightarrow> Clerk" where
  "NewClerk n random = \<lparr>servers = n, clientID = random, seqNum = 0, lastKnown = 0\<rparr>"

fun putRound :: "'w putCall \<Rightarrow> Clerk \<Rightarrow> PutAppendArgs \<Rightarrow> nat list \<Rightarrow> 'w \<Rightarrow> nat option \<times> 'w" where
  "putRound call ck args [] w = (None, w)"
| "putRound call ck args (i # is) w =
     (let idx = (lastKnown ck + i) mod servers ck
      in case call idx args w of
           (None, w') \<Rightarrow> putRound call ck args is w'
         | (Some e, w') \<Rightarrow> if e = OK then (Some idx, w') else putRound call ck args is w')"

fun putLoop :: "nat \<Rightarrow> 'w putCall \<Rightarrow> Clerk \<Rightarrow> PutAppendArgs \<Rightarrow> 'w \<Rightarrow> (nat \<times> 'w) option" where
  "putLoop 0 call ck args w = None"
| "putLoop (Suc fuel) call ck args w =
     (case putRound call ck args [0..<servers ck] w of
        (Some idx, w') \<Rightarrow> Some (idx, w')
      | (None, w') \<Rightarrow> putLoop fuel call ck args w')"

definition putArgs :: "string \<Rightarrow> string \<Rightarrow> string \<Rightarrow> Clerk \<Rightarrow> PutAppendArgs" where
  "putArgs key value opn ck =
     \<lparr>paKey = key, paValue = value, paOp = opn, paClientID = clientID ck, paSeqNum = seqNum ck\<rparr>"

definition putAppend ::
    "nat \<Rightarrow> 'w putCall \<Rightarrow> string \<Rightarrow> string \<Rightarrow> string \<Rightarrow> Clerk \<Rightarrow> 'w \<Rightarrow> (Clerk \<times> 'w) option" where
  "putAppend fuel call key value opn ck w =
     (let ck1 = ck\<lparr>seqNum := seqNum ck + 1\<rparr>
      in case putLoop fuel call ck1 (putArgs key value opn ck1) w of
           None \<Rightarrow> None
         | Some (idx, w') \<Rightarrow> Some (ck1\<lparr>lastKnown := idx\<rparr>, w'))"

fun getRound :: "'w getCall \<Rightarrow> Clerk \<Rightarrow> string \<Rightarrow> nat list \<Rightarrow> 'w \<Rightarrow> (nat \<times> string) option \<times> 'w" where
  "getRound call ck key [] w = (None, w)"
| "getRound call ck key (i # is) w =
     (let idx = (lastKnown ck + i) mod servers ck
      in case call idx key w of
           (None, w') \<Rightarrow> getRound call ck key is w'
         | (Some reply, w') \<Rightarrow>
             if grErr reply = OK then (Some (idx, grValue reply), w')
             else if grErr reply = ErrNoKey then (Some (idx, ''''), w')
             else getRound call ck key is w')"

fun clerkGet :: "nat \<Rightarrow> 'w getCall \<Rightarrow> string \<Rightarrow> Clerk \<Rightarrow> 'w \<Rightarrow> (string \<times> Clerk \<times> 'w) option" where
  "clerkGet 0 call key ck w = None"
| "clerkGet (Suc fuel) call key ck w =
     (case getRound call ck key [0..<servers ck] w of
        (Some (idx, v), w') \<Rightarrow> Some (v, ck\<lparr>lastKnown := idx\<rparr>, w')
      | (None, w') \<Rightarrow> clerkGet fuel call key ck w')"

section \<open>Exactly once\<close>

text \<open>
  What the clerk relies on, with the committed log as the world: a call appends entries to the log,
  the only entry of this client among them is the proposed operation, and \<open>OK\<close> is reported only when
  that operation is in the log (\<open>PutAppend_OK_committed\<close>).
\<close>

definition service_ok :: "Op list putCall \<Rightarrow> bool" where
  "service_ok call \<longleftrightarrow>
     (\<forall>i args w e w'. call i args w = (e, w') \<longrightarrow>
        (\<exists>ys. w' = w @ ys \<and> (\<forall>op\<in>set ys. opClientID op = paClientID args \<longrightarrow> op = putOp args)) \<and>
        (e = Some OK \<longrightarrow> putOp args \<in> set w'))"

definition extends_by :: "PutAppendArgs \<Rightarrow> Op list \<Rightarrow> Op list \<Rightarrow> bool" where
  "extends_by args w w' \<longleftrightarrow>
     (\<exists>ys. w' = w @ ys \<and> (\<forall>op\<in>set ys. opClientID op = paClientID args \<longrightarrow> op = putOp args))"

lemma extends_by_refl: "extends_by args w w"
  by (auto simp: extends_by_def)

lemma extends_by_trans: "extends_by args w w1 \<Longrightarrow> extends_by args w1 w2 \<Longrightarrow> extends_by args w w2"
  by (auto simp: extends_by_def)

lemma service_okD:
  assumes "service_ok call" "call i args w = (e, w')"
  shows "extends_by args w w'" "e = Some OK \<Longrightarrow> putOp args \<in> set w'"
  using assms unfolding service_ok_def extends_by_def by blast+

lemma putRound_log:
  assumes "service_ok call" "putRound call ck args is w = (res, w')"
  shows "extends_by args w w' \<and> (res \<noteq> None \<longrightarrow> putOp args \<in> set w')"
  using assms(2)
proof (induction "is" arbitrary: w)
  case (Cons i "is")
  obtain e w1 where c: "call ((lastKnown ck + i) mod servers ck) args w = (e, w1)" by fastforce
  note s = service_okD [OF assms(1) c]
  show ?case
  proof (cases "e = Some OK")
    case True
    then show ?thesis using Cons.prems c s by auto
  next
    case False
    then have "putRound call ck args is w1 = (res, w')"
      using Cons.prems c by (auto simp: Let_def split: option.splits if_splits)
    with Cons.IH s(1) show ?thesis using extends_by_trans by blast
  qed
qed (simp add: extends_by_refl)

lemma putLoop_log:
  assumes "service_ok call" "putLoop fuel call ck args w = Some (idx, w')"
  shows "extends_by args w w'" "putOp args \<in> set w'"
proof -
  have "extends_by args w w' \<and> putOp args \<in> set w'"
    using assms(2)
  proof (induction fuel arbitrary: w)
    case (Suc fuel)
    obtain res w1 where r: "putRound call ck args [0..<servers ck] w = (res, w1)" by fastforce
    note p = putRound_log [OF assms(1) r]
    show ?case
    proof (cases res)
      case None
      then have "putLoop fuel call ck args w1 = Some (idx, w')" using Suc.prems r by simp
      with Suc.IH p show ?thesis using extends_by_trans by blast
    qed (use Suc.prems r p in auto)
  qed simp
  then show "extends_by args w w'" "putOp args \<in> set w'" by auto
qed

text \<open>A logged request with a new sequence number takes effect once when a replica applies the log.\<close>

lemma logged_once:
  assumes log: "extends_by args w w'" "putOp args \<in> set w'"
    and old: "\<forall>op\<in>set w. opClientID op = paClientID args \<longrightarrow> opSeqNum op < paSeqNum args" "0 < paSeqNum args"
    and run: "run_log applyOp w' kv = Inr kv'" "duplicateTable kv = Map.empty"
  shows "length (filter (\<lambda>op. opClientID op = paClientID args \<and> opSeqNum op = paSeqNum args) (kvm.effective w' kv)) = 1 \<and>
     (\<forall>op\<in>set w'. opClientID op = paClientID args \<longrightarrow> opSeqNum op \<le> paSeqNum args)"
proof -
  let ?op = "putOp args"
  have op: "opClientID ?op = paClientID args" "opSeqNum ?op = paSeqNum args" by (simp_all add: putOp_def)
  have mine: "opSeqNum op' < paSeqNum args \<or> op' = ?op" if "op' \<in> set w'" "opClientID op' = paClientID args" for op'
    using log(1) that old(1) by (auto simp: extends_by_def)
  have "?op \<in> set (kvm.effective w' kv)"
  proof (rule kvm.effective_contains [OF run(1) log(2)])
    show "get0 (duplicateTable kv) (opClientID ?op) < opSeqNum ?op" using old(2) run(2) op by simp
  qed (use mine op in force)
  then have "?op \<in> set (filter (\<lambda>op. opClientID op = paClientID args \<and> opSeqNum op = paSeqNum args) (kvm.effective w' kv))"
    using op by simp
  then have "0 < length (filter (\<lambda>op. opClientID op = paClientID args \<and> opSeqNum op = paSeqNum args) (kvm.effective w' kv))"
    by (metis length_pos_if_in_set)
  then have "length (filter (\<lambda>op. opClientID op = paClientID args \<and> opSeqNum op = paSeqNum args) (kvm.effective w' kv)) = 1"
    using kvm.effective_once [of "paClientID args" "paSeqNum args" w' kv] by linarith
  moreover have "opSeqNum op' \<le> paSeqNum args" if "op' \<in> set w'" "opClientID op' = paClientID args" for op'
    using mine [OF that] op by auto
  ultimately show ?thesis by blast
qed


text \<open>Two servers: the first logs the request but its answer is lost, the second answers.\<close>

definition exService :: "Op list putCall" where
  "exService i args w = (if i = 0 then (None, w @ [putOp args]) else (Some OK, w @ [putOp args]))"


section \<open>Progress\<close>

lemma rotation_hits:
  assumes "s < (n::nat)"
  shows "\<exists>i<n. (l + i) mod n = s"
proof -
  let ?i = "(s + (n - l mod n)) mod n"
  have "(l + ?i) mod n = (l mod n + (s + (n - l mod n))) mod n"
    by (simp add: mod_add_left_eq mod_add_right_eq)
  also have "\<dots> = (s + n) mod n"
    using assms by (metis add.commute add.left_commute le_add_diff_inverse less_imp_le_nat
        mod_less_divisor not_less0 not_gr0)
  finally show ?thesis using assms by (intro exI [of _ ?i]) simp
qed

lemma putRound_answers:
  assumes "i \<in> set is" "\<And>w. fst (call ((lastKnown ck + i) mod servers ck) args w) = Some OK"
  shows "fst (putRound call ck args is w) \<noteq> None"
  using assms(1)
proof (induction "is" arbitrary: w)
  case (Cons j "is")
  obtain e w1 where c: "call ((lastKnown ck + j) mod servers ck) args w = (e, w1)" by fastforce
  show ?case
  proof (cases "e = Some OK")
    case False
    then have "j \<noteq> i" using assms(2) [of w] c by auto
    then have "fst (putRound call ck args is w1) \<noteq> None" using Cons by simp
    with c False show ?thesis by (auto simp: Let_def split: option.split)
  qed (use c in auto)
qed simp

text \<open>
  One pass reaches every server: if some server is up and leading, so that it answers \<open>OK\<close>
  whatever happened before, then a single pass of the clerk over its servers returns, wherever its
  hint pointed, and the new hint is one of the servers.
\<close>

theorem clerk_returns:
  assumes "s < servers ck" "\<And>args w. fst (call s args w) = Some OK"
  shows "\<exists>ck' w'. putAppend (Suc fuel) call key value opn ck w = Some (ck', w') \<and> lastKnown ck' < servers ck"
proof -
  let ?ck = "ck\<lparr>seqNum := seqNum ck + 1\<rparr>"
  let ?args = "putArgs key value opn ?ck"
  obtain i where i: "i < servers ck" "(lastKnown ck + i) mod servers ck = s"
    using rotation_hits [OF assms(1)] by blast
  obtain res w1 where r: "putRound call ?ck ?args [0..<servers ck] w = (res, w1)" by fastforce
  have "fst (putRound call ?ck ?args [0..<servers ck] w) \<noteq> None"
    by (rule putRound_answers [of i]) (use i assms(2) in auto)
  then obtain idx where idx: "res = Some idx" using r by auto
  have "idx < servers ck" if "fst (putRound call ?ck ?args is w) = Some idx" for "is" w
    using that i(1)
    by (induction "is" arbitrary: w) (auto simp: Let_def split: prod.splits option.splits if_splits)
  then have "idx < servers ck" using r idx by (metis fst_conv)
  with r idx show ?thesis by (simp add: putAppend_def Let_def)
qed

theorem clerk_returns_witness:
  "\<exists>ck' w'. putAppend 1 exService ''k'' ''v'' ''Put'' (NewClerk 2 7) [] = Some (ck', w')"
  using clerk_returns [of 1 "NewClerk 2 7" exService 0 "''k''" "''v''" "''Put''" "[]"]
  by (auto simp: NewClerk_def exService_def)

end
