(* ===== verification/Pool_Client.thy ===== *)
theory Pool_Client
  imports Pool Retry KV_Clerk "HOL-Library.AList"
begin

text \<open>
  The clients of stage 3: the shared retry loop of \<open>src/03-connection-pooling/client.go\<close> and the caller that keeps one
  connection pool per address (\<open>pooledCaller\<close> and \<open>PooledClient\<close> in \<open>pooled_client.go\<close>). A client may be used by many
  goroutines: writes are serialized by \<open>writeMu\<close>, so \<open>putAppend\<close> runs alone among the writes of its client, while reads move
  \<open>lastKnown\<close> at any time; \<open>starts\<close> gives the value that \<open>startIndex\<close> reads in each round. A call on an address is a
  parameter, \<open>None\<close> for an error of the call itself.
\<close>

section \<open>The shared client\<close>

record poolClient =
  pcAddrs :: "string list"
  pcClientID :: int
  pcSeqNum :: int
  pcLastKnown :: nat

type_synonym 'w addrPut = "string \<Rightarrow> PutAppendArgs \<Rightarrow> 'w \<Rightarrow> Err option \<times> 'w"
type_synonym 'w addrGet = "string \<Rightarrow> string \<Rightarrow> 'w \<Rightarrow> GetReply option \<times> 'w"

definition startIndex :: "poolClient \<Rightarrow> nat" where
  "startIndex c = pcLastKnown c"

definition setLastKnown :: "nat \<Rightarrow> poolClient \<Rightarrow> poolClient" where
  "setLastKnown idx c = c\<lparr>pcLastKnown := idx\<rparr>"

definition newClient :: "string list \<Rightarrow> int \<Rightarrow> poolClient" where
  "newClient addrs random = \<lparr>pcAddrs = addrs, pcClientID = random, pcSeqNum = 0, pcLastKnown = 0\<rparr>"

definition getVerdict :: "GetReply \<Rightarrow> string verdict" where
  "getVerdict r = (if grErr r = OK then Take (grValue r) else if grErr r = ErrNoKey then Take '''' else NextServer)"

definition putVerdict :: "Err \<Rightarrow> unit verdict" where
  "putVerdict e = (if e = OK then Take () else NextServer)"

definition pooledGet :: "nat \<Rightarrow> 'w addrGet \<Rightarrow> (nat \<Rightarrow> nat) \<Rightarrow> string \<Rightarrow> poolClient \<Rightarrow> 'w \<Rightarrow> (string \<times> poolClient \<times> 'w) option" where
  "pooledGet fuel call starts key c w =
     (case retryServers fuel getVerdict (\<lambda>i. call (pcAddrs c ! i) key) starts (length (pcAddrs c)) w of
        Some (Inr (idx, v), w') \<Rightarrow> Some (v, setLastKnown idx c, w')
      | _ \<Rightarrow> None)"

definition pooledArgs :: "string \<Rightarrow> string \<Rightarrow> string \<Rightarrow> poolClient \<Rightarrow> PutAppendArgs" where
  "pooledArgs key value opn c =
     \<lparr>paKey = key, paValue = value, paOp = opn, paClientID = pcClientID c, paSeqNum = pcSeqNum c\<rparr>"

definition pooledPutAppend ::
    "nat \<Rightarrow> 'w addrPut \<Rightarrow> (nat \<Rightarrow> nat) \<Rightarrow> string \<Rightarrow> string \<Rightarrow> string \<Rightarrow> poolClient \<Rightarrow> 'w \<Rightarrow> (poolClient \<times> 'w) option" where
  "pooledPutAppend fuel call starts key value opn c w =
     (let c1 = c\<lparr>pcSeqNum := pcSeqNum c + 1\<rparr>; args = pooledArgs key value opn c1
      in case retryServers fuel putVerdict (\<lambda>i. call (pcAddrs c1 ! i) args) starts (length (pcAddrs c1)) w of
           Some (Inr (idx, _), w') \<Rightarrow> Some (setLastKnown idx c1, w')
         | _ \<Rightarrow> None)"

section \<open>Exactly once\<close>

text \<open>What the client relies on at every address, with the committed log as the world (see \<open>KV_Clerk.service_ok\<close>).\<close>

definition addrs_ok :: "Op list addrPut \<Rightarrow> bool" where
  "addrs_ok call \<longleftrightarrow> (\<forall>a args w e w'. call a args w = (e, w') \<longrightarrow> extends_by args w w' \<and> (e = Some OK \<longrightarrow> putOp args \<in> set w'))"

text \<open>
  The client of stage 3 writes exactly once: when \<open>Put\<close> or \<open>Append\<close> returns, then whatever server it began with in each round
  (other goroutines move \<open>lastKnown\<close> meanwhile), however often the request reached the log, and whatever other clients
  did, exactly one entry with the new sequence number takes effect when a replica applies the log.
\<close>

theorem pool_client_exactly_once:
  assumes "addrs_ok call" "pooledPutAppend fuel call starts key value opn c w = Some (c', w')"
    and "\<forall>op\<in>set w. opClientID op = pcClientID c \<longrightarrow> opSeqNum op \<le> pcSeqNum c" "0 \<le> pcSeqNum c"
    and "run_log applyOp w' kv = Inr kv'" "duplicateTable kv = Map.empty"
  shows "length (filter (\<lambda>op. opClientID op = pcClientID c \<and> opSeqNum op = pcSeqNum c') (kvm.effective w' kv)) = 1 \<and>
     pcSeqNum c' = pcSeqNum c + 1 \<and> (\<forall>op\<in>set w'. opClientID op = pcClientID c' \<longrightarrow> opSeqNum op \<le> pcSeqNum c')"
proof -
  let ?c = "c\<lparr>pcSeqNum := pcSeqNum c + 1\<rparr>"
  let ?args = "pooledArgs key value opn ?c" and ?call = "\<lambda>i. call (pcAddrs ?c ! i) (pooledArgs key value opn ?c)"
  obtain idx where r: "retryServers fuel putVerdict ?call starts (length (pcAddrs ?c)) w = Some (Inr (idx, ()), w')"
    and c': "c' = setLastKnown idx ?c"
    using assms(2) by (auto simp: pooledPutAppend_def Let_def split: option.splits prod.splits sum.splits)
  have keeps: "keeps ?call (extends_by ?args w)"
    unfolding keeps_def
  proof (intro allI impI)
    fix i w1 assume J: "extends_by ?args w w1"
    obtain e w2 where c: "call (pcAddrs ?c ! i) ?args w1 = (e, w2)" by fastforce
    then have "extends_by ?args w1 w2" using assms(1) unfolding addrs_ok_def by blast
    then show "extends_by ?args w (snd (call (pcAddrs ?c ! i) ?args w1))" using extends_by_trans [OF J] c by simp
  qed
  have inv: "extends_by ?args w w'" "answered ?call putVerdict (extends_by ?args w) idx () w'"
    using retryServers_inv [OF keeps extends_by_refl r] by auto
  then obtain w1 e where "call (pcAddrs ?c ! idx) ?args w1 = (Some e, w')" "putVerdict e = Take ()" unfolding answered_def by blast
  then have logged: "putOp ?args \<in> set w'" using assms(1) unfolding addrs_ok_def by (metis putVerdict_def verdict.distinct(1))
  have args: "paClientID ?args = pcClientID c" "paSeqNum ?args = pcSeqNum c + 1" by (simp_all add: pooledArgs_def)
  have "\<forall>op\<in>set w. opClientID op = paClientID ?args \<longrightarrow> opSeqNum op < paSeqNum ?args" "0 < paSeqNum ?args"
    using assms(3,4) by (auto simp: args)
  from logged_once [OF inv(1) logged this assms(5,6)] show ?thesis using c' by (simp add: args setLastKnown_def)
qed

text \<open>Two addresses; the first logs the request but its answer is lost.\<close>

definition exAddrService :: "Op list addrPut" where
  "exAddrService a args w = (if a = ''a'' then (None, w @ [putOp args]) else (Some OK, w @ [putOp args]))"

theorem pool_client_exactly_once_witness:
  "\<exists>c' w'. pooledPutAppend 1 exAddrService (\<lambda>_. 0) ''k'' ''v'' ''Append'' (newClient [''a'', ''b''] 7) [] = Some (c', w') \<and>
     w' = [exAppend, exAppend] \<and> length (filter (\<lambda>op. opClientID op = 7 \<and> opSeqNum op = 1) (kvm.effective w' exKV)) = 1"
proof -
  have ok: "addrs_ok exAddrService" by (auto simp: addrs_ok_def exAddrService_def extends_by_def)
  obtain c' where run: "pooledPutAppend 1 exAddrService (\<lambda>_. 0) ''k'' ''v'' ''Append'' (newClient [''a'', ''b''] 7) [] = Some (c', [exAppend, exAppend])"
    "pcSeqNum c' = 1"
    by (simp add: pooledPutAppend_def newClient_def exAddrService_def pooledArgs_def putOp_def exAppend_def putVerdict_def setLastKnown_def upt_rec Let_def)
  obtain kv' where kv': "run_log applyOp [exAppend, exAppend] exKV = Inr kv'" "duplicateTable exKV = Map.empty" by (simp add: kv_eval)
  from pool_client_exactly_once [OF ok run(1) _ _ kv'] run(2)
  have "length (filter (\<lambda>op. opClientID op = 7 \<and> opSeqNum op = 1) (kvm.effective [exAppend, exAppend] exKV)) = 1" by (simp add: newClient_def)
  with run(1) show ?thesis by blast
qed

text \<open>With one server that answers definitively, one round is enough; with none, the loop does not end.\<close>

lemma pooled_put_returns:
  assumes "s < length (pcAddrs c)" "\<And>args w. fst (call (pcAddrs c ! s) args w) = Some OK"
  shows "\<exists>c' w'. pooledPutAppend (Suc fuel) call starts key value opn c w = Some (c', w')"
proof -
  let ?c = "c\<lparr>pcSeqNum := pcSeqNum c + 1\<rparr>"
  let ?call = "\<lambda>i. call (pcAddrs ?c ! i) (pooledArgs key value opn ?c)"
  have "\<exists>idx a w'. retryServers (Suc fuel) putVerdict ?call starts (length (pcAddrs ?c)) w = Some (Inr (idx, a), w')"
  proof (rule retryServers_takes)
    show "s < length (pcAddrs ?c)" using assms(1) by simp
    show "\<exists>r w' a. ?call s w = (Some r, w') \<and> putVerdict r = Take a" for w
      using assms(2) [of "pooledArgs key value opn ?c" w] by (metis prod.collapse putVerdict_def poolClient.select_convs(1) poolClient.surjective poolClient.update_convs(3))
    show "putVerdict r \<noteq> Abort m" for r m by (simp add: putVerdict_def)
  qed
  then obtain idx a w' where "retryServers (Suc fuel) putVerdict ?call starts (length (pcAddrs ?c)) w = Some (Inr (idx, a), w')" by blast
  then show ?thesis by (simp add: pooledPutAppend_def Let_def del: retryServers.simps)
qed

lemma pooled_put_hangs:
  assumes "\<And>a args w. fst (call a args w) \<noteq> Some OK"
  shows "pooledPutAppend fuel call starts key value opn c w = None"
proof -
  let ?c = "c\<lparr>pcSeqNum := pcSeqNum c + 1\<rparr>"
  have "retryServers fuel putVerdict (\<lambda>i. call (pcAddrs ?c ! i) (pooledArgs key value opn ?c)) starts (length (pcAddrs ?c)) w = None"
  proof (rule retryServers_silent)
    fix i w r w' assume "call (pcAddrs ?c ! i) (pooledArgs key value opn ?c) w = (Some r, w')"
    then have "r \<noteq> OK" using assms by (metis fst_conv)
    then show "putVerdict r = NextServer" by (simp add: putVerdict_def)
  qed
  then show ?thesis by (simp add: pooledPutAppend_def Let_def)
qed

text \<open>A read returns what some server answered: its value, or the empty string for a key that was never set.\<close>

lemma pooledGet_answered:
  assumes "pooledGet fuel call starts key c w = Some (v, c', w')"
  obtains idx w1 r where "call (pcAddrs c ! idx) key w1 = (Some r, w')" "c' = setLastKnown idx c"
    "(grErr r = OK \<and> v = grValue r) \<or> (grErr r = ErrNoKey \<and> v = '''')"
proof -
  let ?call = "\<lambda>i. call (pcAddrs c ! i) key"
  obtain idx where r: "retryServers fuel getVerdict ?call starts (length (pcAddrs c)) w = Some (Inr (idx, v), w')" "c' = setLastKnown idx c"
    using assms by (auto simp: pooledGet_def split: option.splits prod.splits sum.splits)
  have "keeps ?call (\<lambda>_. True)" by (simp add: keeps_def)
  from retryServers_inv [OF this _ r(1)] have "answered ?call getVerdict (\<lambda>_. True) idx v w'" by simp
  then obtain w1 x where "call (pcAddrs c ! idx) key w1 = (Some x, w')" "getVerdict x = Take v" unfolding answered_def by blast
  then show thesis using that r(2) by (auto simp: getVerdict_def split: if_splits)
qed

text \<open>The caller of \<open>NaiveClient\<close>: every call dials, calls and closes, so that it leaves no connection behind.\<close>

definition dialPerCall :: "('w \<Rightarrow> bool \<times> 'w) \<Rightarrow> ('w \<Rightarrow> 'r option \<times> 'w) \<Rightarrow> ('w \<Rightarrow> 'w) \<Rightarrow> 'w \<Rightarrow> 'r option \<times> 'w" where
  "dialPerCall dial call close w =
     (case dial w of
        (False, w1) \<Rightarrow> (None, w1)
      | (True, w1) \<Rightarrow> (case call w1 of (r, w2) \<Rightarrow> (r, close w2)))"

lemma dialPerCall_no_leak:
  fixes opened :: "'w \<Rightarrow> nat"
  assumes "\<And>w. opened (snd (dial w)) = (if fst (dial w) then opened w + 1 else opened w)" "\<And>w. opened (snd (call w)) = opened w"
    and "\<And>w. opened (close w) = opened w - 1"
  shows "opened (snd (dialPerCall dial call close w)) = opened w"
proof (cases "dial w")
  case (Pair ok w1)
  obtain r w2 where "call w1 = (r, w2)" by (cases "call w1")
  then show ?thesis using Pair assms(1) [of w] assms(2) [of w1] assms(3) [of w2] by (cases ok) (simp_all add: dialPerCall_def)
qed

section \<open>One pool per address\<close>

text \<open>
  \<open>pooledCaller\<close>: the map \<open>pools\<close> is an association list from addresses to positions in \<open>made\<close>, the list of all pools that
  \<open>NewPool\<close> made for this caller, in order; \<open>answers i j\<close> says whether dial \<open>j\<close> of pool \<open>i\<close> succeeds and \<open>clock i\<close> is
  the time it is made at. \<open>closePool\<close> is \<open>Close\<close> of a pool whose goroutines have ended; that they end with every connection
  in the free list or closed is \<open>pool_bounded\<close>. The errors of closing a connection are not modelled.
\<close>

record pooledCaller =
  pools :: "(string \<times> nat) list"
  made :: "Pool list"

definition closePool :: "Pool \<Rightarrow> Pool" where
  "closePool p = (drainFree (p\<lparr>stopped := True\<rparr>))\<lparr>freeClosed := True\<rparr>"

definition callerClose :: "pooledCaller \<Rightarrow> pooledCaller" where
  "callerClose pc = pc\<lparr>made := map (\<lambda>(i, p). if i \<in> set (map snd (pools pc)) then closePool p else p) (enumerate 0 (made pc))\<rparr>"

fun addPools ::
    "PoolOptions \<Rightarrow> (nat \<Rightarrow> nat \<Rightarrow> bool) \<Rightarrow> (nat \<Rightarrow> int) \<Rightarrow> string list \<Rightarrow> pooledCaller \<Rightarrow> (poolError \<times> pooledCaller) + pooledCaller" where
  "addPools opts answers clock [] pc = Inr pc"
| "addPools opts answers clock (addr # addrs) pc =
     (let i = length (made pc)
      in case NewPool opts (answers i) (clock i) of
           Inl (e, p) \<Rightarrow> Inl (e, callerClose (pc\<lparr>made := made pc @ [p]\<rparr>))
         | Inr p \<Rightarrow> addPools opts answers clock addrs (pc\<lparr>pools := AList.update addr i (pools pc), made := made pc @ [p]\<rparr>))"

definition newPooledCaller :: "string list \<Rightarrow> PoolOptions \<Rightarrow> (nat \<Rightarrow> nat \<Rightarrow> bool) \<Rightarrow> (nat \<Rightarrow> int) \<Rightarrow> (poolError \<times> pooledCaller) + pooledCaller" where
  "newPooledCaller addrs opts answers clock = addPools opts answers clock addrs \<lparr>pools = [], made = []\<rparr>"

text \<open>The pool a call to \<open>addr\<close> goes through; an address without one is a call on a nil pool, which panics.\<close>

definition callerPool :: "string \<Rightarrow> pooledCaller \<Rightarrow> Pool res" where
  "callerPool addr pc = (case map_of (pools pc) addr of Some i \<Rightarrow> Inr (made pc ! i) | None \<Rightarrow> Inl (Panic ''nil pointer''))"

text \<open>Durations are in nanoseconds: \<open>raft.HeartbeatInterval\<close> is 2, \<open>ElectionTimeoutMin\<close> 20 and \<open>ElectionTimeoutMax\<close> 50 milliseconds.\<close>

definition defaultPoolOptions :: "int \<Rightarrow> int \<Rightarrow> PoolOptions" where
  "defaultPoolOptions minSize maxSize =
     \<lparr>MinSize = minSize, MaxSize = maxSize, CheckoutTimeout = 10 * 2000000, RedialInterval = 20000000, IdleTimeout = 20 * 50000000\<rparr>"

definition NewPooledClient ::
    "string list \<Rightarrow> int \<Rightarrow> int \<Rightarrow> int \<Rightarrow> (nat \<Rightarrow> nat \<Rightarrow> bool) \<Rightarrow> (nat \<Rightarrow> int) \<Rightarrow> (poolError \<times> pooledCaller) + (poolClient \<times> pooledCaller)" where
  "NewPooledClient addrs minSize maxSize random answers clock =
     (case newPooledCaller addrs (defaultPoolOptions minSize maxSize) answers clock of
        Inl e \<Rightarrow> Inl e
      | Inr pc \<Rightarrow> Inr (newClient addrs random, pc))"

text \<open>A pool at rest: every connection dialed is in the free list or closed.\<close>

definition atRest :: "Pool \<Rightarrow> bool" where
  "atRest p \<longleftrightarrow> mset (map client (free p)) + mset (closedConns p) = mset [0..<nextConn p]"

definition released :: "Pool \<Rightarrow> bool" where
  "released p \<longleftrightarrow> mset (closedConns p) = mset [0..<nextConn p]"

lemma closePool_released: "atRest p \<Longrightarrow> released (closePool p)"
  by (simp add: atRest_def released_def closePool_def drainFree_def ac_simps)

lemma dialLoop_failed:
  assumes "dialLoop answers t i n p = Inl (e, p')" "atRest p"
  shows "released p'"
  using assms
proof (induction n arbitrary: i p)
  case (Suc n)
  let ?p = "p\<lparr>nextConn := nextConn p + 1, count := count p + 1, free := free p @ [\<lparr>client = nextConn p, returnedAt = t\<rparr>]\<rparr>"
  show ?case
  proof (cases "answers i")
    case True
    then have "dialLoop answers t (Suc i) n ?p = Inl (e, p')" using Suc.prems(1) by (simp add: dialed_def Let_def)
    then show ?thesis using Suc.IH [of "Suc i" ?p] Suc.prems(2) by (simp add: atRest_def)
  next
    case False
    then show ?thesis using Suc.prems by (auto simp: atRest_def released_def drainFree_def ac_simps)
  qed
qed simp

lemma NewPool_failed:
  assumes "NewPool opts answers t = Inl (e, p)"
  shows "released p"
proof -
  let ?p = "\<lparr>popts = opts, free = [], count = 0, stopped = False, freeClosed = False, nextConn = 0, closedConns = []\<rparr>"
  have "atRest ?p" "released ?p" by (simp_all add: atRest_def released_def)
  then show ?thesis using assms dialLoop_failed [of answers t 0 "nat (MinSize opts)" ?p e p]
    by (auto simp: NewPool_def Let_def split: if_splits)
qed

lemma NewPool_atRest: "NewPool opts answers t = Inr p \<Longrightarrow> atRest p"
  using NewPool_pinv [of opts answers t p t] by (simp add: pinv_def pstart_def live_def atRest_def)

lemma closePool_nth: "\<forall>p\<in>set ps. atRest p \<Longrightarrow> i < length ps \<Longrightarrow> released (closePool (ps ! i))"
  using closePool_released by simp

definition callerInv :: "pooledCaller \<Rightarrow> bool" where
  "callerInv pc \<longleftrightarrow> map snd (pools pc) = [0..<length (made pc)] \<and> (\<forall>p\<in>set (made pc). atRest p)"

lemma callerClose_released:
  assumes "callerInv pc"
  shows "\<forall>p\<in>set (made (callerClose pc)). released p"
  using assms by (auto simp: callerInv_def callerClose_def in_set_enumerate_eq intro: closePool_nth)

lemma update_fresh: "a \<notin> fst ` set al \<Longrightarrow> AList.update a b al = al @ [(a, b)]"
  by (induction al) auto

lemma addPools_outcome:
  assumes "callerInv pc" "distinct (map fst (pools pc) @ addrs)"
  shows "case addPools opts answers clock addrs pc of
      Inl (e, pc') \<Rightarrow> \<forall>p\<in>set (made pc'). released p
    | Inr pc' \<Rightarrow> callerInv pc' \<and> map fst (pools pc') = map fst (pools pc) @ addrs"
  using assms
proof (induction addrs arbitrary: pc)
  case (Cons addr addrs)
  let ?i = "length (made pc)"
  show ?case
  proof (cases "NewPool opts (answers ?i) (clock ?i)")
    case (Inl x)
    obtain e p where x: "x = (e, p)" by fastforce
    have "released p" using NewPool_failed Inl x by blast
    then have "\<forall>q\<in>set (made (callerClose (pc\<lparr>made := made pc @ [p]\<rparr>))). released q"
      using Cons.prems(1) by (auto simp: callerInv_def callerClose_def in_set_enumerate_eq nth_append intro: closePool_nth)
    then show ?thesis using Inl x by (simp add: Let_def)
  next
    case (Inr p)
    let ?pc = "pc\<lparr>pools := AList.update addr ?i (pools pc), made := made pc @ [p]\<rparr>"
    have up: "AList.update addr ?i (pools pc) = pools pc @ [(addr, ?i)]" using Cons.prems(2) update_fresh [of addr "pools pc"] by force
    have "callerInv ?pc" using Cons.prems(1) NewPool_atRest [OF Inr] by (auto simp: callerInv_def up)
    moreover have "distinct (map fst (pools ?pc) @ addrs)" using Cons.prems(2) by (auto simp: up)
    ultimately have "case addPools opts answers clock addrs ?pc of
        Inl (e, pc') \<Rightarrow> \<forall>p\<in>set (made pc'). released p
      | Inr pc' \<Rightarrow> callerInv pc' \<and> map fst (pools pc') = map fst (pools ?pc) @ addrs"
      by (rule Cons.IH)
    then show ?thesis using Inr by (auto simp: Let_def up split: sum.splits)
  qed
qed simp

text \<open>
  Building a client over distinct addresses leaks nothing: if a dial fails, every connection dialed for any address has
  been closed when the error is returned; otherwise every address has a pool of its own and \<open>Close\<close> releases them all.
\<close>

theorem pooled_caller_releases:
  assumes "distinct addrs"
  shows "case NewPooledClient addrs minSize maxSize random answers clock of
      Inl (e, pc) \<Rightarrow> \<forall>p\<in>set (made pc). released p
    | Inr (c, pc) \<Rightarrow> map fst (pools pc) = addrs \<and> length (made pc) = length addrs \<and>
        (\<forall>a\<in>set addrs. \<exists>p. callerPool a pc = Inr p \<and> p \<in> set (made pc)) \<and> (\<forall>p\<in>set (made (callerClose pc)). released p)"
proof -
  let ?opts = "defaultPoolOptions minSize maxSize" and ?pc = "\<lparr>pools = [], made = []\<rparr>"
  have i: "callerInv ?pc" "distinct (map fst (pools ?pc) @ addrs)" using assms by (simp_all add: callerInv_def)
  note out = addPools_outcome [OF i, of ?opts answers clock]
  show ?thesis
  proof (cases "newPooledCaller addrs ?opts answers clock")
    case (Inl x)
    then show ?thesis using out by (auto simp: NewPooledClient_def newPooledCaller_def split: prod.splits)
  next
    case (Inr pc)
    then have pc: "callerInv pc" "map fst (pools pc) = addrs" using out by (simp_all add: newPooledCaller_def)
    then have dist: "distinct (map fst (pools pc))" using assms by simp
    have own: "\<exists>p. callerPool a pc = Inr p \<and> p \<in> set (made pc)" if a: "a \<in> set addrs" for a
    proof -
      from a obtain k where k: "(a, k) \<in> set (pools pc)" using pc(2) by force
      then have "k \<in> set (map snd (pools pc))" by force
      then have "k < length (made pc)" using pc(1) unfolding callerInv_def by (metis atLeastLessThan_iff set_upt)
      then show ?thesis using k dist by (simp add: callerPool_def)
    qed
    have "length (pools pc) = length (made pc)" using pc(1) unfolding callerInv_def by (metis diff_zero length_map length_upt)
    then have "length (made pc) = length addrs" using pc(2) by (metis length_map)
    then show ?thesis using Inr pc own callerClose_released [OF pc(1)] by (simp add: NewPooledClient_def)
  qed
qed

text \<open>
  With an address given twice the second pool takes the place of the first in the map, and no \<open>Close\<close> reaches the first.
\<close>

lemma repeated_address_leaks:
  "\<exists>c pc. NewPooledClient [''a'', ''a''] 1 2 7 (\<lambda>_ _. True) (\<lambda>_. 0) = Inr (c, pc) \<and> length (made pc) = 2 \<and>
     \<not> released (made (callerClose pc) ! 0) \<and> released (made (callerClose pc) ! 1)"
  by (simp add: NewPooledClient_def newPooledCaller_def defaultPoolOptions_def NewPool_def dialed_def Let_def
      callerClose_def closePool_def drainFree_def released_def nth_enumerate_eq)

end
