(* ===== verification/Shard_Config.thy ===== *)
theory Shard_Config
  imports Replicated_Machine "HOL-Library.AList"
begin

text \<open>
  Shards and configurations (\<open>src/05-sharded-kv/shard.go\<close>, \<open>config.go\<close>): the hash that assigns a
  key to a shard, and the pure functions \<open>NewStaticConfig\<close>, \<open>Join\<close>, \<open>Leave\<close>, \<open>Move\<close> and
  \<open>rebalance\<close> on configurations. A Go map is an association list with distinct keys, in the order in
  which an iteration happens to visit it; results that must not depend on that order are proved not
  to. The loops of \<open>rebalance\<close> are folds over the same lists in the same order as in the code, with
  the slice expressions that could be out of range kept as such.
\<close>

section \<open>Shards\<close>

definition NShards :: nat where
  "NShards = 10"

definition fnv1a :: "8 word list \<Rightarrow> 32 word" where
  "fnv1a bs = fold (\<lambda>b h. (xor h (ucast b)) * 16777619) bs 2166136261"

definition Key2Shard :: "string \<Rightarrow> nat" where
  "Key2Shard key = unat (fnv1a (map of_char key)) mod NShards"

lemma Key2Shard_bound: "Key2Shard key < NShards"
  by (simp add: Key2Shard_def NShards_def)

section \<open>Configurations\<close>

type_synonym goGroups = "(int \<times> string list) list"

record Config =
  Num :: int
  Shards :: "int list"
  Groups :: goGroups

definition zeroConfig :: Config where
  "zeroConfig = \<lparr>Num = 0, Shards = replicate NShards 0, Groups = []\<rparr>"

definition sortedGids :: "goGroups \<Rightarrow> int list" where
  "sortedGids groups = sort (map fst groups)"

definition NewStaticConfig :: "goGroups \<Rightarrow> Config" where
  "NewStaticConfig groups =
     (let gids = sortedGids groups;
          cfg = \<lparr>Num = 1, Shards = replicate NShards 0, Groups = groups\<rparr>
      in if gids = [] then cfg
         else cfg\<lparr>Shards := map (\<lambda>s. gids ! (s mod length gids)) [0..<NShards]\<rparr>)"

section \<open>Rebalancing\<close>

definition targetOf :: "int list \<Rightarrow> int \<rightharpoonup> nat" where
  "targetOf gids =
     (let target = NShards div length gids; remainder = NShards mod length gids
      in map_of (zip gids (map (\<lambda>i. if i < remainder then target + 1 else target) [0..<length gids])))"

definition wantOf :: "int list \<Rightarrow> int \<Rightarrow> nat" where
  "wantOf gids g = (case targetOf gids g of None \<Rightarrow> 0 | Some t \<Rightarrow> t)"

type_synonym owners = "(int \<Rightarrow> nat list) \<times> nat list"

definition splitStep :: "int list \<Rightarrow> nat \<times> int \<Rightarrow> owners \<Rightarrow> owners" where
  "splitStep gids x = (\<lambda>(owned, orphans). case x of (s, gid) \<Rightarrow>
     if gid \<in> set gids then (owned(gid := owned gid @ [s]), orphans)
     else (owned, orphans @ [s]))"

definition trimStep :: "int list \<Rightarrow> int \<Rightarrow> owners \<Rightarrow> owners" where
  "trimStep gids gid = (\<lambda>(owned, orphans).
     let cur = owned gid; want = wantOf gids gid
     in if length cur > want then (owned(gid := take want cur), orphans @ drop want cur)
        else (owned, orphans))"

definition fillStep :: "int list \<Rightarrow> int \<Rightarrow> owners \<Rightarrow> owners res" where
  "fillStep gids gid = (\<lambda>(owned, orphans).
     let need = int (wantOf gids gid) - int (length (owned gid))
     in if need \<le> 0 then Inr (owned, orphans)
        else bind_res (slice_to orphans need) (\<lambda>tk.
             bind_res (slice_from orphans need) (\<lambda>rest.
               Inr (owned(gid := owned gid @ tk), rest))))"

definition assignShards :: "int list \<Rightarrow> (int \<Rightarrow> nat list) \<Rightarrow> int list \<Rightarrow> int list" where
  "assignShards gids owned result =
     fold (\<lambda>gid r. fold (\<lambda>s r'. r'[s := gid]) (owned gid) r) gids result"

definition rebalance :: "int list \<Rightarrow> goGroups \<Rightarrow> int list res" where
  "rebalance shards liveGroups =
     (let gids = sortedGids liveGroups
      in if gids = [] then Inr (replicate NShards 0)
         else let start = fold (splitStep gids) (zip [0..<NShards] shards) (\<lambda>_. [], []);
                  trimmed = fold (trimStep gids) gids start
              in bind_res (run_log (fillStep gids) gids (fst trimmed, sort (snd trimmed)))
                   (\<lambda>(owned, _). Inr (assignShards gids owned (replicate NShards 0))))"

definition Join :: "Config \<Rightarrow> goGroups \<Rightarrow> Config res" where
  "Join cfg newGroups =
     (let groups = fold (\<lambda>(gid, addrs) m. AList.update gid addrs m) newGroups (Groups cfg)
      in bind_res (rebalance (Shards cfg) groups) (\<lambda>sh.
           Inr \<lparr>Num = Num cfg + 1, Shards = sh, Groups = groups\<rparr>))"

definition Leave :: "Config \<Rightarrow> int list \<Rightarrow> Config res" where
  "Leave cfg gids =
     (let groups = fold AList.delete gids (Groups cfg)
      in bind_res (rebalance (Shards cfg) groups) (\<lambda>sh.
           Inr \<lparr>Num = Num cfg + 1, Shards = sh, Groups = groups\<rparr>))"

definition Move :: "Config \<Rightarrow> int \<Rightarrow> int \<Rightarrow> Config res" where
  "Move cfg shard gid =
     (if 0 \<le> shard \<and> shard < int (length (Shards cfg))
      then Inr \<lparr>Num = Num cfg + 1, Shards = (Shards cfg)[nat shard := gid], Groups = Groups cfg\<rparr>
      else Inl (Panic ''index out of range''))"

definition Validate :: "Config \<Rightarrow> bool" where
  "Validate c \<longleftrightarrow>
     Groups c \<noteq> [] \<and>
     (\<forall>gid \<in> set (Shards c). case map_of (Groups c) gid of None \<Rightarrow> False | Some addrs \<Rightarrow> addrs \<noteq> [])"

section \<open>Targets\<close>

lemma sortedGids_simps [simp]:
  "set (sortedGids gs) = fst ` set gs" "length (sortedGids gs) = length gs"
  "sortedGids gs = [] \<longleftrightarrow> gs = []"
  by (auto simp: sortedGids_def dest: arg_cong [of _ _ length])

lemma distinct_sortedGids [simp]: "distinct (sortedGids gs) = distinct (map fst gs)"
  by (simp add: sortedGids_def)

lemma wantOf_nth:
  assumes "distinct gids" "i < length gids"
  shows "wantOf gids (gids ! i) = (if i < NShards mod length gids then NShards div length gids + 1
                                   else NShards div length gids)"
proof -
  let ?ts = "map (\<lambda>i. if i < NShards mod length gids then NShards div length gids + 1
                     else NShards div length gids) [0..<length gids]"
  have "map_of (zip gids ?ts) (gids ! i) = Some (?ts ! i)"
    by (rule map_of_zip_nth) (use assms in auto)
  then show ?thesis using assms(2) by (simp add: wantOf_def targetOf_def Let_def)
qed

lemma wantOf_cases:
  assumes "distinct gids" "g \<in> set gids"
  shows "wantOf gids g = NShards div length gids \<or> wantOf gids g = NShards div length gids + 1"
  using assms wantOf_nth by (auto simp: in_set_conv_nth)

lemma sum_wantOf:
  assumes "distinct gids" "gids \<noteq> []"
  shows "(\<Sum>g\<leftarrow>gids. wantOf gids g) = NShards"
proof -
  let ?n = "length gids" and ?q = "NShards div length gids" and ?r = "NShards mod length gids"
  have "map (wantOf gids) gids = map (\<lambda>i. if i < ?r then ?q + 1 else ?q) [0..<?n]"
    using wantOf_nth [OF assms(1)] by (intro nth_equalityI) auto
  then have "(\<Sum>g\<leftarrow>gids. wantOf gids g) = (\<Sum>i = 0..<?n. (if i < ?r then 1 else 0) + ?q)"
    by (auto simp: interv_sum_list_conv_sum_set_nat intro: sum.cong)
  also have "\<dots> = card {i \<in> {0..<?n}. i < ?r} + ?n * ?q"
    by (simp add: sum.distrib sum.If_cases Int_def)
  also have "{i \<in> {0..<?n}. i < ?r} = {0..<?r}"
    using assms(2) mod_less_divisor [of ?n NShards] by (auto intro: less_trans)
  also have "card {0..<?r} + ?n * ?q = NShards" by simp
  finally show ?thesis .
qed

section \<open>The loops of rebalance\<close>

lemma split_fold:
  "fold (splitStep gids) ps (ow, orph) =
     (\<lambda>g. ow g @ (if g \<in> set gids then map fst (filter (\<lambda>p. snd p = g) ps) else []),
      orph @ map fst (filter (\<lambda>p. snd p \<notin> set gids) ps))"
proof (induction ps arbitrary: ow orph)
  case (Cons p ps)
  then show ?case by (cases p) (auto simp: splitStep_def fun_eq_iff)
qed auto

lemma trim_fold:
  assumes "distinct gs"
  shows "fold (trimStep gids) gs (ow, orph) =
     (\<lambda>g. if g \<in> set gs then take (wantOf gids g) (ow g) else ow g,
      orph @ concat (map (\<lambda>g. drop (wantOf gids g) (ow g)) gs))"
  using assms
proof (induction gs arbitrary: ow orph)
  case (Cons a gs)
  let ?ow = "ow(a := take (wantOf gids a) (ow a))"
  have step: "trimStep gids a (ow, orph) = (?ow, orph @ drop (wantOf gids a) (ow a))"
    by (auto simp: trimStep_def Let_def fun_eq_iff)
  have same: "map (\<lambda>g. drop (wantOf gids g) (?ow g)) gs = map (\<lambda>g. drop (wantOf gids g) (ow g)) gs"
    using Cons.prems by auto
  have "fold (trimStep gids) gs (?ow, orph @ drop (wantOf gids a) (ow a)) =
     (\<lambda>g. if g \<in> set gs then take (wantOf gids g) (?ow g) else ?ow g,
      (orph @ drop (wantOf gids a) (ow a)) @ concat (map (\<lambda>g. drop (wantOf gids g) (?ow g)) gs))"
    by (rule Cons.IH) (use Cons.prems in simp)
  then show ?case unfolding same using step Cons.prems by (auto simp: fun_eq_iff)
qed auto

lemma fillStep_eq:
  assumes "length (ow a) + k = wantOf gids a" "k \<le> length orph"
  shows "fillStep gids a (ow, orph) = Inr (ow(a := ow a @ take k orph), drop k orph)"
proof -
  have need: "int (wantOf gids a) - int (length (ow a)) = int k" using assms(1) by simp
  have "slice_to orph (int k) = Inr (take k orph)" "slice_from orph (int k) = Inr (drop k orph)"
    using assms(2) by (simp_all add: slice_to_def slice_from_def)
  then show ?thesis
    unfolding fillStep_def Let_def prod.case need by (cases k) (simp_all add: fun_upd_idem)
qed

lemma fill_run:
  assumes "distinct gs" "\<And>g. g \<in> set gs \<Longrightarrow> length (ow g) \<le> wantOf gids g"
    "length orph = (\<Sum>g\<leftarrow>gs. wantOf gids g - length (ow g))"
  shows "\<exists>ow'. run_log (fillStep gids) gs (ow, orph) = Inr (ow', []) \<and>
     (\<forall>g\<in>set gs. length (ow' g) = wantOf gids g \<and> set (ow g) \<subseteq> set (ow' g)) \<and>
     (\<forall>g. g \<notin> set gs \<longrightarrow> ow' g = ow g) \<and>
     mset (concat (map ow' gs)) = mset (concat (map ow gs)) + mset orph"
  using assms
proof (induction gs arbitrary: ow orph)
  case (Cons a gs)
  let ?k = "wantOf gids a - length (ow a)"
  let ?ow = "ow(a := ow a @ take ?k orph)" and ?orph = "drop ?k orph"
  have a: "a \<notin> set gs" "length (ow a) \<le> wantOf gids a" "?k \<le> length orph"
    using Cons.prems by auto
  have step: "fillStep gids a (ow, orph) = Inr (?ow, ?orph)"
    by (rule fillStep_eq) (use a in auto)
  have same: "map (\<lambda>g. wantOf gids g - length (?ow g)) gs = map (\<lambda>g. wantOf gids g - length (ow g)) gs"
    "map ?ow gs = map ow gs"
    using a(1) by auto
  have "\<exists>ow'. run_log (fillStep gids) gs (?ow, ?orph) = Inr (ow', []) \<and>
     (\<forall>g\<in>set gs. length (ow' g) = wantOf gids g \<and> set (?ow g) \<subseteq> set (ow' g)) \<and>
     (\<forall>g. g \<notin> set gs \<longrightarrow> ow' g = ?ow g) \<and>
     mset (concat (map ow' gs)) = mset (concat (map ?ow gs)) + mset ?orph"
  proof (rule Cons.IH)
    show "length ?orph = (\<Sum>g\<leftarrow>gs. wantOf gids g - length (?ow g))"
      unfolding same(1) using Cons.prems(3) by simp
  qed (use Cons.prems a(1) in auto)
  then obtain ow' where ow': "run_log (fillStep gids) gs (?ow, ?orph) = Inr (ow', [])"
      "\<forall>g\<in>set gs. length (ow' g) = wantOf gids g \<and> set (?ow g) \<subseteq> set (ow' g)"
      "\<forall>g. g \<notin> set gs \<longrightarrow> ow' g = ?ow g"
      "mset (concat (map ow' gs)) = mset (concat (map ow gs)) + mset ?orph"
    unfolding same(2) by blast
  have "ow' a = ow a @ take ?k orph" using ow'(3) a(1) by simp
  moreover have "mset (take ?k orph) + mset ?orph = mset orph"
    by (metis append_take_drop_id mset_append)
  moreover have "length (ow' g) = wantOf gids g \<and> set (ow g) \<subseteq> set (ow' g)" if "g \<in> set gs" for g
    using bspec [OF ow'(2) that] that a(1) by (auto split: if_splits)
  ultimately show ?case
    using ow'(1,3,4) step a by (intro exI [of _ ow']) (simp add: union_ac)
qed simp

lemma assign_inner:
  "s < length r \<Longrightarrow> fold (\<lambda>s r'. r'[s := g]) ss r ! s = (if s \<in> set ss then g else r ! s)"
  "length (fold (\<lambda>s r'. r'[s := g]) ss r) = length r"
  by (induction ss arbitrary: r) (auto simp: nth_list_update)

lemma length_assignShards [simp]: "length (assignShards gs ow r) = length r"
  unfolding assignShards_def
  by (induction gs arbitrary: r) (simp_all add: assign_inner(2))

lemma assignShards_nth:
  assumes "s < length r" "\<And>g'. g' \<in> set gs \<Longrightarrow> s \<in> set (ow g') \<Longrightarrow> g' = g"
  shows "assignShards gs ow r ! s = (if g \<in> set gs \<and> s \<in> set (ow g) then g else r ! s)"
  using assms
proof (induction gs arbitrary: r)
  case (Cons a gs)
  have "assignShards (a # gs) ow r = assignShards gs ow (fold (\<lambda>s r'. r'[s := a]) (ow a) r)"
    by (simp add: assignShards_def)
  with Cons show ?case by (auto simp: assign_inner)
qed (simp add: assignShards_def)

section \<open>What rebalance computes\<close>

definition shardsOf :: "int list \<Rightarrow> int \<Rightarrow> nat list" where
  "shardsOf shards g = filter (\<lambda>s. shards ! s = g) [0..<NShards]"

lemma zip_index: "length xs = n \<Longrightarrow> zip [0..<n] xs = map (\<lambda>s. (s, xs ! s)) [0..<n]"
  by (intro nth_equalityI) auto

lemma concat_unique:
  assumes "distinct (concat (map f gs))" "distinct gs" "g \<in> set gs" "g' \<in> set gs"
    "x \<in> set (f g)" "x \<in> set (f g')"
  shows "g = g'"
  using assms by (induction gs) auto

lemma mset_concat_sum: "mset (concat (map f gs)) = (\<Sum>g\<leftarrow>gs. mset (f g))"
  by (induction gs) auto

lemma add4: "(a + b) + (c + d) = (a + c) + (b + (d :: 'a multiset))"
  by (simp add: ac_simps)

lemma add3: "a + (b + c) = (a + c) + (b :: 'a multiset)"
  by (simp add: ac_simps)

lemma split_all:
  assumes "distinct gs"
  shows "(\<Sum>g\<leftarrow>gs. mset (filter (\<lambda>s. shards ! s = g) xs)) + mset (filter (\<lambda>s. shards ! s \<notin> set gs) xs) = mset xs"
proof -
  have one: "(\<Sum>g\<leftarrow>gs. mset (filter (\<lambda>s. shards ! s = g) [x])) +
      mset (filter (\<lambda>s. shards ! s \<notin> set gs) [x]) = {#x#}" for x
    using assms by (induction gs) auto
  show ?thesis
  proof (induction xs)
    case (Cons x xs)
    have A: "(\<Sum>g\<leftarrow>gs. mset (filter (\<lambda>s. shards ! s = g) (x # xs))) =
        (\<Sum>g\<leftarrow>gs. mset (filter (\<lambda>s. shards ! s = g) [x])) + (\<Sum>g\<leftarrow>gs. mset (filter (\<lambda>s. shards ! s = g) xs))"
      unfolding sum_list_addf [symmetric] by (intro arg_cong [of _ _ sum_list] map_cong) auto
    have B: "mset (filter (\<lambda>s. shards ! s \<notin> set gs) (x # xs)) =
        mset (filter (\<lambda>s. shards ! s \<notin> set gs) [x]) + mset (filter (\<lambda>s. shards ! s \<notin> set gs) xs)" by simp
    show ?case unfolding A B by (rule trans [OF add4]) (simp only: one Cons.IH, simp)
  qed simp
qed

lemma rebalance_run:
  assumes "length shards = NShards" "groups \<noteq> []" "distinct (map fst groups)"
  obtains ow where
    "rebalance shards groups = Inr (assignShards (sortedGids groups) ow (replicate NShards 0))"
    "\<forall>g \<in> fst ` set groups. length (ow g) = wantOf (sortedGids groups) g"
    "\<forall>g \<in> fst ` set groups.
       set (take (wantOf (sortedGids groups) g) (shardsOf shards g)) \<subseteq> set (ow g)"
    "mset (concat (map ow (sortedGids groups))) = mset [0..<NShards]"
proof -
  let ?gids = "sortedGids groups"
  let ?T = "wantOf ?gids" and ?cur = "shardsOf shards"
  have d: "distinct ?gids" "?gids \<noteq> []" using assms by auto
  let ?ow1 = "\<lambda>g. if g \<in> set ?gids then take (?T g) (?cur g) else []"
  let ?orph = "filter (\<lambda>s. shards ! s \<notin> set ?gids) [0..<NShards] @ concat (map (\<lambda>g. drop (?T g) (?cur g)) ?gids)"
  have spl: "fold (splitStep ?gids) (zip [0..<NShards] shards) (\<lambda>_. [], []) =
      (\<lambda>g. if g \<in> set ?gids then ?cur g else [], filter (\<lambda>s. shards ! s \<notin> set ?gids) [0..<NShards])"
    unfolding split_fold zip_index [OF assms(1)] shardsOf_def
    by (auto simp: fun_eq_iff filter_map comp_def)
  have same: "map (\<lambda>g. drop (?T g) (if g \<in> set ?gids then ?cur g else [])) ?gids = map (\<lambda>g. drop (?T g) (?cur g)) ?gids"
    by (rule map_cong) auto
  have trimmed: "fold (trimStep ?gids) ?gids
      (fold (splitStep ?gids) (zip [0..<NShards] shards) (\<lambda>_. [], [])) = (?ow1, ?orph)"
    unfolding spl trim_fold [OF d(1)] same by (rule prod_eqI) (simp_all add: fun_eq_iff)
  have map1: "map ?ow1 ?gids = map (\<lambda>g. take (?T g) (?cur g)) ?gids" by (rule map_cong) auto
  have parts: "mset (concat (map ?ow1 ?gids)) + mset ?orph = mset [0..<NShards]"
  proof -
    have td: "(\<Sum>g\<leftarrow>?gids. mset (take (?T g) (?cur g))) + (\<Sum>g\<leftarrow>?gids. mset (drop (?T g) (?cur g))) =
        (\<Sum>g\<leftarrow>?gids. mset (?cur g))"
      unfolding sum_list_addf [symmetric] mset_append [symmetric] append_take_drop_id ..
    show ?thesis
      unfolding map1 unfolding mset_append mset_concat_sum add3 td
      unfolding shardsOf_def split_all [OF d(1)] ..
  qed
  have len: "length ?orph = (\<Sum>g\<leftarrow>?gids. ?T g - length (?ow1 g))"
  proof -
    have "length (concat (map ?ow1 ?gids)) + length ?orph = NShards"
      using arg_cong [OF parts, of size] by (simp only: size_union size_mset length_upt diff_zero)
    moreover have "length (concat (map ?ow1 ?gids)) + (\<Sum>g\<leftarrow>?gids. ?T g - length (?ow1 g)) = (\<Sum>g\<leftarrow>?gids. ?T g)"
      unfolding length_concat map_map comp_def sum_list_addf [symmetric]
      by (intro arg_cong [of _ _ sum_list] map_cong) auto
    ultimately show ?thesis using sum_wantOf [OF d] by linarith
  qed
  obtain ow where ow: "run_log (fillStep ?gids) ?gids (?ow1, sort ?orph) = Inr (ow, [])"
      "\<forall>g\<in>set ?gids. length (ow g) = ?T g \<and> set (?ow1 g) \<subseteq> set (ow g)"
      "mset (concat (map ow ?gids)) = mset (concat (map ?ow1 ?gids)) + mset (sort ?orph)"
    using fill_run [OF d(1), of ?ow1 ?gids "sort ?orph"] len by auto
  show ?thesis
  proof (rule that [of ow])
    show "rebalance shards groups = Inr (assignShards ?gids ow (replicate NShards 0))"
      using ow(1) trimmed assms(2) by (simp add: rebalance_def Let_def)
    show "mset (concat (map ow ?gids)) = mset [0..<NShards]" using ow(3) parts by simp
  qed (use ow(2) in auto)
qed

definition countOf :: "int list \<Rightarrow> int \<Rightarrow> nat" where
  "countOf shards g = length (shardsOf shards g)"

definition rebalanced :: "int list \<Rightarrow> goGroups \<Rightarrow> int list \<Rightarrow> bool" where
  "rebalanced shards groups sh \<longleftrightarrow> length sh = NShards \<and>
     (\<forall>s<NShards. sh ! s \<in> fst ` set groups) \<and>
     (\<forall>g\<in>fst ` set groups. countOf sh g = wantOf (sortedGids groups) g) \<and>
     (\<forall>s<NShards. shards ! s \<in> fst ` set groups \<longrightarrow>
        s \<in> set (take (wantOf (sortedGids groups) (shards ! s)) (shardsOf shards (shards ! s))) \<longrightarrow>
        sh ! s = shards ! s)"

lemma rebalancedD:
  assumes "rebalanced shards groups sh"
  shows "length sh = NShards" "\<And>s. s < NShards \<Longrightarrow> sh ! s \<in> fst ` set groups"
    "\<And>g. g \<in> fst ` set groups \<Longrightarrow> countOf sh g = wantOf (sortedGids groups) g"
    "\<And>s. s < NShards \<Longrightarrow> shards ! s \<in> fst ` set groups \<Longrightarrow>
       s \<in> set (take (wantOf (sortedGids groups) (shards ! s)) (shardsOf shards (shards ! s))) \<Longrightarrow>
       sh ! s = shards ! s"
  using assms unfolding rebalanced_def by blast+

lemma rebalance_shape:
  assumes "length shards = NShards" "groups \<noteq> []" "distinct (map fst groups)"
  obtains sh where "rebalance shards groups = Inr sh" "rebalanced shards groups sh"
proof -
  let ?gids = "sortedGids groups"
  obtain ow where ow: "rebalance shards groups = Inr (assignShards ?gids ow (replicate NShards 0))"
    "\<forall>g \<in> fst ` set groups. length (ow g) = wantOf ?gids g"
    "\<forall>g \<in> fst ` set groups. set (take (wantOf ?gids g) (shardsOf shards g)) \<subseteq> set (ow g)"
    "mset (concat (map ow ?gids)) = mset [0..<NShards]"
    using rebalance_run [OF assms] .
  let ?sh = "assignShards ?gids ow (replicate NShards 0)"
  have dist: "distinct (concat (map ow ?gids))" using ow(4) mset_eq_imp_distinct_iff by fastforce
  have "set_mset (mset (concat (map ow ?gids))) = set_mset (mset [0..<NShards])" using ow(4) by simp
  then have cover: "(\<Union>g \<in> fst ` set groups. set (ow g)) = {0..<NShards}"
    by (simp only: set_mset_mset set_concat set_map sortedGids_simps set_upt image_image)
  have owner: "?sh ! s = g" if "g \<in> fst ` set groups" "s \<in> set (ow g)" for s g
  proof -
    have "s \<in> {0..<NShards}" using that cover by blast
    then have len: "s < length (replicate NShards (0::int))" by simp
    have uniq: "g' = g" if "g' \<in> set ?gids" "s \<in> set (ow g')" for g'
      using concat_unique [OF dist, of g' g s] that \<open>g \<in> fst ` set groups\<close> \<open>s \<in> set (ow g)\<close> assms(3) by simp
    have "?sh ! s = (if g \<in> set ?gids \<and> s \<in> set (ow g) then g else replicate NShards 0 ! s)"
      using len uniq by (rule assignShards_nth)
    then show ?thesis using that by simp
  qed
  have has: "\<exists>g\<in>fst ` set groups. s \<in> set (ow g)" if "s < NShards" for s
  proof -
    have "s \<in> {0..<NShards}" using that by simp
    then show ?thesis using cover by blast
  qed
  have "set (shardsOf ?sh g) = set (ow g)" if "g \<in> fst ` set groups" for g
  proof -
    have "s \<in> set (ow g)" if s: "s < NShards" "?sh ! s = g" for s
    proof -
      obtain g' where "g' \<in> fst ` set groups" "s \<in> set (ow g')" using has [OF s(1)] by blast
      then show ?thesis using owner [of g' s] s(2) by simp
    qed
    moreover have "set (ow g) \<subseteq> {0..<NShards}" using that cover by blast
    moreover have "?sh ! s = g" if "s \<in> set (ow g)" for s
      using owner [OF \<open>g \<in> fst ` set groups\<close> that] .
    ultimately show ?thesis by (auto simp: shardsOf_def)
  qed
  moreover have "distinct (ow g)" if "g \<in> fst ` set groups" for g
    using dist that by (auto simp: distinct_concat_iff)
  ultimately have "countOf ?sh g = length (ow g)" if "g \<in> fst ` set groups" for g
    using that unfolding countOf_def shardsOf_def by (metis distinct_card distinct_filter distinct_upt)
  then have count: "countOf ?sh g = wantOf ?gids g" if "g \<in> fst ` set groups" for g
    using that ow(2) by simp
  have stay: "?sh ! s = shards ! s" if "shards ! s \<in> fst ` set groups"
      "s \<in> set (take (wantOf ?gids (shards ! s)) (shardsOf shards (shards ! s)))" for s
    using owner [OF that(1)] that(2) subsetD [OF bspec [OF ow(3) that(1)]] by blast
  have "?sh ! s \<in> fst ` set groups" if s: "s < NShards" for s
  proof -
    obtain g where "g \<in> fst ` set groups" "s \<in> set (ow g)" using has [OF s] by blast
    then show ?thesis using owner [of g s] by simp
  qed
  then have "rebalanced shards groups ?sh"
    using count stay unfolding rebalanced_def by simp
  with ow(1) show ?thesis by (rule that)
qed

text \<open>
  (C20) \<open>rebalance\<close> never fails, gives every shard to a live group, and is balanced: with \<open>n\<close> live
  groups each of them ends up with \<open>NShards div n\<close> or one more shard; and the result does not depend
  on the order in which the map of groups is iterated.
\<close>

theorem rebalance_balanced:
  assumes "length shards = NShards" "groups \<noteq> []" "distinct (map fst groups)"
  shows "\<exists>sh. rebalance shards groups = Inr sh \<and> length sh = NShards \<and>
     (\<forall>s<NShards. sh ! s \<in> fst ` set groups) \<and>
     (\<forall>g\<in>fst ` set groups. countOf sh g = NShards div length groups \<or>
                            countOf sh g = NShards div length groups + 1) \<and>
     (\<forall>groups'. mset groups' = mset groups \<longrightarrow> rebalance shards groups' = Inr sh)"
proof -
  obtain sh where run: "rebalance shards groups = Inr sh" and ok: "rebalanced shards groups sh"
    using rebalance_shape [OF assms] .
  note sh = run rebalancedD [OF ok]
  have "rebalance shards groups' = rebalance shards groups" if "mset groups' = mset groups" for groups'
  proof -
    have "mset (map fst groups') = mset (map fst groups)" using that by simp
    then have "sortedGids groups' = sortedGids groups"
      unfolding sortedGids_def by (intro properties_for_sort) simp_all
    then show ?thesis by (simp add: rebalance_def)
  qed
  moreover have "\<forall>g\<in>fst ` set groups. countOf sh g = NShards div length groups \<or>
      countOf sh g = NShards div length groups + 1"
    using sh(4) wantOf_cases [of "sortedGids groups"] assms(3) by auto
  ultimately show ?thesis using sh(1-3) by auto
qed

definition exGroups :: goGroups where
  "exGroups = [(3, [''c'']), (1, [''a'']), (2, [''b''])]"

theorem rebalance_balanced_witness:
  "\<exists>sh. rebalance (replicate NShards 0) exGroups = Inr sh \<and>
     rebalance (replicate NShards 0) (rev exGroups) = Inr sh \<and> countOf sh 2 \<in> {3, 4}"
proof -
  have "mset (rev exGroups) = mset exGroups" by simp
  then show ?thesis
    using rebalance_balanced [of "replicate NShards 0" exGroups]
    by (auto simp: exGroups_def NShards_def)
qed

section \<open>How many shards move\<close>

definition moved :: "int list \<Rightarrow> int list \<Rightarrow> nat" where
  "moved old new = length (filter (\<lambda>s. new ! s \<noteq> old ! s) [0..<NShards])"

definition kept :: "int list \<Rightarrow> int list \<Rightarrow> int \<Rightarrow> nat set" where
  "kept old new g = {s. s < NShards \<and> new ! s = g \<and> old ! s = g}"

lemma moved_kept:
  assumes "finite G" "\<And>s. s < NShards \<Longrightarrow> new ! s \<in> G"
  shows "moved old new + (\<Sum>g\<in>G. card (kept old new g)) = NShards"
proof -
  have "(\<Sum>g\<in>G. card (kept old new g)) = card (\<Union>g\<in>G. kept old new g)"
    by (rule card_UN_disjoint [symmetric]) (auto simp: kept_def assms(1))
  also have "(\<Union>g\<in>G. kept old new g) = set (filter (\<lambda>s. new ! s = old ! s) [0..<NShards])"
    by (auto simp: kept_def) (metis assms(2))
  also have "card \<dots> = length (filter (\<lambda>s. new ! s = old ! s) [0..<NShards])"
    by (rule distinct_card) simp
  finally show ?thesis
    unfolding moved_def using sum_length_filter_compl [of "\<lambda>s. new ! s \<noteq> old ! s" "[0..<NShards]"] by simp
qed

lemma card_shardsOf: "card {s. s < NShards \<and> sh ! s = g} = countOf sh g"
  unfolding countOf_def shardsOf_def by (subst distinct_card [symmetric]) auto

text \<open>
  (C21) \<open>rebalance\<close> moves as few shards as its targets allow: any other assignment of the shards to the
  live groups that gives every group the same number of shards moves at least as many of them.
\<close>

theorem rebalance_moves_least:
  assumes "length shards = NShards" "groups \<noteq> []" "distinct (map fst groups)"
    and "rebalance shards groups = Inr sh"
    and "\<And>s. s < NShards \<Longrightarrow> other ! s \<in> fst ` set groups"
    and "\<And>g. g \<in> fst ` set groups \<Longrightarrow> countOf other g = countOf sh g"
  shows "moved shards sh \<le> moved shards other"
proof -
  let ?G = "fst ` set groups" and ?T = "wantOf (sortedGids groups)"
  have "rebalanced shards groups sh" using rebalance_shape [OF assms(1-3)] assms(4) by auto
  note sh = rebalancedD(2-4) [OF this]
  have "card (kept shards other g) \<le> card (kept shards sh g)" if g: "g \<in> ?G" for g
  proof -
    have "kept shards other g \<subseteq> {s. s < NShards \<and> other ! s = g}"
      "kept shards other g \<subseteq> {s. s < NShards \<and> shards ! s = g}" by (auto simp: kept_def)
    then have "card (kept shards other g) \<le> ?T g" "card (kept shards other g) \<le> countOf shards g"
      using card_mono [of "{s. s < NShards \<and> other ! s = g}" "kept shards other g"]
        card_mono [of "{s. s < NShards \<and> shards ! s = g}" "kept shards other g"]
        assms(6) [OF g] sh(2) [OF g] by (simp_all add: card_shardsOf)
    moreover have "card (set (take (?T g) (shardsOf shards g))) = min (?T g) (countOf shards g)"
      unfolding countOf_def by (subst distinct_card) (simp_all add: shardsOf_def)
    moreover have "set (take (?T g) (shardsOf shards g)) \<subseteq> kept shards sh g"
    proof
      fix s
      assume s: "s \<in> set (take (?T g) (shardsOf shards g))"
      then have "s < NShards" "shards ! s = g"
        by (auto dest!: in_set_takeD simp: shardsOf_def)
      with sh(3) [of s] s g show "s \<in> kept shards sh g" by (simp add: kept_def)
    qed
    then have "card (set (take (?T g) (shardsOf shards g))) \<le> card (kept shards sh g)"
      by (intro card_mono) (auto simp: kept_def)
    ultimately show ?thesis by simp
  qed
  then have "(\<Sum>g\<in>?G. card (kept shards other g)) \<le> (\<Sum>g\<in>?G. card (kept shards sh g))"
    by (rule sum_mono)
  then show ?thesis
    using moved_kept [of ?G sh shards] moved_kept [of ?G other shards] sh(1) assms(5) by fastforce
qed

definition exTwo :: "int list" where
  "exTwo = [2, 3, 2, 3, 2, 3, 2, 3, 2, 3]"

definition exBetter :: "int list" where
  "exBetter = [2, 3, 2, 3, 2, 3, 2, 1, 1, 1]"

definition exAfterJoin :: "int list" where
  "exAfterJoin = [2, 3, 2, 3, 2, 3, 1, 1, 1, 1]"

lemma exAfterJoin_run: "rebalance exTwo exGroups = Inr exAfterJoin"
  by code_simp

theorem rebalance_moves_least_witness:
  "rebalance exTwo exGroups = Inr exAfterJoin \<and> moved exTwo exAfterJoin \<le> moved exTwo [1, 1, 1, 1, 2, 2, 2, 3, 3, 3]"
proof -
  have "moved exTwo exAfterJoin \<le> moved exTwo [1, 1, 1, 1, 2, 2, 2, 3, 3, 3]"
  proof (rule rebalance_moves_least [OF _ _ _ exAfterJoin_run])
    show "length exTwo = NShards" by (simp add: exTwo_def NShards_def)
    show "exGroups \<noteq> []" "distinct (map fst exGroups)" by (simp_all add: exGroups_def)
    show "[1, 1, 1, 1, 2, 2, 2, 3, 3, 3] ! s \<in> fst ` set exGroups" if "s < NShards" for s
      using nth_mem [of s "[1, 1, 1, 1, 2, 2, 2, 3, 3, 3 :: int]"] that
      by (auto simp: NShards_def exGroups_def)
    have "\<forall>g \<in> set [1, 2, 3]. countOf [1, 1, 1, 1, 2, 2, 2, 3, 3, 3] g = countOf exAfterJoin g"
      by code_simp
    then show "countOf [1, 1, 1, 1, 2, 2, 2, 3, 3, 3] g = countOf exAfterJoin g"
      if "g \<in> fst ` set exGroups" for g
      using that by (auto simp: exGroups_def)
  qed
  with exAfterJoin_run show ?thesis by simp
qed

text \<open>
  The targets themselves are not the ones that move least: when a group with a small id joins
  two groups of five shards each, \<open>rebalance\<close> moves four shards, because the group first in the order
  must take the extra one, although the equally balanced split 3, 4, 3 needs only three moves.
\<close>

theorem rebalance_moves_more_than_needed:
  "rebalance exTwo exGroups = Inr exAfterJoin \<and> moved exTwo exAfterJoin = 4 \<and>
   moved exTwo exBetter = 3 \<and>
   countOf exBetter 1 = 3 \<and> countOf exBetter 2 = 4 \<and> countOf exBetter 3 = 3 \<and>
   countOf exAfterJoin 1 = 4 \<and> countOf exAfterJoin 2 = 3 \<and> countOf exAfterJoin 3 = 3"
proof -
  have "moved exTwo exAfterJoin = 4" "moved exTwo exBetter = 3"
    "countOf exBetter 1 = 3" "countOf exBetter 2 = 4" "countOf exBetter 3 = 3"
    "countOf exAfterJoin 1 = 4" "countOf exAfterJoin 2 = 3" "countOf exAfterJoin 3 = 3"
    by code_simp+
  then show ?thesis using exAfterJoin_run by simp
qed

section \<open>Configurations stay well-formed\<close>

definition config_wf :: "Config \<Rightarrow> bool" where
  "config_wf cfg \<longleftrightarrow> length (Shards cfg) = NShards \<and> distinct (map fst (Groups cfg)) \<and>
     (\<forall>s<NShards. Shards cfg ! s \<in> (if Groups cfg = [] then {0} else fst ` set (Groups cfg)))"

lemma config_wf_zero: "config_wf zeroConfig"
  by (simp add: config_wf_def zeroConfig_def)

lemma distinct_join_groups:
  "distinct (map fst gs) \<Longrightarrow> distinct (map fst (fold (\<lambda>(gid, addrs) m. AList.update gid addrs m) new gs))"
  by (induction new arbitrary: gs) (auto simp: distinct_update)

lemma map_of_join_groups:
  "map_of (fold (\<lambda>(gid, addrs) m. AList.update gid addrs m) new gs) = map_of gs ++ map_of (rev new)"
  by (induction new arbitrary: gs) (auto simp: update_conv' map_add_assoc [symmetric] split: prod.split)

lemma distinct_leave_groups:
  "distinct (map fst gs) \<Longrightarrow> distinct (map fst (fold AList.delete gids gs))"
  by (induction gids arbitrary: gs) (auto simp: distinct_delete)

lemma map_of_leave_groups: "map_of (fold AList.delete gids gs) = (map_of gs) |` (- set gids)"
  by (induction gids arbitrary: gs) (auto simp: delete_conv' fun_eq_iff restrict_map_def)

lemma rebalance_wf:
  assumes "length shards = NShards" "distinct (map fst groups)"
  obtains sh where "rebalance shards groups = Inr sh"
    "config_wf \<lparr>Num = n, Shards = sh, Groups = groups\<rparr>"
proof (cases "groups = []")
  case True
  then show ?thesis using that [of "replicate NShards 0"]
    by (simp add: rebalance_def sortedGids_def config_wf_def)
next
  case False
  obtain sh where "rebalance shards groups = Inr sh" "rebalanced shards groups sh"
    using rebalance_shape [OF assms(1) False assms(2)] .
  then show ?thesis using that [of sh] assms(2) False by (simp add: config_wf_def rebalanced_def)
qed

lemma Join_Inr:
  assumes "config_wf cfg"
  obtains cfg' where "Join cfg new = Inr cfg'" "config_wf cfg'" "Num cfg' = Num cfg + 1"
    "map_of (Groups cfg') = map_of (Groups cfg) ++ map_of (rev new)"
proof -
  let ?gs = "fold (\<lambda>(gid, addrs) m. AList.update gid addrs m) new (Groups cfg)"
  have pre: "length (Shards cfg) = NShards" "distinct (map fst ?gs)"
    using assms distinct_join_groups by (auto simp: config_wf_def)
  obtain sh where "rebalance (Shards cfg) ?gs = Inr sh" "config_wf \<lparr>Num = Num cfg + 1, Shards = sh, Groups = ?gs\<rparr>"
    using rebalance_wf [OF pre] .
  then show ?thesis by (intro that) (auto simp: Join_def map_of_join_groups Let_def)
qed

lemma Leave_Inr:
  assumes "config_wf cfg"
  obtains cfg' where "Leave cfg gids = Inr cfg'" "config_wf cfg'" "Num cfg' = Num cfg + 1"
    "map_of (Groups cfg') = (map_of (Groups cfg)) |` (- set gids)"
proof -
  let ?gs = "fold AList.delete gids (Groups cfg)"
  have pre: "length (Shards cfg) = NShards" "distinct (map fst ?gs)"
    using assms distinct_leave_groups by (auto simp: config_wf_def)
  obtain sh where "rebalance (Shards cfg) ?gs = Inr sh" "config_wf \<lparr>Num = Num cfg + 1, Shards = sh, Groups = ?gs\<rparr>"
    using rebalance_wf [OF pre] .
  then show ?thesis by (intro that) (auto simp: Leave_def map_of_leave_groups Let_def)
qed

lemma Validate_wf:
  assumes "config_wf cfg" "Groups cfg \<noteq> []" "\<forall>(gid, addrs) \<in> set (Groups cfg). addrs \<noteq> []"
  shows "Validate cfg"
proof -
  have "case map_of (Groups cfg) gid of None \<Rightarrow> False | Some addrs \<Rightarrow> addrs \<noteq> []"
    if gid: "gid \<in> set (Shards cfg)" for gid
  proof -
    obtain s where "s < NShards" "gid = Shards cfg ! s"
      using assms(1) gid unfolding config_wf_def by (metis in_set_conv_nth)
    then have "gid \<in> fst ` set (Groups cfg)" using assms(1,2) by (auto simp: config_wf_def)
    then obtain addrs where "map_of (Groups cfg) gid = Some addrs" by (metis map_of_eq_None_iff not_None_eq)
    then show ?thesis using assms(3) map_of_SomeD by fastforce
  qed
  then show ?thesis using assms(2) by (simp add: Validate_def)
qed

text \<open>
  Membership changes keep a configuration usable: from a well-formed configuration \<open>Join\<close> and
  \<open>Leave\<close> always produce the next version, well-formed again, with exactly the expected groups; and
  when every remaining group has an address and there is at least one, the result passes \<open>Validate\<close>.
\<close>

theorem membership_changes_routable:
  assumes "config_wf cfg"
  shows "\<exists>j l. Join cfg new = Inr j \<and> Leave cfg gids = Inr l \<and>
     Num j = Num cfg + 1 \<and> Num l = Num cfg + 1 \<and> config_wf j \<and> config_wf l \<and>
     map_of (Groups j) = map_of (Groups cfg) ++ map_of (rev new) \<and>
     map_of (Groups l) = (map_of (Groups cfg)) |` (- set gids) \<and>
     (\<forall>c \<in> {j, l}. Groups c \<noteq> [] \<and> (\<forall>(gid, addrs) \<in> set (Groups c). addrs \<noteq> []) \<longrightarrow> Validate c)"
proof -
  obtain j where j: "Join cfg new = Inr j" "config_wf j" "Num j = Num cfg + 1"
    "map_of (Groups j) = map_of (Groups cfg) ++ map_of (rev new)"
    using Join_Inr [OF assms] .
  obtain l where l: "Leave cfg gids = Inr l" "config_wf l" "Num l = Num cfg + 1"
    "map_of (Groups l) = (map_of (Groups cfg)) |` (- set gids)"
    using Leave_Inr [OF assms] .
  have "\<forall>c \<in> {j, l}. Groups c \<noteq> [] \<and> (\<forall>(gid, addrs) \<in> set (Groups c). addrs \<noteq> []) \<longrightarrow> Validate c"
    using Validate_wf j(2) l(2) by auto
  with j l show ?thesis by blast
qed

theorem membership_changes_routable_witness:
  "\<exists>j. Join zeroConfig exGroups = Inr j \<and> Num j = 1 \<and> map_of (Groups j) 2 = Some [''b'']"
proof -
  obtain j where "Join zeroConfig exGroups = Inr j" "Num j = Num zeroConfig + 1"
    "map_of (Groups j) = map_of (Groups zeroConfig) ++ map_of (rev exGroups)"
    using membership_changes_routable [OF config_wf_zero, of exGroups "[]"] by blast
  then show ?thesis by (simp add: zeroConfig_def exGroups_def)
qed

end
