(* ===== verification/Sharded_Client.thy ===== *)
theory Sharded_Client
  imports Pool_Client Shard_Config
begin

text \<open>
  The client of a fixed sharded configuration (\<open>src/05-sharded-kv/client.go\<close>): one pooled client of stage 3 per group, and each key
  goes to the client of the group that owns its shard. The map of groups is ranged over in an order that the run
  decides, the argument \<open>order\<close>. The outcomes of the dials and the random client ids are arguments, per group.
\<close>

record ShardedClient =
  scCfg :: Config
  scClients :: "(int \<times> poolClient \<times> pooledCaller) list"

datatype shardedError = BadConfig | DialingGroup int poolError

definition closeGroups :: "ShardedClient \<Rightarrow> ShardedClient" where
  "closeGroups sc = sc\<lparr>scClients := map (\<lambda>(gid, c, pc). (gid, c, callerClose pc)) (scClients sc)\<rparr>"

definition callers :: "ShardedClient \<Rightarrow> pooledCaller list" where
  "callers sc = map (\<lambda>(gid, c, pc). pc) (scClients sc)"

text \<open>With an error come the callers made until then, as it leaves them.\<close>

fun dialGroups ::
    "(int \<Rightarrow> int) \<Rightarrow> (int \<Rightarrow> nat \<Rightarrow> nat \<Rightarrow> bool) \<Rightarrow> (int \<Rightarrow> nat \<Rightarrow> int) \<Rightarrow> goGroups \<Rightarrow> ShardedClient \<Rightarrow>
     (shardedError \<times> pooledCaller list) + ShardedClient" where
  "dialGroups random answers clock [] sc = Inr sc"
| "dialGroups random answers clock ((gid, addrs) # gs) sc =
     (case NewPooledClient addrs 1 4 (random gid) (answers gid) (clock gid) of
        Inl (e, pc) \<Rightarrow> Inl (DialingGroup gid e, callers (closeGroups sc) @ [pc])
      | Inr x \<Rightarrow> dialGroups random answers clock gs (sc\<lparr>scClients := AList.update gid x (scClients sc)\<rparr>))"

definition NewShardedClient ::
    "(int \<Rightarrow> int) \<Rightarrow> (int \<Rightarrow> nat \<Rightarrow> nat \<Rightarrow> bool) \<Rightarrow> (int \<Rightarrow> nat \<Rightarrow> int) \<Rightarrow> goGroups \<Rightarrow> Config \<Rightarrow>
     (shardedError \<times> pooledCaller list) + ShardedClient" where
  "NewShardedClient random answers clock order cfg =
     (if \<not> Validate cfg then Inl (BadConfig, []) else dialGroups random answers clock order \<lparr>scCfg = cfg, scClients = []\<rparr>)"

text \<open>The client of the owner of a key; none is a nil pointer, and the call on it panics.\<close>

definition groupFor :: "string \<Rightarrow> ShardedClient \<Rightarrow> (poolClient \<times> pooledCaller) option" where
  "groupFor key sc = map_of (scClients sc) (Shards (scCfg sc) ! Key2Shard key)"

definition setGroup :: "string \<Rightarrow> poolClient \<Rightarrow> pooledCaller \<Rightarrow> ShardedClient \<Rightarrow> ShardedClient" where
  "setGroup key c pc sc = sc\<lparr>scClients := AList.update (Shards (scCfg sc) ! Key2Shard key) (c, pc) (scClients sc)\<rparr>"

definition shardedGet ::
    "nat \<Rightarrow> 'w addrGet \<Rightarrow> (nat \<Rightarrow> nat) \<Rightarrow> string \<Rightarrow> ShardedClient \<Rightarrow> 'w \<Rightarrow> (string \<times> ShardedClient \<times> 'w) option res" where
  "shardedGet fuel call starts key sc w =
     (case groupFor key sc of
        None \<Rightarrow> Inl (Panic ''nil pointer'')
      | Some (c, pc) \<Rightarrow> Inr (map_option (\<lambda>(v, c', w'). (v, setGroup key c' pc sc, w')) (pooledGet fuel call starts key c w)))"

definition shardedPutAppend ::
    "nat \<Rightarrow> 'w addrPut \<Rightarrow> (nat \<Rightarrow> nat) \<Rightarrow> string \<Rightarrow> string \<Rightarrow> string \<Rightarrow> ShardedClient \<Rightarrow> 'w \<Rightarrow> (ShardedClient \<times> 'w) option res" where
  "shardedPutAppend fuel call starts key value opn sc w =
     (case groupFor key sc of
        None \<Rightarrow> Inl (Panic ''nil pointer'')
      | Some (c, pc) \<Rightarrow> Inr (map_option (\<lambda>(c', w'). (setGroup key c' pc sc, w')) (pooledPutAppend fuel call starts key value opn c w)))"

section \<open>Routing and release\<close>

text \<open>A client made for a group: it knows the group's addresses, has a pool for each, and closing it releases them.\<close>

definition groupClientOk :: "string list \<Rightarrow> poolClient \<times> pooledCaller \<Rightarrow> bool" where
  "groupClientOk addrs x \<longleftrightarrow> pcAddrs (fst x) = addrs \<and> map fst (pools (snd x)) = addrs \<and> (\<forall>p\<in>set (made (callerClose (snd x))). released p)"

definition dialedOk :: "goGroups \<Rightarrow> (int \<times> poolClient \<times> pooledCaller) list \<Rightarrow> bool" where
  "dialedOk gs cs \<longleftrightarrow> list_all2 (\<lambda>(gid, addrs) (gid', x). gid' = gid \<and> groupClientOk addrs x) gs cs"

lemma NewPooledClient_ok:
  assumes "distinct addrs" "NewPooledClient addrs minSize maxSize random answers clock = Inr x"
  shows "groupClientOk addrs x"
proof -
  obtain c pc where x: "x = (c, pc)" by (cases x)
  have "c = newClient addrs random" using assms(2) x by (auto simp: NewPooledClient_def split: sum.splits)
  then show ?thesis using pooled_caller_releases [OF assms(1), of minSize maxSize random answers clock] assms(2) x
    by (simp add: groupClientOk_def newClient_def)
qed

lemma dialedOk_keys: "dialedOk gs cs \<Longrightarrow> map fst cs = map fst gs"
  unfolding dialedOk_def by (induction rule: list_all2_induct) auto

lemma dialedOk_lookup: "dialedOk gs cs \<Longrightarrow> map_of gs gid = Some addrs \<Longrightarrow> \<exists>x. map_of cs gid = Some x \<and> groupClientOk addrs x"
  unfolding dialedOk_def by (induction rule: list_all2_induct) (auto split: if_splits)

lemma dialedOk_released:
  assumes "dialedOk gs (scClients sc)" "pc \<in> set (callers (closeGroups sc))"
  shows "\<forall>p\<in>set (made pc). released p"
proof -
  from assms(2) obtain gid c q where q: "(gid, c, q) \<in> set (scClients sc)" "pc = callerClose q" by (auto simp: callers_def closeGroups_def)
  then obtain addrs where "groupClientOk addrs (c, q)" using assms(1) unfolding dialedOk_def list_all2_conv_all_nth in_set_conv_nth by fastforce
  then show ?thesis using q(2) by (simp add: groupClientOk_def)
qed

lemma dialGroups_outcome:
  assumes "dialedOk gs (scClients sc)" "distinct (map fst (gs @ rest))" "\<forall>(gid, addrs)\<in>set rest. distinct addrs"
  shows "case dialGroups random answers clock rest sc of
      Inl (e, pcs) \<Rightarrow> \<forall>pc\<in>set pcs. \<forall>p\<in>set (made pc). released p
    | Inr sc' \<Rightarrow> dialedOk (gs @ rest) (scClients sc') \<and> scCfg sc' = scCfg sc"
  using assms
proof (induction rest arbitrary: gs sc)
  case (Cons g rest)
  obtain gid addrs where g: "g = (gid, addrs)" by (cases g)
  have d: "distinct addrs" using Cons.prems(3) g by simp
  show ?case
  proof (cases "NewPooledClient addrs 1 4 (random gid) (answers gid) (clock gid)")
    case (Inl y)
    then show ?thesis using pooled_caller_releases [OF d, of 1 4 "random gid" "answers gid" "clock gid"] g dialedOk_released [OF Cons.prems(1)]
      by (cases y) auto
  next
    case (Inr x)
    let ?sc = "sc\<lparr>scClients := AList.update gid x (scClients sc)\<rparr>"
    have "gid \<notin> fst ` set (scClients sc)" using Cons.prems(2) dialedOk_keys [OF Cons.prems(1)] g
      by (metis Un_iff disjoint_iff distinct_append list.set_intros(1) list.simps(9) list.set_map fst_conv map_append)
    then have "AList.update gid x (scClients sc) = scClients sc @ [(gid, x)]" by (rule update_fresh)
    then have "dialedOk (gs @ [(gid, addrs)]) (scClients ?sc)"
      using Cons.prems(1) NewPooledClient_ok [OF d Inr] by (auto simp: dialedOk_def list_all2_appendI)
    from Cons.IH [OF this] show ?thesis using Cons.prems(2,3) g Inr by (auto split: sum.splits)
  qed
qed simp

lemma dialGroups_error: "dialGroups random answers clock gs sc = Inl y \<Longrightarrow> fst y \<noteq> BadConfig"
  by (induction gs arbitrary: sc) (auto split: sum.splits)

text \<open>
  A client over a validated configuration with distinct addresses: if a group cannot be dialed, everything opened for any group has been
  closed when the error is returned; otherwise every key has the client of the group that owns its shard, with the
  addresses of that group, and \<open>Close\<close> releases all connections.
\<close>

theorem sharded_client_routes:
  assumes "Validate cfg" "length (Shards cfg) = NShards" "set order = set (Groups cfg)" "distinct (map fst order)"
    and "distinct (map fst (Groups cfg))" "\<forall>(gid, addrs)\<in>set order. distinct addrs"
  shows "case NewShardedClient random answers clock order cfg of
      Inl (e, pcs) \<Rightarrow> e \<noteq> BadConfig \<and> (\<forall>pc\<in>set pcs. \<forall>p\<in>set (made pc). released p)
    | Inr sc \<Rightarrow> (\<forall>key. \<exists>addrs c pc. map_of (Groups cfg) (Shards cfg ! Key2Shard key) = Some addrs \<and> addrs \<noteq> [] \<and>
          groupFor key sc = Some (c, pc) \<and> pcAddrs c = addrs \<and> map fst (pools pc) = addrs) \<and>
        (\<forall>pc\<in>set (callers (closeGroups sc)). \<forall>p\<in>set (made pc). released p)"
proof -
  let ?sc = "\<lparr>scCfg = cfg, scClients = []\<rparr>"
  have "dialedOk [] (scClients ?sc)" by (simp add: dialedOk_def)
  from dialGroups_outcome [OF this, of order random answers clock] assms(4,6)
  have out: "case dialGroups random answers clock order ?sc of
      Inl (e, pcs) \<Rightarrow> \<forall>pc\<in>set pcs. \<forall>p\<in>set (made pc). released p
    | Inr sc' \<Rightarrow> dialedOk order (scClients sc') \<and> scCfg sc' = cfg" by (auto split: sum.splits)
  have new: "NewShardedClient random answers clock order cfg = dialGroups random answers clock order ?sc"
    using assms(1) by (simp add: NewShardedClient_def)
  show ?thesis
  proof (cases "dialGroups random answers clock order ?sc")
    case (Inl y)
    then have "fst y \<noteq> BadConfig" by (rule dialGroups_error)
    then show ?thesis using new out Inl by (cases y) simp
  next
    case (Inr sc)
    then have sc: "dialedOk order (scClients sc)" "scCfg sc = cfg" using out by simp_all
    have "map_of order = map_of (Groups cfg)" using assms(3-5) by (metis map_of_eqI map_of_inject_set)
    then have "\<exists>addrs c pc. map_of (Groups cfg) (Shards cfg ! Key2Shard key) = Some addrs \<and> addrs \<noteq> [] \<and>
        groupFor key sc = Some (c, pc) \<and> pcAddrs c = addrs \<and> map fst (pools pc) = addrs" for key
    proof -
      have "Shards cfg ! Key2Shard key \<in> set (Shards cfg)" using Key2Shard_bound assms(2) by simp
      then obtain addrs where a: "map_of (Groups cfg) (Shards cfg ! Key2Shard key) = Some addrs" "addrs \<noteq> []"
        using assms(1) unfolding Validate_def by (fastforce split: option.splits)
      then show ?thesis using dialedOk_lookup [OF sc(1)] sc(2) \<open>map_of order = map_of (Groups cfg)\<close>
        by (fastforce simp: groupFor_def groupClientOk_def)
    qed
    then show ?thesis using new Inr dialedOk_released [OF sc(1)] by auto
  qed
qed

end
