(* ===== verification/Ctrler.thy ===== *)
theory Ctrler
  imports Raft_Cluster Shard_Config
begin

text \<open>
  The shard controller (\<open>src/05-sharded-kv/ctrler.go\<close>, \<open>ctrler_op.go\<close>, \<open>ctrler_rpc.go\<close>): a
  replicated history of configurations. The controller has no snapshots, so a snapshot message is
  the panic of its type assertion. Theorems: the history is append-only and numbered without gaps,
  a retried request adds no second version, and the answers of \<open>Query\<close>.
\<close>

section \<open>State and messages\<close>

record ctrlerOp =
  coType :: string
  coJoinGroups :: goGroups
  coLeaveGIDs :: "int list"
  coMoveShard :: int
  coMoveGID :: int
  coClientID :: int
  coSeqNum :: int

datatype CtrlerErr = CtrlerOK | CtrlerErrWrongLeader | CtrlerErrTimeout | CtrlerErrInvalidArgs

record QueryReply =
  qrErr :: CtrlerErr
  qrConfig :: Config

record Ctrler =
  crf :: "(ctrlerOp, unit) Raft"
  configs :: "Config list"
  cNotifyChans :: "int \<rightharpoonup> nat"
  cChans :: "nat \<rightharpoonup> ctrlerOp"
  cNextChan :: nat
  cDuplicateTable :: "int \<rightharpoonup> int"
  cNoopAppliedTerm :: int

definition NewCtrler :: "(ctrlerOp, unit) Raft \<Rightarrow> Ctrler" where
  "NewCtrler r = \<lparr>crf = r, configs = [zeroConfig], cNotifyChans = Map.empty, cChans = Map.empty,
     cNextChan = 0, cDuplicateTable = Map.empty, cNoopAppliedTerm = 0\<rparr>"

definition latestLocked :: "Ctrler \<Rightarrow> Config res" where
  "latestLocked c = index_at (configs c) (int (length (configs c)) - 1)"

section \<open>The state machine\<close>

definition nextConfig :: "ctrlerOp \<Rightarrow> Config \<Rightarrow> Config res" where
  "nextConfig op cfg =
     (if coType op = ''Join'' then Join cfg (coJoinGroups op)
      else if coType op = ''Leave'' then Leave cfg (coLeaveGIDs op)
      else Move cfg (coMoveShard op) (coMoveGID op))"

definition ctrlerMutate :: "ctrlerOp \<Rightarrow> Ctrler \<Rightarrow> Ctrler res" where
  "ctrlerMutate op c =
     (if coType op \<in> {''Join'', ''Leave'', ''Move''}
      then bind_res (latestLocked c) (\<lambda>cfg. bind_res (nextConfig op cfg) (\<lambda>cfg'.
             Inr (c\<lparr>configs := configs c @ [cfg']\<rparr>)))
      else if coType op = ''Noop'' then Inr c
      else Inl (Panic ''shardkv: ctrler applyLoop received an unknown op type''))"

definition ctrlerMark :: "ctrlerOp \<Rightarrow> Ctrler \<Rightarrow> Ctrler" where
  "ctrlerMark op c = c\<lparr>cDuplicateTable := (cDuplicateTable c)(coClientID op \<mapsto> coSeqNum op)\<rparr>"

definition ctrlerApply :: "ctrlerOp \<Rightarrow> Ctrler \<Rightarrow> Ctrler res" where
  "ctrlerApply op c =
     (if coSeqNum op > get0 (cDuplicateTable c) (coClientID op)
      then bind_res (ctrlerMutate op c) (\<lambda>c'. Inr (ctrlerMark op c'))
      else Inr c)"

definition ctrlerNotify :: "int \<Rightarrow> ctrlerOp \<Rightarrow> Ctrler \<Rightarrow> Ctrler" where
  "ctrlerNotify index op c =
     (case cNotifyChans c index of
        None \<Rightarrow> c
      | Some ch \<Rightarrow> c\<lparr>cNotifyChans := (cNotifyChans c)(index := None), cChans := (cChans c)(ch \<mapsto> op)\<rparr>)"

definition ctrlerApplyLoop_step :: "(ctrlerOp, unit) ApplyMsg \<Rightarrow> Ctrler \<Rightarrow> Ctrler res" where
  "ctrlerApplyLoop_step msg c =
     (case msg of
        SnapshotMsg _ _ _ \<Rightarrow> Inl (Panic ''shardkv: ctrler applyLoop received a non-ctrlerOp command'')
      | CommandMsg index t op \<Rightarrow>
          (let c1 = (if coType op = ''Noop'' then c\<lparr>cNoopAppliedTerm := t\<rparr> else c)
           in bind_res (ctrlerApply op c1) (\<lambda>c2. Inr (ctrlerNotify index op c2))))"

definition noopOp :: ctrlerOp where
  "noopOp = \<lparr>coType = ''Noop'', coJoinGroups = [], coLeaveGIDs = [], coMoveShard = 0, coMoveGID = 0,
     coClientID = 0, coSeqNum = 0\<rparr>"

definition ctrlerNoopLoop_tick :: "int \<Rightarrow> Ctrler \<Rightarrow> int \<times> Ctrler" where
  "ctrlerNoopLoop_tick lastNoopTerm c =
     (if state (crf c) \<noteq> Leader then (lastNoopTerm, c)
      else let t = currentTerm (crf c)
           in if t = lastNoopTerm then (lastNoopTerm, c)
              else (case Propose noopOp (crf c) of
                      ((_, _, isLeader), r) \<Rightarrow> (if isLeader then t else lastNoopTerm, c\<lparr>crf := r\<rparr>)))"

section \<open>Client-facing handlers\<close>

text \<open>\<open>proposeAndWait\<close>, split like \<open>PutAppend\<close>: propose, register, react to one event, return.\<close>

record ctrlerWait =
  cwOp :: ctrlerOp
  cwIndex :: int
  cwTerm :: int
  cwChan :: nat

definition proposeAndWait_propose :: "ctrlerOp \<Rightarrow> Ctrler \<Rightarrow> (int \<times> int) option \<times> Ctrler" where
  "proposeAndWait_propose op c =
     (case Propose op (crf c) of
        ((index, t, isLeader), r) \<Rightarrow> (if isLeader then Some (index, t) else None, c\<lparr>crf := r\<rparr>))"

definition proposeAndWait_register :: "ctrlerOp \<Rightarrow> int \<Rightarrow> int \<Rightarrow> Ctrler \<Rightarrow> ctrlerWait \<times> Ctrler" where
  "proposeAndWait_register op index t c =
     (\<lparr>cwOp = op, cwIndex = index, cwTerm = t, cwChan = cNextChan c\<rparr>,
      c\<lparr>cNotifyChans := (cNotifyChans c)(index \<mapsto> cNextChan c), cNextChan := cNextChan c + 1\<rparr>)"

datatype waitEvent = WChanReady | WDeadline | WLeaderCheck

definition proposeAndWait_wait :: "ctrlerWait \<Rightarrow> waitEvent \<Rightarrow> Ctrler \<Rightarrow> CtrlerErr option" where
  "proposeAndWait_wait w ev c =
     (case ev of
        WChanReady \<Rightarrow>
          (case cChans c (cwChan w) of
             None \<Rightarrow> None
           | Some applied \<Rightarrow>
               Some (if coClientID applied \<noteq> coClientID (cwOp w) \<or> coSeqNum applied \<noteq> coSeqNum (cwOp w)
                     then CtrlerErrWrongLeader else CtrlerOK))
      | WDeadline \<Rightarrow> Some CtrlerErrTimeout
      | WLeaderCheck \<Rightarrow>
          (if currentTerm (crf c) \<noteq> cwTerm w \<or> state (crf c) \<noteq> Leader
           then Some CtrlerErrWrongLeader else None))"

definition proposeAndWait_return :: "ctrlerWait \<Rightarrow> Ctrler \<Rightarrow> Ctrler" where
  "proposeAndWait_return w c = c\<lparr>cNotifyChans := (cNotifyChans c)(cwIndex w := None)\<rparr>"

definition joinOp :: "goGroups \<Rightarrow> int \<Rightarrow> int \<Rightarrow> ctrlerOp" where
  "joinOp groups clid sn = noopOp\<lparr>coType := ''Join'', coJoinGroups := groups, coClientID := clid, coSeqNum := sn\<rparr>"

definition leaveOp :: "int list \<Rightarrow> int \<Rightarrow> int \<Rightarrow> ctrlerOp" where
  "leaveOp gids clid sn = noopOp\<lparr>coType := ''Leave'', coLeaveGIDs := gids, coClientID := clid, coSeqNum := sn\<rparr>"

definition moveOp :: "int \<Rightarrow> int \<Rightarrow> int \<Rightarrow> int \<Rightarrow> Ctrler \<Rightarrow> (CtrlerErr + ctrlerOp) res" where
  "moveOp shard gid clid sn c =
     (if shard < 0 \<or> shard \<ge> int NShards then Inr (Inl CtrlerErrInvalidArgs)
      else bind_res (latestLocked c) (\<lambda>cfg.
        if map_of (Groups cfg) gid = None then Inr (Inl CtrlerErrInvalidArgs)
        else Inr (Inr (noopOp\<lparr>coType := ''Move'', coMoveShard := shard, coMoveGID := gid,
                               coClientID := clid, coSeqNum := sn\<rparr>))))"

definition Query :: "int \<Rightarrow> Ctrler \<Rightarrow> QueryReply res" where
  "Query num c =
     (if state (crf c) \<noteq> Leader then Inr \<lparr>qrErr = CtrlerErrWrongLeader, qrConfig = zeroConfig\<rparr>
      else let t = currentTerm (crf c)
           in if cNoopAppliedTerm c \<noteq> t then Inr \<lparr>qrErr = CtrlerErrWrongLeader, qrConfig = zeroConfig\<rparr>
              else let idx = (if num < 0 \<or> num \<ge> int (length (configs c))
                              then int (length (configs c)) - 1 else num)
                   in bind_res (index_at (configs c) idx) (\<lambda>cfg. Inr \<lparr>qrErr = CtrlerOK, qrConfig = cfg\<rparr>))"

section \<open>The history of configurations\<close>

text \<open>
  Version \<open>i\<close> sits at position \<open>i\<close>, and every version has one owner per shard and no group twice.
\<close>

definition config_shape :: "Config \<Rightarrow> bool" where
  "config_shape cfg \<longleftrightarrow> length (Shards cfg) = NShards \<and> distinct (map fst (Groups cfg))"

definition history_ok :: "Ctrler \<Rightarrow> bool" where
  "history_ok c \<longleftrightarrow> configs c \<noteq> [] \<and>
     (\<forall>i<length (configs c). Num (configs c ! i) = int i \<and> config_shape (configs c ! i))"

lemma latestLocked_ok: "configs c \<noteq> [] \<Longrightarrow> latestLocked c = Inr (last (configs c))"
  by (cases "configs c" rule: rev_cases) (auto simp: latestLocked_def index_at_def nat_diff_distrib)

lemma nextConfig_shape:
  assumes "config_shape cfg" "nextConfig op cfg = Inr cfg'"
  shows "config_shape cfg' \<and> Num cfg' = Num cfg + 1"
proof -
  have rb: "rebalance (Shards cfg) groups = Inr sh \<Longrightarrow> distinct (map fst groups) \<Longrightarrow> length sh = NShards" for groups sh
    using rebalance_wf [of "Shards cfg" groups 0] assms(1) by (auto simp: config_shape_def config_wf_def)
  have "distinct (map fst (fold (\<lambda>(gid, addrs) m. AList.update gid addrs m) (coJoinGroups op) (Groups cfg)))"
    "distinct (map fst (fold AList.delete (coLeaveGIDs op) (Groups cfg)))"
    using assms(1) distinct_join_groups distinct_leave_groups by (auto simp: config_shape_def)
  then show ?thesis
    using assms by (auto simp: nextConfig_def Join_def Leave_def Move_def Let_def config_shape_def
        split: if_splits dest: rb)
qed

lemma ctrlerMutate_Inr:
  assumes "ctrlerMutate op c = Inr c'"
  obtains (noop) "coType op = ''Noop''" "c' = c"
  | (change) cfg cfg' where "coType op \<in> {''Join'', ''Leave'', ''Move''}" "latestLocked c = Inr cfg"
      "nextConfig op cfg = Inr cfg'" "c' = c\<lparr>configs := configs c @ [cfg']\<rparr>"
  using assms by (auto simp: ctrlerMutate_def split: if_splits)

interpretation ctm: dedup_machine coClientID coSeqNum cDuplicateTable ctrlerMutate ctrlerMark ctrlerApply
  by unfold_locales (auto simp: ctrlerApply_def ctrlerMark_def elim: ctrlerMutate_Inr)

lemma history_append:
  assumes "history_ok c" "latestLocked c = Inr cfg" "nextConfig op cfg = Inr cfg'"
  shows "history_ok (c\<lparr>configs := configs c @ [cfg']\<rparr>)"
proof -
  let ?n = "length (configs c)"
  have ne: "configs c \<noteq> []" using assms(1) by (simp add: history_ok_def)
  then have "cfg = configs c ! (?n - 1)" using assms(2) latestLocked_ok by (auto simp: last_conv_nth)
  then have "config_shape cfg" "Num cfg = int ?n - 1"
    using assms(1) ne by (auto simp: history_ok_def Suc_leI)
  then have "config_shape cfg'" "Num cfg' = int ?n" using nextConfig_shape [OF _ assms(3)] by auto
  then show ?thesis
    using assms(1) by (auto simp: history_ok_def nth_append less_Suc_eq)
qed

text \<open>One logged command: what it may do to the history.\<close>

lemma ctrlerApply_history:
  assumes "history_ok c" "ctrlerApply op c = Inr c'"
  shows "history_ok c'" "\<exists>new. configs c' = configs c @ new \<and>
      length new = (if coSeqNum op > get0 (cDuplicateTable c) (coClientID op) \<and> coType op \<noteq> ''Noop'' then 1 else 0)"
proof -
  have "history_ok c' \<and> (\<exists>new. configs c' = configs c @ new \<and>
      length new = (if coSeqNum op > get0 (cDuplicateTable c) (coClientID op) \<and> coType op \<noteq> ''Noop'' then 1 else 0))"
  proof (cases "coSeqNum op > get0 (cDuplicateTable c) (coClientID op)")
    case True
    then obtain c1 where c1: "ctrlerMutate op c = Inr c1" "c' = ctrlerMark op c1"
      using assms(2) by (auto simp: ctrlerApply_def)
    have mark: "history_ok (ctrlerMark op x) = history_ok x" "configs (ctrlerMark op x) = configs x" for x
      by (simp_all add: history_ok_def ctrlerMark_def)
    from c1(1) show ?thesis
    proof (cases rule: ctrlerMutate_Inr)
      case noop
      with assms(1) c1(2) mark show ?thesis by auto
    next
      case (change cfg cfg')
      with history_append [OF assms(1) change(2,3)] c1(2) mark True show ?thesis by auto
    qed
  next
    case False
    with assms show ?thesis by (auto simp: ctrlerApply_def)
  qed
  then show "history_ok c'" "\<exists>new. configs c' = configs c @ new \<and>
      length new = (if coSeqNum op > get0 (cDuplicateTable c) (coClientID op) \<and> coType op \<noteq> ''Noop'' then 1 else 0)"
    by auto
qed

lemma ctrlerRun_history:
  assumes "history_ok c" "run_log ctrlerApply ops c = Inr c'"
  shows "history_ok c' \<and> (\<exists>new. configs c' = configs c @ new \<and>
     length new = length (filter (\<lambda>op. coType op \<noteq> ''Noop'') (ctm.effective ops c)))"
  using assms
proof (induction ops arbitrary: c)
  case (Cons op ops)
  then obtain c1 where c1: "ctrlerApply op c = Inr c1" "run_log ctrlerApply ops c1 = Inr c'" by auto
  note h = ctrlerApply_history [OF Cons.prems(1) c1(1)]
  obtain new1 where n1: "configs c1 = configs c @ new1"
    "length new1 = (if coSeqNum op > get0 (cDuplicateTable c) (coClientID op) \<and> coType op \<noteq> ''Noop'' then 1 else 0)"
    using h(2) by blast
  obtain new where n2: "history_ok c'" "configs c' = configs c1 @ new"
    "length new = length (filter (\<lambda>op. coType op \<noteq> ''Noop'') (ctm.effective ops c1))"
    using Cons.IH [OF h(1) c1(2)] by blast
  show ?case
    using n1 n2 c1(1) by (intro conjI exI [of _ "new1 @ new"]) auto
qed auto

text \<open>
  (C22) The controller's history: applying any part of the log only appends versions, version number
  \<open>i\<close> always sits at position \<open>i\<close> with one owner per shard and no group listed twice, and exactly one
  version is added per membership change that takes effect, however often it was retried.
\<close>

theorem ctrler_history:
  assumes "history_ok c" "run_log ctrlerApply ops c = Inr c'"
  shows "history_ok c' \<and> (\<exists>new. configs c' = configs c @ new \<and>
     length new = length (filter (\<lambda>op. coType op \<noteq> ''Noop'') (ctm.effective ops c)))"
  using assms by (rule ctrlerRun_history)

definition exCtrler :: Ctrler where
  "exCtrler = NewCtrler (NewRaft 1 [2, 3])"

lemma exCtrler_ok: "history_ok exCtrler"
  by (simp add: exCtrler_def NewCtrler_def history_ok_def config_shape_def zeroConfig_def)

lemma exCtrler_run:
  assumes "config_wf (last (configs c))" "configs c \<noteq> []" "get0 (cDuplicateTable c) clid < sn"
  obtains cfg where "Join (last (configs c)) groups = Inr cfg" "config_wf cfg"
    "ctrlerApply (joinOp groups clid sn) c =
       Inr (c\<lparr>configs := configs c @ [cfg], cDuplicateTable := (cDuplicateTable c)(clid \<mapsto> sn)\<rparr>)"
proof -
  obtain cfg where cfg: "Join (last (configs c)) groups = Inr cfg" "config_wf cfg"
    using Join_Inr [OF assms(1)] by metis
  moreover have "ctrlerMutate (joinOp groups clid sn) c = Inr (c\<lparr>configs := configs c @ [cfg]\<rparr>)"
    using cfg(1) assms(2) by (simp add: ctrlerMutate_def latestLocked_ok nextConfig_def joinOp_def)
  ultimately show ?thesis
    using that assms(3) by (simp add: ctrlerApply_def ctrlerMark_def joinOp_def noopOp_def)
qed

theorem ctrler_history_witness:
  "\<exists>c'. run_log ctrlerApply [joinOp exGroups 5 1, joinOp exGroups 5 1] exCtrler = Inr c' \<and>
     length (configs c') = 2 \<and> history_ok c'"
proof -
  let ?op = "joinOp exGroups 5 1"
  have start: "config_wf (last (configs exCtrler))" "configs exCtrler \<noteq> []"
    "get0 (cDuplicateTable exCtrler) 5 < 1"
    by (simp_all add: exCtrler_def NewCtrler_def config_wf_zero)
  obtain cfg where run: "ctrlerApply ?op exCtrler =
      Inr (exCtrler\<lparr>configs := configs exCtrler @ [cfg], cDuplicateTable := (cDuplicateTable exCtrler)(5 \<mapsto> 1)\<rparr>)"
    using exCtrler_run [OF start] by metis
  let ?c = "exCtrler\<lparr>configs := configs exCtrler @ [cfg], cDuplicateTable := (cDuplicateTable exCtrler)(5 \<mapsto> 1)\<rparr>"
  have "ctrlerApply ?op ?c = Inr ?c"
    by (rule ctm.duplicate_skipped) (simp add: joinOp_def noopOp_def)
  then have two: "run_log ctrlerApply [?op, ?op] exCtrler = Inr ?c" using run by simp
  have "length (configs ?c) = 2" by (simp add: exCtrler_def NewCtrler_def)
  with ctrler_history [OF exCtrler_ok two] two show ?thesis by blast
qed

text \<open>
  \<open>Query\<close>, every branch: it answers only on a leader that has applied a no-op of its current
  term; then it returns the version asked for, or the latest one when the number is negative or not
  yet known, and the version it returns carries the number of its position. It never fails.
\<close>

theorem Query_answers:
  assumes "history_ok c"
  shows "\<exists>reply. Query num c = Inr reply \<and>
     (qrErr reply = CtrlerOK \<longleftrightarrow> state (crf c) = Leader \<and> cNoopAppliedTerm c = currentTerm (crf c)) \<and>
     (qrErr reply \<noteq> CtrlerOK \<longrightarrow> qrErr reply = CtrlerErrWrongLeader) \<and>
     (qrErr reply = CtrlerOK \<longrightarrow>
        Num (qrConfig reply) = (if 0 \<le> num \<and> num < int (length (configs c)) then num
                                else int (length (configs c)) - 1) \<and>
        qrConfig reply = configs c ! nat (Num (qrConfig reply)))"
proof (cases "state (crf c) = Leader \<and> cNoopAppliedTerm c = currentTerm (crf c)")
  case False
  then show ?thesis by (auto simp: Query_def)
next
  case True
  let ?n = "int (length (configs c))"
  let ?i = "if num < 0 \<or> num \<ge> ?n then ?n - 1 else num"
  have "0 < ?n" using assms by (simp add: history_ok_def)
  then have i: "0 \<le> ?i" "?i < ?n" by auto
  then have q: "Query num c = Inr \<lparr>qrErr = CtrlerOK, qrConfig = configs c ! nat ?i\<rparr>"
    using True by (simp add: Query_def Let_def index_at_def)
  have "nat ?i < length (configs c)" using i by linarith
  then have "Num (configs c ! nat ?i) = int (nat ?i)" using assms unfolding history_ok_def by blast
  also have "\<dots> = ?i" using i(1) by simp
  finally have num: "Num (configs c ! nat ?i) = ?i" .
  have "?i = (if 0 \<le> num \<and> num < ?n then num else ?n - 1)" by auto
  with num q True show ?thesis by simp
qed

theorem Query_answers_witness:
  "\<exists>reply. Query (-1) (exCtrler\<lparr>crf := (NewRaft 1 [2, 3])\<lparr>state := Leader\<rparr>\<rparr>) = Inr reply \<and>
     Num (qrConfig reply) = 0"
proof -
  let ?c = "exCtrler\<lparr>crf := (NewRaft 1 [2, 3])\<lparr>state := Leader\<rparr>\<rparr>"
  have ok: "history_ok ?c" using exCtrler_ok by (simp add: history_ok_def)
  have "cNoopAppliedTerm ?c = currentTerm (crf ?c)" "length (configs ?c) = 1"
    by (simp_all add: exCtrler_def NewCtrler_def NewRaft_def newRaft_def restoreLocked_def)
  with Query_answers [OF ok, of "-1"] show ?thesis by auto
qed

end
