(* ===== verification/Group_Server.thy ===== *)
theory Group_Server
  imports Ctrler
begin

text \<open>
  A shard group (\<open>src/05-sharded-kv/group_server.go\<close>, \<open>group_op.go\<close>, \<open>group_rpc.go\<close>): the state
  machine with its six kinds of log entry, configuration adoption, the migration of a shard by
  \<open>Pull\<close> and \<open>Migrate\<close>, garbage collection, and the three polling loops as one tick each.

  Shard numbers are naturals, since every one that occurs comes from a loop over \<open>0..NShards-1\<close> or
  from \<open>Key2Shard\<close>. The controller is the function \<open>query\<close>; the other groups are the function
  \<open>groupsAt\<close> from group ids to the current states of their replicas. A tick that iterates over a Go map
  takes the iteration order as an argument.
\<close>

section \<open>State and messages\<close>

record groupOp =
  goType :: string
  goKey :: string
  goValue :: string
  goConfig :: Config
  goShard :: nat
  goData :: "string \<rightharpoonup> string"
  goDupTable :: "int \<rightharpoonup> int"
  goClientID :: int
  goSeqNum :: int

datatype GroupErr = GroupOK | GroupErrNoKey | GroupErrWrongLeader | GroupErrWrongGroup
  | GroupErrTimeout | GroupErrNotReady

record GroupGetReply =
  ggErr :: GroupErr
  ggValue :: string

record PullReply =
  plErr :: GroupErr
  plData :: "string \<rightharpoonup> string"
  plDupTable :: "int \<rightharpoonup> int"

record HasShardReply =
  hsErr :: GroupErr
  hsReady :: bool

record groupSnapshot =
  gsStore :: "string \<rightharpoonup> string"
  gsDuplicateTable :: "int \<rightharpoonup> int"
  gsCfg :: Config
  gsMigrating :: "nat \<rightharpoonup> int"
  gsLeaving :: "nat \<rightharpoonup> int"

record groupApplyResult =
  arOp :: groupOp
  arErr :: GroupErr

record GroupServer =
  grf :: "(groupOp, groupSnapshot) Raft"
  gid :: int
  cfg :: Config
  gStore :: "string \<rightharpoonup> string"
  migrating :: "nat \<rightharpoonup> int"
  leaving :: "nat \<rightharpoonup> int"
  gNotifyChans :: "int \<rightharpoonup> nat"
  gChans :: "nat \<rightharpoonup> groupApplyResult"
  gNextChan :: nat
  gDuplicateTable :: "int \<rightharpoonup> int"
  gNoopAppliedTerm :: int
  gMaxRaftState :: int

section \<open>Snapshots\<close>

definition groupRestoreSnapshot :: "groupSnapshot option \<Rightarrow> GroupServer \<Rightarrow> GroupServer res" where
  "groupRestoreSnapshot data s =
     (case data of
        None \<Rightarrow> Inl (Panic ''shardkv: failed to decode persisted snapshot'')
      | Some snap \<Rightarrow> Inr (s\<lparr>gStore := gsStore snap, gDuplicateTable := gsDuplicateTable snap,
           cfg := gsCfg snap, migrating := gsMigrating snap, leaving := gsLeaving snap\<rparr>))"

definition groupSnap :: "GroupServer \<Rightarrow> groupSnapshot" where
  "groupSnap s = \<lparr>gsStore = gStore s, gsDuplicateTable = gDuplicateTable s, gsCfg = cfg s,
                  gsMigrating = migrating s, gsLeaving = leaving s\<rparr>"

definition groupSnapshotLocked :: "int \<Rightarrow> GroupServer \<Rightarrow> GroupServer res" where
  "groupSnapshotLocked index s =
     (case Snapshot index (Some (groupSnap s)) (grf s) of
        Inl e \<Rightarrow> Inl (Panic ''shardkv: failed to snapshot'')
      | Inr r \<Rightarrow> Inr (s\<lparr>grf := r\<rparr>))"

definition NewGroupServer :: "(groupOp, groupSnapshot) Raft \<Rightarrow> int \<Rightarrow> int \<Rightarrow> GroupServer res" where
  "NewGroupServer r i maxState =
     (let s = \<lparr>grf = r, gid = i, cfg = zeroConfig, gStore = Map.empty, migrating = Map.empty,
               leaving = Map.empty, gNotifyChans = Map.empty, gChans = Map.empty, gNextChan = 0,
               gDuplicateTable = Map.empty, gNoopAppliedTerm = 0, gMaxRaftState = maxState\<rparr>
      in case ReadSnapshot r of None \<Rightarrow> Inr s | Some snap \<Rightarrow> groupRestoreSnapshot (Some snap) s)"

section \<open>The state machine\<close>

definition ownsLocked :: "string \<Rightarrow> GroupServer \<Rightarrow> bool" where
  "ownsLocked key s \<longleftrightarrow>
     (let shard = Key2Shard key in Shards (cfg s) ! shard = gid s \<and> migrating s shard = None)"

definition adoptShard :: "Config \<Rightarrow> Config \<Rightarrow> nat \<Rightarrow> GroupServer \<Rightarrow> GroupServer" where
  "adoptShard old new shard s =
     (let oldOwner = Shards old ! shard; newOwner = Shards new ! shard;
          s1 = (if newOwner = gid s \<and> oldOwner \<noteq> gid s \<and> oldOwner \<noteq> 0
                then s\<lparr>migrating := (migrating s)(shard \<mapsto> oldOwner)\<rparr> else s)
      in if oldOwner = gid s1 \<and> newOwner \<noteq> gid s1 \<and> newOwner \<noteq> 0
         then s1\<lparr>leaving := (leaving s1)(shard \<mapsto> newOwner)\<rparr> else s1)"

definition adoptConfig :: "Config \<Rightarrow> GroupServer \<Rightarrow> GroupServer" where
  "adoptConfig new s =
     (if Num new = Num (cfg s) + 1
      then fold (adoptShard (cfg s) new) [0..<NShards] (s\<lparr>cfg := new\<rparr>) else s)"

definition mergeDup :: "(int \<rightharpoonup> int) \<Rightarrow> (int \<rightharpoonup> int) \<Rightarrow> (int \<rightharpoonup> int)" where
  "mergeDup own donor = (\<lambda>c. case donor c of None \<Rightarrow> own c
     | Some sn \<Rightarrow> if sn > get0 own c then Some sn else own c)"

definition landMigrate :: "groupOp \<Rightarrow> GroupServer \<Rightarrow> GroupServer" where
  "landMigrate op s =
     (if migrating s (goShard op) \<noteq> None
      then s\<lparr>gStore := gStore s ++ goData op, gDuplicateTable := mergeDup (gDuplicateTable s) (goDupTable op),
             migrating := (migrating s)(goShard op := None)\<rparr>
      else s)"

definition collectShard :: "groupOp \<Rightarrow> GroupServer \<Rightarrow> GroupServer" where
  "collectShard op s =
     (if leaving s (goShard op) \<noteq> None
      then s\<lparr>gStore := (\<lambda>k. if Key2Shard k = goShard op then None else gStore s k),
             leaving := (leaving s)(goShard op := None)\<rparr>
      else s)"

definition writeKey :: "groupOp \<Rightarrow> GroupServer \<Rightarrow> GroupServer" where
  "writeKey op s =
     (if goSeqNum op > get0 (gDuplicateTable s) (goClientID op)
      then let v = (if goType op = ''Put'' then goValue op
                    else (case gStore s (goKey op) of None \<Rightarrow> '''' | Some v \<Rightarrow> v) @ goValue op)
           in s\<lparr>gStore := (gStore s)(goKey op \<mapsto> v),
                gDuplicateTable := (gDuplicateTable s)(goClientID op \<mapsto> goSeqNum op)\<rparr>
      else s)"

definition groupApply :: "int \<Rightarrow> groupOp \<Rightarrow> GroupServer \<Rightarrow> (GroupErr \<times> GroupServer) res" where
  "groupApply t op s =
     (if goType op = ''Noop'' then Inr (GroupOK, s\<lparr>gNoopAppliedTerm := t\<rparr>)
      else if goType op = ''Config'' then Inr (GroupOK, adoptConfig (goConfig op) s)
      else if goType op = ''Migrate'' then Inr (GroupOK, landMigrate op s)
      else if goType op = ''GC'' then Inr (GroupOK, collectShard op s)
      else if goType op = ''Put'' \<or> goType op = ''Append''
        then if \<not> ownsLocked (goKey op) s then Inr (GroupErrWrongGroup, s)
             else Inr (GroupOK, writeKey op s)
      else Inl (Panic ''shardkv: applyLoop received an unknown op type''))"

definition groupNotify :: "int \<Rightarrow> groupApplyResult \<Rightarrow> GroupServer \<Rightarrow> GroupServer" where
  "groupNotify index result s =
     (case gNotifyChans s index of
        None \<Rightarrow> s
      | Some ch \<Rightarrow> s\<lparr>gNotifyChans := (gNotifyChans s)(index := None), gChans := (gChans s)(ch \<mapsto> result)\<rparr>)"

definition groupApplyLoop_step ::
    "(groupOp persistedState \<Rightarrow> int) \<Rightarrow> (groupOp, groupSnapshot) ApplyMsg \<Rightarrow> GroupServer \<Rightarrow> GroupServer res" where
  "groupApplyLoop_step encodedLength msg s =
     (case msg of
        SnapshotMsg data _ _ \<Rightarrow> groupRestoreSnapshot data s
      | CommandMsg index t op \<Rightarrow>
          bind_res (groupApply t op s) (\<lambda>(err, s1).
            let s2 = groupNotify index \<lparr>arOp = op, arErr = err\<rparr> s1
            in if gMaxRaftState s2 \<noteq> -1 \<and> RaftStateSize encodedLength (grf s2) \<ge> gMaxRaftState s2
               then groupSnapshotLocked index s2 else Inr s2))"

section \<open>Handlers\<close>

definition groupGet :: "string \<Rightarrow> GroupServer \<Rightarrow> GroupGetReply" where
  "groupGet key s =
     (if state (grf s) \<noteq> Leader then \<lparr>ggErr = GroupErrWrongLeader, ggValue = ''''\<rparr>
      else if gNoopAppliedTerm s \<noteq> currentTerm (grf s) then \<lparr>ggErr = GroupErrWrongLeader, ggValue = ''''\<rparr>
      else if \<not> ownsLocked key s then \<lparr>ggErr = GroupErrWrongGroup, ggValue = ''''\<rparr>
      else (case gStore s key of None \<Rightarrow> \<lparr>ggErr = GroupErrNoKey, ggValue = ''''\<rparr>
            | Some v \<Rightarrow> \<lparr>ggErr = GroupOK, ggValue = v\<rparr>))"

definition Pull :: "nat \<Rightarrow> int \<Rightarrow> GroupServer \<Rightarrow> PullReply" where
  "Pull shard configNum s =
     (if Num (cfg s) < configNum \<or> migrating s shard \<noteq> None
      then \<lparr>plErr = GroupErrNotReady, plData = Map.empty, plDupTable = Map.empty\<rparr>
      else \<lparr>plErr = GroupOK, plData = (\<lambda>k. if Key2Shard k = shard then gStore s k else None),
            plDupTable = gDuplicateTable s\<rparr>)"

definition HasShard :: "nat \<Rightarrow> GroupServer \<Rightarrow> HasShardReply" where
  "HasShard shard s =
     \<lparr>hsErr = GroupOK, hsReady = (Shards (cfg s) ! shard = gid s \<and> migrating s shard = None)\<rparr>"

section \<open>Background loops, one tick each\<close>

definition emptyGroupOp :: groupOp where
  "emptyGroupOp = \<lparr>goType = '''', goKey = '''', goValue = '''', goConfig = zeroConfig, goShard = 0,
     goData = Map.empty, goDupTable = Map.empty, goClientID = 0, goSeqNum = 0\<rparr>"

definition groupNoopLoop_tick :: "int \<Rightarrow> GroupServer \<Rightarrow> int \<times> GroupServer" where
  "groupNoopLoop_tick lastNoopTerm s =
     (if state (grf s) \<noteq> Leader then (lastNoopTerm, s)
      else let t = currentTerm (grf s)
           in if t = lastNoopTerm then (lastNoopTerm, s)
              else (case Propose (emptyGroupOp\<lparr>goType := ''Noop''\<rparr>) (grf s) of
                      ((_, _, isLeader), r) \<Rightarrow> (if isLeader then t else lastNoopTerm, s\<lparr>grf := r\<rparr>)))"

definition configPollLoop_tick :: "(int \<Rightarrow> Config) \<Rightarrow> int \<Rightarrow> GroupServer \<Rightarrow> int \<times> GroupServer" where
  "configPollLoop_tick query lastProposed s =
     (if state (grf s) \<noteq> Leader then (-1, s)
      else let nextNum = Num (cfg s) + 1
           in if nextNum = lastProposed then (lastProposed, s)
              else let nxt = query nextNum
                   in if Num nxt \<noteq> nextNum then (lastProposed, s)
                      else (case Propose (emptyGroupOp\<lparr>goType := ''Config'', goConfig := nxt\<rparr>) (grf s) of
                              ((_, _, isLeader), r) \<Rightarrow>
                                (if isLeader then nextNum else lastProposed, s\<lparr>grf := r\<rparr>)))"

fun pullFrom :: "GroupServer list \<Rightarrow> nat \<Rightarrow> int \<Rightarrow> PullReply option" where
  "pullFrom [] shard configNum = None"
| "pullFrom (donor # donors) shard configNum =
     (let reply = Pull shard configNum donor
      in if plErr reply = GroupOK then Some reply else pullFrom donors shard configNum)"

definition migrateOne :: "(int \<Rightarrow> GroupServer list) \<Rightarrow> int \<Rightarrow> (nat \<rightharpoonup> int) \<Rightarrow> nat \<Rightarrow>
    (nat \<Rightarrow> bool) \<times> GroupServer \<Rightarrow> (nat \<Rightarrow> bool) \<times> GroupServer" where
  "migrateOne groupsAt configNum pending shard = (\<lambda>(proposed, s).
     case pending shard of
       None \<Rightarrow> (proposed, s)
     | Some fromGID \<Rightarrow>
        (if proposed shard then (proposed, s)
         else (case pullFrom (groupsAt fromGID) shard configNum of
                 None \<Rightarrow> (proposed, s)
               | Some reply \<Rightarrow>
                   (case Propose (emptyGroupOp\<lparr>goType := ''Migrate'', goShard := shard,
                             goData := plData reply, goDupTable := plDupTable reply\<rparr>) (grf s) of
                      ((_, _, isLeader), r) \<Rightarrow>
                        (if isLeader then proposed(shard := True) else proposed, s\<lparr>grf := r\<rparr>)))))"

definition migrationLoop_tick :: "(int \<Rightarrow> GroupServer list) \<Rightarrow> nat list \<Rightarrow>
    (nat \<Rightarrow> bool) \<Rightarrow> GroupServer \<Rightarrow> (nat \<Rightarrow> bool) \<times> GroupServer" where
  "migrationLoop_tick groupsAt order proposed s =
     (if state (grf s) \<noteq> Leader then (\<lambda>_. False, s)
      else fold (migrateOne groupsAt (Num (cfg s)) (migrating s)) order (proposed, s))"

fun recipientReady :: "GroupServer list \<Rightarrow> nat \<Rightarrow> bool" where
  "recipientReady [] shard = False"
| "recipientReady (r # rs) shard =
     (let reply = HasShard shard r
      in if hsErr reply = GroupOK \<and> hsReady reply then True else recipientReady rs shard)"

definition collectOne :: "(int \<Rightarrow> GroupServer list) \<Rightarrow> (nat \<rightharpoonup> int) \<Rightarrow> nat \<Rightarrow>
    (nat \<Rightarrow> bool) \<times> GroupServer \<Rightarrow> (nat \<Rightarrow> bool) \<times> GroupServer" where
  "collectOne groupsAt pending shard = (\<lambda>(proposed, s).
     case pending shard of
       None \<Rightarrow> (proposed, s)
     | Some toGID \<Rightarrow>
        (if proposed shard \<or> \<not> recipientReady (groupsAt toGID) shard then (proposed, s)
         else (case Propose (emptyGroupOp\<lparr>goType := ''GC'', goShard := shard\<rparr>) (grf s) of
                 ((_, _, isLeader), r) \<Rightarrow>
                   (if isLeader then proposed(shard := True) else proposed, s\<lparr>grf := r\<rparr>))))"

definition gcLoop_tick :: "(int \<Rightarrow> GroupServer list) \<Rightarrow> nat list \<Rightarrow>
    (nat \<Rightarrow> bool) \<Rightarrow> GroupServer \<Rightarrow> (nat \<Rightarrow> bool) \<times> GroupServer" where
  "gcLoop_tick groupsAt order proposed s =
     (if state (grf s) \<noteq> Leader then (\<lambda>_. False, s)
      else fold (collectOne groupsAt (leaving s)) order (proposed, s))"

text \<open>
  \<open>proposeAndWait\<close>, split as in the controller: propose, register, react to one event, return; the
  outcome on a match is what the state machine decided. \<open>PutAppend\<close> checks the ownership first.
\<close>

record groupWait =
  gwOp :: groupOp
  gwIndex :: int
  gwTerm :: int
  gwChan :: nat

definition groupPropose :: "groupOp \<Rightarrow> GroupServer \<Rightarrow> (int \<times> int) option \<times> GroupServer" where
  "groupPropose op s =
     (case Propose op (grf s) of
        ((index, t, isLeader), r) \<Rightarrow> (if isLeader then Some (index, t) else None, s\<lparr>grf := r\<rparr>))"

definition groupRegister :: "groupOp \<Rightarrow> int \<Rightarrow> int \<Rightarrow> GroupServer \<Rightarrow> groupWait \<times> GroupServer" where
  "groupRegister op index t s =
     (\<lparr>gwOp = op, gwIndex = index, gwTerm = t, gwChan = gNextChan s\<rparr>,
      s\<lparr>gNotifyChans := (gNotifyChans s)(index \<mapsto> gNextChan s), gNextChan := gNextChan s + 1\<rparr>)"

definition groupAwait :: "groupWait \<Rightarrow> waitEvent \<Rightarrow> GroupServer \<Rightarrow> GroupErr option" where
  "groupAwait w ev s =
     (case ev of
        WChanReady \<Rightarrow>
          (case gChans s (gwChan w) of
             None \<Rightarrow> None
           | Some applied \<Rightarrow>
               Some (if goClientID (arOp applied) \<noteq> goClientID (gwOp w) \<or> goSeqNum (arOp applied) \<noteq> goSeqNum (gwOp w)
                     then GroupErrWrongLeader else arErr applied))
      | WDeadline \<Rightarrow> Some GroupErrTimeout
      | WLeaderCheck \<Rightarrow>
          (if currentTerm (grf s) \<noteq> gwTerm w \<or> state (grf s) \<noteq> Leader
           then Some GroupErrWrongLeader else None))"

definition groupReturn :: "groupWait \<Rightarrow> GroupServer \<Rightarrow> GroupServer" where
  "groupReturn w s = s\<lparr>gNotifyChans := (gNotifyChans s)(gwIndex w := None)\<rparr>"

record GroupPutAppendArgs =
  gpKey :: string
  gpValue :: string
  gpOp :: string
  gpClientID :: int
  gpSeqNum :: int

definition groupPutAppend :: "GroupPutAppendArgs \<Rightarrow> GroupServer \<Rightarrow> GroupErr + groupOp" where
  "groupPutAppend args s =
     (if \<not> ownsLocked (gpKey args) s then Inl GroupErrWrongGroup
      else Inr (emptyGroupOp\<lparr>goType := gpOp args, goKey := gpKey args, goValue := gpValue args,
                              goClientID := gpClientID args, goSeqNum := gpSeqNum args\<rparr>))"

section \<open>What the entries do\<close>

definition gains :: "Config \<Rightarrow> Config \<Rightarrow> int \<Rightarrow> nat \<Rightarrow> bool" where
  "gains old new g i \<longleftrightarrow> Shards new ! i = g \<and> Shards old ! i \<noteq> g \<and> Shards old ! i \<noteq> 0"

definition loses :: "Config \<Rightarrow> Config \<Rightarrow> int \<Rightarrow> nat \<Rightarrow> bool" where
  "loses old new g i \<longleftrightarrow> Shards old ! i = g \<and> Shards new ! i \<noteq> g \<and> Shards new ! i \<noteq> 0"

lemma adopt_fold:
  "fold (adoptShard old new) xs s =
     s\<lparr>migrating := (\<lambda>i. if i \<in> set xs \<and> gains old new (gid s) i then Some (Shards old ! i) else migrating s i),
       leaving := (\<lambda>i. if i \<in> set xs \<and> loses old new (gid s) i then Some (Shards new ! i) else leaving s i)\<rparr>"
proof (induction xs arbitrary: s)
  case (Cons x xs)
  have step: "adoptShard old new x s =
     s\<lparr>migrating := (\<lambda>i. if i = x \<and> gains old new (gid s) i then Some (Shards old ! i) else migrating s i),
       leaving := (\<lambda>i. if i = x \<and> loses old new (gid s) i then Some (Shards new ! i) else leaving s i)\<rparr>"
    by (cases s) (auto simp: adoptShard_def gains_def loses_def Let_def fun_eq_iff)
  show ?case unfolding fold.simps comp_def step Cons.IH by (auto simp: fun_eq_iff)
qed simp

lemma adoptConfig_eq:
  "adoptConfig new s =
     (if Num new = Num (cfg s) + 1
      then s\<lparr>cfg := new,
             migrating := (\<lambda>i. if i < NShards \<and> gains (cfg s) new (gid s) i then Some (Shards (cfg s) ! i)
                               else migrating s i),
             leaving := (\<lambda>i. if i < NShards \<and> loses (cfg s) new (gid s) i then Some (Shards new ! i)
                             else leaving s i)\<rparr>
      else s)"
  unfolding adoptConfig_def adopt_fold by (simp cong: if_cong)

lemma mergeDup_mono: "get0 own c \<le> get0 (mergeDup own donor) c"
  by (auto simp: mergeDup_def get0_def split: option.splits)

lemma mergeDup_Some: "donor c = Some sn \<Longrightarrow> get0 (mergeDup own donor) c = max sn (get0 own c)"
  by (auto simp: mergeDup_def get0_def split: option.splits)

text \<open>A log of entries with their terms.\<close>

definition groupStep :: "int \<times> groupOp \<Rightarrow> GroupServer \<Rightarrow> GroupServer res" where
  "groupStep x s = map_sum id snd (groupApply (fst x) (snd x) s)"

lemma six_cases:
  assumes "x = a \<Longrightarrow> P" "x = b \<Longrightarrow> P" "x = c \<Longrightarrow> P" "x = d \<Longrightarrow> P" "x \<in> {e, f} \<Longrightarrow> P"
    "x \<notin> {a, b, c, d, e, f} \<Longrightarrow> P"
  shows P
  using assms by blast

lemma adoptConfig_frame:
  "gStore (adoptConfig new s) = gStore s" "gDuplicateTable (adoptConfig new s) = gDuplicateTable s"
  "gid (adoptConfig new s) = gid s"
  "cfg (adoptConfig new s) = (if Num new = Num (cfg s) + 1 then new else cfg s)"
  by (simp_all add: adoptConfig_eq)

lemma groupApply_cases:
  assumes "groupApply t op s = Inr (err, s')"
  obtains (noop) "goType op = ''Noop''" "s' = s\<lparr>gNoopAppliedTerm := t\<rparr>"
  | (config) "goType op = ''Config''" "s' = adoptConfig (goConfig op) s"
  | (migrate) "goType op = ''Migrate''" "s' = landMigrate op s"
  | (gc) "goType op = ''GC''" "s' = collectShard op s"
  | (refused) "goType op \<in> {''Put'', ''Append''}" "\<not> ownsLocked (goKey op) s" "s' = s" "err = GroupErrWrongGroup"
  | (written) "goType op \<in> {''Put'', ''Append''}" "ownsLocked (goKey op) s" "s' = writeKey op s" "err = GroupOK"
proof -
  consider "goType op = ''Noop''" | "goType op = ''Config''" | "goType op = ''Migrate''" | "goType op = ''GC''"
    | "goType op \<in> {''Put'', ''Append''}" | "goType op \<notin> {''Noop'', ''Config'', ''Migrate'', ''GC'', ''Put'', ''Append''}"
    by (rule six_cases)
  then show ?thesis
  proof cases
    case 1
    then show ?thesis using assms noop by (simp add: groupApply_def)
  next
    case 2
    then show ?thesis using assms config by (simp add: groupApply_def)
  next
    case 3
    then show ?thesis using assms migrate by (simp add: groupApply_def)
  next
    case 4
    then show ?thesis using assms gc by (simp add: groupApply_def)
  next
    case 5
    then have eq: "groupApply t op s =
        (if \<not> ownsLocked (goKey op) s then Inr (GroupErrWrongGroup, s) else Inr (GroupOK, writeKey op s))"
      by (elim insertE emptyE) (simp_all add: groupApply_def)
    show ?thesis
    proof (cases "ownsLocked (goKey op) s")
      case True
      then show ?thesis using eq assms by (intro written [OF 5 True]) simp_all
    next
      case False
      then show ?thesis using eq assms by (intro refused [OF 5 False]) simp_all
    qed
  qed (use assms in \<open>simp add: groupApply_def\<close>)
qed

lemma entry_frame:
  "gid (landMigrate op s) = gid s" "gid (collectShard op s) = gid s" "gid (writeKey op s) = gid s"
  "gDuplicateTable (collectShard op s) = gDuplicateTable s"
  by (simp_all add: landMigrate_def collectShard_def writeKey_def Let_def)

lemma groupApply_gid: "groupApply t op s = Inr (err, s') \<Longrightarrow> gid s' = gid s"
  by (erule groupApply_cases) (simp_all add: adoptConfig_frame entry_frame)

section \<open>At most once, also across a hand-over\<close>

lemma groupApply_dup_mono:
  "groupApply t op s = Inr (err, s') \<Longrightarrow> get0 (gDuplicateTable s) c \<le> get0 (gDuplicateTable s') c"
  by (erule groupApply_cases)
     (simp_all add: adoptConfig_frame entry_frame landMigrate_def writeKey_def mergeDup_mono Let_def)

lemma groupRun_dup_mono:
  "run_log groupStep ops s = Inr s' \<Longrightarrow> get0 (gDuplicateTable s) c \<le> get0 (gDuplicateTable s') c"
proof (induction ops arbitrary: s)
  case (Cons x ops)
  then obtain s1 where s1: "groupStep x s = Inr s1" "run_log groupStep ops s1 = Inr s'" by auto
  then obtain err where "groupApply (fst x) (snd x) s = Inr (err, s1)" by (auto simp: groupStep_def)
  from groupApply_dup_mono [OF this] Cons.IH [OF s1(2)] show ?case by (rule order_trans)
qed simp

lemma seen_no_effect:
  assumes "goType op \<in> {''Put'', ''Append''}" "goSeqNum op \<le> get0 (gDuplicateTable s) (goClientID op)"
  shows "\<exists>err. groupApply t op s = Inr (err, s)"
  using assms(1)
  by (elim insertE emptyE; cases "ownsLocked (goKey op) s") (use assms(2) in \<open>simp_all add: groupApply_def writeKey_def\<close>)

definition migrateOp :: "nat \<Rightarrow> PullReply \<Rightarrow> groupOp" where
  "migrateOp shard reply = emptyGroupOp\<lparr>goType := ''Migrate'', goShard := shard,
     goData := plData reply, goDupTable := plDupTable reply\<rparr>"

lemma Pull_OK:
  assumes "plErr (Pull shard n d) = GroupOK"
  shows "plData (Pull shard n d) = (\<lambda>k. if Key2Shard k = shard then gStore d k else None)"
    "plDupTable (Pull shard n d) = gDuplicateTable d" "n \<le> Num (cfg d)" "migrating d shard = None"
  using assms by (auto simp: Pull_def split: if_splits)

lemma landMigrate_pulled:
  assumes "plErr (Pull shard n d) = GroupOK" "migrating s shard \<noteq> None"
  shows "landMigrate (migrateOp shard (Pull shard n d)) s =
     s\<lparr>gStore := (\<lambda>k. if Key2Shard k = shard \<and> gStore d k \<noteq> None then gStore d k else gStore s k),
       gDuplicateTable := mergeDup (gDuplicateTable s) (gDuplicateTable d),
       migrating := (migrating s)(shard := None)\<rparr>"
proof -
  have "gStore s ++ plData (Pull shard n d) =
      (\<lambda>k. if Key2Shard k = shard \<and> gStore d k \<noteq> None then gStore d k else gStore s k)"
    unfolding Pull_OK(1) [OF assms(1)] by (rule ext) (auto simp: map_add_def split: option.splits)
  then show ?thesis
    using assms(2) Pull_OK(2) [OF assms(1)] by (simp add: landMigrate_def migrateOp_def emptyGroupOp_def)
qed

text \<open>
  (C24) Handing over a shard: when the new owner lands the answer of a successful \<open>Pull\<close>, it holds the
  donor's value for every key of that shard, the keys of all other shards keep their values, the
  shard is no longer waiting, and a write the donor has applied is recognised as a duplicate from then
  on: however the log of the new owner continues, a retry of it there changes nothing.
\<close>

theorem handover_exactly_once:
  assumes "plErr (Pull shard n d) = GroupOK" "migrating s shard \<noteq> None"
    and "groupApply t (migrateOp shard (Pull shard n d)) s = Inr (err, s')"
    and "gDuplicateTable d (goClientID op) = Some sn" "goSeqNum op \<le> sn" "goType op \<in> {''Put'', ''Append''}"
    and "run_log groupStep ops s' = Inr s''"
  shows "(\<forall>k. Key2Shard k = shard \<and> gStore d k \<noteq> None \<longrightarrow> gStore s' k = gStore d k) \<and>
     (\<forall>k. Key2Shard k \<noteq> shard \<longrightarrow> gStore s' k = gStore s k) \<and>
     migrating s' shard = None \<and> cfg s' = cfg s \<and>
     (\<exists>err'. groupApply t' op s'' = Inr (err', s''))"
proof -
  have s': "s' = landMigrate (migrateOp shard (Pull shard n d)) s"
    using assms(3) by (simp add: groupApply_def migrateOp_def emptyGroupOp_def)
  note s' = s' [unfolded landMigrate_pulled [OF assms(1,2)]]
  have "get0 (gDuplicateTable s') (goClientID op) = max sn (get0 (gDuplicateTable s) (goClientID op))"
    using mergeDup_Some [of "gDuplicateTable d" "goClientID op" sn] assms(4) s' by simp
  then have "goSeqNum op \<le> get0 (gDuplicateTable s'') (goClientID op)"
    using groupRun_dup_mono [OF assms(7), of "goClientID op"] assms(5) by simp
  from seen_no_effect [OF assms(6) this] s' show ?thesis by auto
qed

section \<open>A given-away shard is frozen\<close>

text \<open>
  The entries after which a shard the group does not own stays as it is: no configuration gives it
  back, it is not collected, and a migration lands only data of its own, different shard.
\<close>

definition leavesAlone :: "int \<Rightarrow> nat \<Rightarrow> groupOp \<Rightarrow> bool" where
  "leavesAlone g i op \<longleftrightarrow>
     (goType op = ''Config'' \<longrightarrow> Shards (goConfig op) ! i \<noteq> g) \<and>
     (goType op = ''GC'' \<longrightarrow> goShard op \<noteq> i) \<and>
     (goType op = ''Migrate'' \<longrightarrow> goShard op \<noteq> i \<and> (\<forall>k. goData op k \<noteq> None \<longrightarrow> Key2Shard k = goShard op))"

definition shardData :: "nat \<Rightarrow> GroupServer \<Rightarrow> string \<rightharpoonup> string" where
  "shardData i s = (\<lambda>k. if Key2Shard k = i then gStore s k else None)"

lemma frozen_step:
  assumes "groupApply t op s = Inr (err, s')" "leavesAlone (gid s) i op" "Shards (cfg s) ! i \<noteq> gid s"
  shows "Shards (cfg s') ! i \<noteq> gid s' \<and> gid s' = gid s \<and> shardData i s' = shardData i s"
  using assms(1)
proof (cases rule: groupApply_cases)
  case config
  then show ?thesis using assms(2,3) by (simp add: leavesAlone_def adoptConfig_frame shardData_def cong: if_cong)
next
  case migrate
  have "goData op k = None" if "Key2Shard k = i" for k
    using migrate(1) assms(2) that unfolding leavesAlone_def by metis
  then have "shardData i (landMigrate op s) = shardData i s"
    by (intro ext) (simp add: landMigrate_def shardData_def map_add_def)
  then show ?thesis using migrate assms(3) by (simp add: landMigrate_def)
next
  case gc
  then have "shardData i (collectShard op s) = shardData i s"
    using assms(2) by (intro ext) (simp add: leavesAlone_def collectShard_def shardData_def)
  then show ?thesis using gc assms(3) by (simp add: collectShard_def)
next
  case written
  then have "Key2Shard (goKey op) \<noteq> i" using assms(3) by (auto simp: ownsLocked_def Let_def)
  then have "shardData i (writeKey op s) = shardData i s"
    by (intro ext) (auto simp: writeKey_def shardData_def Let_def)
  then show ?thesis using written assms(3) by (simp add: writeKey_def Let_def)
qed (use assms(3) in \<open>simp_all add: shardData_def cong: if_cong\<close>)

text \<open>
  A shard given away is frozen: from the moment the applied configuration assigns it to another
  group, and until a later configuration gives it back, it is collected or migrated in again, no
  sequence of log entries changes any of its keys, so every replica answers every later \<open>Pull\<close> with
  the same data.
\<close>

theorem frozen_shard:
  assumes "run_log groupStep ops s = Inr s'" "Shards (cfg s) ! i \<noteq> gid s"
    and "\<forall>x \<in> set ops. leavesAlone (gid s) i (snd x)"
  shows "shardData i s' = shardData i s \<and>
     (plErr (Pull i n s') = GroupOK \<longrightarrow> plData (Pull i n s') = shardData i s)"
proof -
  have "shardData i s' = shardData i s"
    using assms
  proof (induction ops arbitrary: s)
    case (Cons x ops)
    then obtain s1 where s1: "groupStep x s = Inr s1" "run_log groupStep ops s1 = Inr s'" by auto
    then obtain err where "groupApply (fst x) (snd x) s = Inr (err, s1)" by (auto simp: groupStep_def)
    from frozen_step [OF this] Cons.prems(2,3) Cons.IH [OF s1(2)] show ?case by auto
  qed simp
  then show ?thesis using Pull_OK(1) [of i n s'] by (auto simp: shardData_def)
qed

section \<open>Worked examples\<close>

text \<open>
  Three configurations over the groups 1 and 2, numbered as the controller would: everything on
  group 1, then shard 0 on group 2, then shard 0 back on group 1. The key \<open>''a''\<close> lies in shard 0.
\<close>

definition exCfg :: "int \<Rightarrow> int \<Rightarrow> Config" where
  "exCfg n g = \<lparr>Num = n, Shards = g # replicate (NShards - 1) 1, Groups = [(1, []), (2, [])]\<rparr>"

definition exGroup :: "int \<Rightarrow> GroupServer" where
  "exGroup g = \<lparr>grf = NewRaft 1 [2, 3], gid = g, cfg = zeroConfig, gStore = Map.empty, migrating = Map.empty,
     leaving = Map.empty, gNotifyChans = Map.empty, gChans = Map.empty, gNextChan = 0,
     gDuplicateTable = Map.empty, gNoopAppliedTerm = 0, gMaxRaftState = -1\<rparr>"

definition exConfigOp :: "int \<Rightarrow> int \<Rightarrow> int \<times> groupOp" where
  "exConfigOp n g = (1, emptyGroupOp\<lparr>goType := ''Config'', goConfig := exCfg n g\<rparr>)"

definition exPutA :: groupOp where
  "exPutA = emptyGroupOp\<lparr>goType := ''Put'', goKey := ''a'', goValue := ''v'', goClientID := 7, goSeqNum := 1\<rparr>"

definition exGC :: "int \<times> groupOp" where
  "exGC = (1, emptyGroupOp\<lparr>goType := ''GC'', goShard := 0\<rparr>)"

lemma exGroup_new: "NewGroupServer (NewRaft 1 [2, 3]) g (-1) = Inr (exGroup g)"
  by (simp add: NewGroupServer_def exGroup_def ReadSnapshot_def NewRaft_def newRaft_def restoreLocked_def)

lemma Key2Shard_a: "Key2Shard ''a'' = 0"
  by (simp add: Key2Shard_def fnv1a_def NShards_def)

lemma exCfg_at [simp]: "Num (exCfg n g) = n" "i < NShards \<Longrightarrow> Shards (exCfg n g) ! i = (if i = 0 then g else 1)"
  by (simp_all add: exCfg_def nth_Cons')

lemma zero_at [simp]: "Num zeroConfig = 0" "i < NShards \<Longrightarrow> Shards zeroConfig ! i = 0"
  by (simp_all add: zeroConfig_def)

lemma NShards_pos [simp]: "0 < NShards"
  by (simp add: NShards_def)

lemma exConfig_step:
  assumes "n = Num (cfg s) + 1"
  shows "groupStep (exConfigOp n g) s = Inr (s\<lparr>cfg := exCfg n g,
     migrating := (\<lambda>i. if i < NShards \<and> gains (cfg s) (exCfg n g) (gid s) i then Some (Shards (cfg s) ! i)
                       else migrating s i),
     leaving := (\<lambda>i. if i < NShards \<and> loses (cfg s) (exCfg n g) (gid s) i then Some (Shards (exCfg n g) ! i)
                     else leaving s i)\<rparr>)"
  unfolding assms by (simp add: groupStep_def groupApply_def exConfigOp_def emptyGroupOp_def adoptConfig_eq)

text \<open>The states the examples pass through, on group 1 and on group 2.\<close>

definition exOwner :: GroupServer where
  "exOwner = (exGroup 1)\<lparr>cfg := exCfg 1 1, gStore := [''a'' \<mapsto> ''v''], gDuplicateTable := [7 \<mapsto> 1]\<rparr>"

definition exDonor :: GroupServer where
  "exDonor = exOwner\<lparr>cfg := exCfg 2 2, leaving := [0 \<mapsto> 2]\<rparr>"

definition exBack :: GroupServer where
  "exBack = exDonor\<lparr>cfg := exCfg 3 1, migrating := [0 \<mapsto> 2]\<rparr>"

definition exTaker :: GroupServer where
  "exTaker = (exGroup 2)\<lparr>cfg := exCfg 2 2, migrating := [0 \<mapsto> 1]\<rparr>"

definition exLanded :: GroupServer where
  "exLanded = (exGroup 2)\<lparr>cfg := exCfg 2 2, gStore := [''a'' \<mapsto> ''v''], gDuplicateTable := [7 \<mapsto> 1]\<rparr>"

definition exMoved :: GroupServer where
  "exMoved = exLanded\<lparr>cfg := exCfg 3 1, leaving := [0 \<mapsto> 1]\<rparr>"

lemmas ex_states = exOwner_def exDonor_def exBack_def exTaker_def exLanded_def exMoved_def exGroup_def

lemma exOwner_run: "run_log groupStep [exConfigOp 1 1, (1, exPutA)] (exGroup 1) = Inr exOwner"
  by (simp add: exConfig_step exGroup_def gains_def loses_def cong: conj_cong)
     (simp add: groupStep_def groupApply_def emptyGroupOp_def exPutA_def ownsLocked_def
        Key2Shard_a writeKey_def ex_states)

lemma exDonor_step: "groupStep (exConfigOp 2 2) exOwner = Inr exDonor"
  by (simp add: exConfig_step ex_states gains_def loses_def fun_eq_iff cong: conj_cong)

lemma exBack_step: "groupStep (exConfigOp 3 1) exDonor = Inr exBack"
  by (simp add: exConfig_step ex_states gains_def loses_def fun_eq_iff cong: conj_cong)

lemma exTaker_run: "run_log groupStep [exConfigOp 1 1, exConfigOp 2 2] (exGroup 2) = Inr exTaker"
  by (simp add: exConfig_step ex_states gains_def loses_def fun_eq_iff cong: conj_cong)

lemma exMoved_step: "groupStep (exConfigOp 3 1) exLanded = Inr exMoved"
  by (simp add: exConfig_step ex_states gains_def loses_def fun_eq_iff cong: conj_cong)

lemma exPull:
  "plErr (Pull 0 2 exDonor) = GroupOK" "plErr (Pull 0 3 exMoved) = GroupOK"
  by (simp_all add: Pull_def ex_states)

lemma exLanded_step: "groupStep (1, migrateOp 0 (Pull 0 2 exDonor)) exTaker = Inr exLanded"
proof -
  have m: "migrating exTaker 0 \<noteq> None" by (simp add: ex_states)
  have "landMigrate (migrateOp 0 (Pull 0 2 exDonor)) exTaker = exLanded"
    unfolding landMigrate_pulled [OF exPull(1) m]
    by (auto simp: ex_states mergeDup_def fun_eq_iff Key2Shard_a get0_def split: option.split)
  then show ?thesis by (simp add: groupStep_def groupApply_def migrateOp_def emptyGroupOp_def)
qed

lemma exHome_step:
  "groupStep (1, migrateOp 0 (Pull 0 3 exMoved)) exBack = Inr (exBack\<lparr>migrating := Map.empty\<rparr>)"
proof -
  have m: "migrating exBack 0 \<noteq> None" by (simp add: ex_states)
  have "landMigrate (migrateOp 0 (Pull 0 3 exMoved)) exBack = exBack\<lparr>migrating := Map.empty\<rparr>"
    unfolding landMigrate_pulled [OF exPull(2) m]
    by (auto simp: ex_states mergeDup_def fun_eq_iff Key2Shard_a get0_def split: option.split)
  then show ?thesis by (simp add: groupStep_def groupApply_def migrateOp_def emptyGroupOp_def)
qed

theorem handover_exactly_once_witness:
  "groupApply 1 (migrateOp 0 (Pull 0 2 exDonor)) exTaker = Inr (GroupOK, exLanded) \<and>
   gStore exLanded ''a'' = gStore exDonor ''a'' \<and> (\<exists>err. groupApply 2 exPutA exLanded = Inr (err, exLanded))"
proof -
  have land: "groupApply 1 (migrateOp 0 (Pull 0 2 exDonor)) exTaker = Inr (GroupOK, exLanded)"
    using exLanded_step by (simp add: groupStep_def groupApply_def migrateOp_def emptyGroupOp_def)
  have "(\<forall>k. Key2Shard k = 0 \<and> gStore exDonor k \<noteq> None \<longrightarrow> gStore exLanded k = gStore exDonor k) \<and>
     (\<forall>k. Key2Shard k \<noteq> 0 \<longrightarrow> gStore exLanded k = gStore exTaker k) \<and>
     migrating exLanded 0 = None \<and> cfg exLanded = cfg exTaker \<and>
     (\<exists>err'. groupApply 2 exPutA exLanded = Inr (err', exLanded))"
    by (rule handover_exactly_once [OF exPull(1) _ land, where sn = 1 and ops = "[]"])
       (simp_all add: ex_states exPutA_def emptyGroupOp_def)
  moreover have "gStore exDonor ''a'' \<noteq> None" by (simp add: ex_states)
  ultimately show ?thesis using land Key2Shard_a by blast
qed

theorem frozen_shard_witness:
  "\<exists>s'. run_log groupStep [(2, exPutA\<lparr>goSeqNum := 5, goValue := ''w''\<rparr>)] exDonor = Inr s' \<and>
     plData (Pull 0 2 s') ''a'' = Some ''v''"
proof -
  let ?ops = "[(2, exPutA\<lparr>goSeqNum := 5, goValue := ''w''\<rparr>)] :: (int \<times> groupOp) list"
  have run: "run_log groupStep ?ops exDonor = Inr exDonor"
    by (simp add: groupStep_def groupApply_def exPutA_def emptyGroupOp_def ownsLocked_def Key2Shard_a ex_states)
  have "shardData 0 exDonor = shardData 0 exDonor \<and>
     (plErr (Pull 0 2 exDonor) = GroupOK \<longrightarrow> plData (Pull 0 2 exDonor) = shardData 0 exDonor)"
    by (rule frozen_shard [OF run]) (simp_all add: ex_states leavesAlone_def exPutA_def emptyGroupOp_def)
  then have "plData (Pull 0 2 exDonor) ''a'' = Some ''v''"
    using exPull(1) by (simp add: shardData_def Key2Shard_a ex_states)
  with run show ?thesis by blast
qed

section \<open>Shards that come back\<close>

text \<open>
  (C26) Garbage collection can delete a live shard. Group 1 writes \<open>''a''\<close>, gives its shard to group 2
  and gets it back by a completed migration; its \<open>leaving\<close> entry of the first transition is still
  there. A replica of group 2 that has not yet applied the third configuration answers \<open>HasShard\<close> with
  true, so the \<open>GC\<close> entry is proposed, and when group 1 applies it, it deletes the data of a shard
  it owns and serves.
\<close>

theorem gc_deletes_live_shard:
  "\<exists>donor landed moved s s'.
     run_log groupStep [exConfigOp 1 1, (1, exPutA), exConfigOp 2 2] (exGroup 1) = Inr donor \<and>
     run_log groupStep [exConfigOp 1 1, exConfigOp 2 2, (1, migrateOp 0 (Pull 0 2 donor))] (exGroup 2) = Inr landed \<and>
     groupStep (exConfigOp 3 1) landed = Inr moved \<and>
     run_log groupStep [exConfigOp 3 1, (1, migrateOp 0 (Pull 0 3 moved))] donor = Inr s \<and>
     ownsLocked ''a'' s \<and> gStore s ''a'' = Some ''v'' \<and>
     leaving s 0 = Some 2 \<and> recipientReady [moved, landed] 0 \<and>
     groupStep exGC s = Inr s' \<and> ownsLocked ''a'' s' \<and> gStore s' ''a'' = None"
proof (intro exI conjI)
  show "run_log groupStep [exConfigOp 1 1, (1, exPutA), exConfigOp 2 2] (exGroup 1) = Inr exDonor"
    using exOwner_run exDonor_step by auto
  show "run_log groupStep [exConfigOp 1 1, exConfigOp 2 2, (1, migrateOp 0 (Pull 0 2 exDonor))] (exGroup 2) = Inr exLanded"
    using exTaker_run exLanded_step by auto
  show "groupStep (exConfigOp 3 1) exLanded = Inr exMoved" by (rule exMoved_step)
  let ?s = "exBack\<lparr>migrating := Map.empty\<rparr>"
  show "run_log groupStep [exConfigOp 3 1, (1, migrateOp 0 (Pull 0 3 exMoved))] exDonor = Inr ?s"
    using exBack_step exHome_step by simp
  show "groupStep exGC ?s = Inr (collectShard (snd exGC) ?s)"
    by (simp add: groupStep_def groupApply_def exGC_def emptyGroupOp_def)
qed (simp_all add: exGC_def emptyGroupOp_def collectShard_def ownsLocked_def HasShard_def Key2Shard_a ex_states)

text \<open>What a tick of the migration loop appends to the log of its node.\<close>

lemma Propose_log:
  assumes "Propose c r = ((i, t, isLeader), r')"
  shows "log r' = (if isLeader then log r @ [\<lparr>entryTerm = currentTerm r, entryCommand = c\<rparr>] else log r) \<and>
     state r' = state r"
  using assms by (auto simp: Propose_def Let_def split: if_splits)

lemma migrateOne_log:
  assumes "migrateOne groupsAt n pending shard (proposed, s) = (proposed', s')"
  shows "\<exists>new. log (grf s') = log (grf s) @ new \<and>
     (\<forall>e \<in> set new. \<not> proposed (goShard (entryCommand e)) \<and>
        (\<exists>g. pending (goShard (entryCommand e)) = Some g \<and>
             pullFrom (groupsAt g) (goShard (entryCommand e)) n \<noteq> None)) \<and>
     (\<forall>i. proposed i \<longrightarrow> proposed' i)"
  using assms
  by (auto simp: migrateOne_def emptyGroupOp_def dest!: Propose_log split: option.splits if_splits prod.splits)

lemma migrateAll_log:
  assumes "fold (migrateOne groupsAt n pending) order (proposed, s) = (proposed', s')"
  shows "\<exists>new. log (grf s') = log (grf s) @ new \<and>
     (\<forall>e \<in> set new. \<not> proposed (goShard (entryCommand e)) \<and>
        (\<exists>g. pending (goShard (entryCommand e)) = Some g \<and>
             pullFrom (groupsAt g) (goShard (entryCommand e)) n \<noteq> None)) \<and>
     (\<forall>i. proposed i \<longrightarrow> proposed' i)"
  using assms
proof (induction order arbitrary: proposed s)
  case (Cons x order)
  obtain p1 s1 where 1: "migrateOne groupsAt n pending x (proposed, s) = (p1, s1)" by fastforce
  from migrateOne_log [OF 1] obtain new1 where new1: "log (grf s1) = log (grf s) @ new1"
    "\<forall>e \<in> set new1. \<not> proposed (goShard (entryCommand e)) \<and>
        (\<exists>g. pending (goShard (entryCommand e)) = Some g \<and>
             pullFrom (groupsAt g) (goShard (entryCommand e)) n \<noteq> None)"
    "\<forall>i. proposed i \<longrightarrow> p1 i" by auto
  from Cons.IH [of p1 s1] Cons.prems 1 obtain new2 where new2: "log (grf s') = log (grf s1) @ new2"
    "\<forall>e \<in> set new2. \<not> p1 (goShard (entryCommand e)) \<and>
        (\<exists>g. pending (goShard (entryCommand e)) = Some g \<and>
             pullFrom (groupsAt g) (goShard (entryCommand e)) n \<noteq> None)"
    "\<forall>i. p1 i \<longrightarrow> proposed' i" by auto
  show ?case
    by (rule exI [of _ "new1 @ new2"]) (use new1 new2 in auto)
qed simp

lemma pullFrom_NotReady:
  "\<forall>d \<in> set ds. migrating d i \<noteq> None \<Longrightarrow> pullFrom ds i n = None"
  by (induction ds) (auto simp: Pull_def)

text \<open>
  A shard bounces between the groups \<open>a\<close> and \<open>b\<close> when it is handed back before it was pulled: every
  replica of both groups then waits for the other one.
\<close>

definition bounced :: "int \<Rightarrow> int \<Rightarrow> nat \<Rightarrow> GroupServer \<Rightarrow> bool" where
  "bounced a b i s \<longleftrightarrow> migrating s i \<in> {Some a, Some b} \<and> Shards (cfg s) ! i \<in> {a, b}"

definition keepsBouncing :: "int \<Rightarrow> int \<Rightarrow> nat \<Rightarrow> groupOp \<Rightarrow> bool" where
  "keepsBouncing a b i op \<longleftrightarrow> (goType op = ''Migrate'' \<longrightarrow> goShard op \<noteq> i) \<and>
     (goType op = ''Config'' \<longrightarrow> Shards (goConfig op) ! i \<in> {a, b})"

lemma bounced_step:
  assumes "groupApply t op s = Inr (err, s')" "keepsBouncing a b i op" "bounced a b i s"
  shows "bounced a b i s'"
  using assms(1)
  by (cases rule: groupApply_cases)
     (use assms(2,3) in \<open>auto simp: bounced_def keepsBouncing_def adoptConfig_eq landMigrate_def collectShard_def
        writeKey_def Let_def gains_def\<close>)

lemma bounced_run:
  "run_log groupStep ops s = Inr s' \<Longrightarrow> \<forall>x \<in> set ops. keepsBouncing a b i (snd x) \<Longrightarrow> bounced a b i s \<Longrightarrow>
   bounced a b i s'"
proof (induction ops arbitrary: s)
  case (Cons x ops)
  then obtain s1 where s1: "groupStep x s = Inr s1" "run_log groupStep ops s1 = Inr s'" by auto
  then obtain err where "groupApply (fst x) (snd x) s = Inr (err, s1)" by (auto simp: groupStep_def)
  from bounced_step [OF this] Cons.prems(2,3) Cons.IH [OF s1(2)] show ?case by auto
qed simp

text \<open>
  (C27) A shard handed back before it was pulled is never served again. While every replica of the two
  groups waits for the other, no tick of the migration loop of either group proposes a \<open>Migrate\<close>
  entry for the shard, and as long as none is applied and the configurations leave the shard with
  one of the two, every replica goes on waiting and refuses every key of the shard.
\<close>

theorem migration_deadlock:
  assumes "\<forall>g \<in> {a, b}. \<forall>r \<in> set (groupsAt g). bounced a b i r" "s \<in> set (groupsAt a) \<union> set (groupsAt b)"
  shows "(\<forall>order proposed proposed' s'. migrationLoop_tick groupsAt order proposed s = (proposed', s') \<longrightarrow>
       (\<exists>new. log (grf s') = log (grf s) @ new \<and> (\<forall>e \<in> set new. goShard (entryCommand e) \<noteq> i))) \<and>
     (\<forall>ops s' key. run_log groupStep ops s = Inr s' \<longrightarrow> (\<forall>x \<in> set ops. keepsBouncing a b i (snd x)) \<longrightarrow>
       Key2Shard key = i \<longrightarrow> bounced a b i s' \<and> \<not> ownsLocked key s')"
proof (intro conjI allI impI)
  fix order proposed proposed' s'
  assume tick: "migrationLoop_tick groupsAt order proposed s = (proposed', s')"
  have s: "bounced a b i s" using assms by auto
  have none: "pullFrom (groupsAt g) i (Num (cfg s)) = None" if "migrating s i = Some g" for g
    using that s assms(1) by (intro pullFrom_NotReady) (auto simp: bounced_def)
  show "\<exists>new. log (grf s') = log (grf s) @ new \<and> (\<forall>e \<in> set new. goShard (entryCommand e) \<noteq> i)"
  proof (cases "state (grf s) = Leader")
    case True
    from migrateAll_log [OF tick [unfolded migrationLoop_tick_def, simplified True, simplified]] none show ?thesis
      by fastforce
  qed (use tick in \<open>auto simp: migrationLoop_tick_def\<close>)
next
  fix ops s' key
  assume "run_log groupStep ops s = Inr s'" "\<forall>x \<in> set ops. keepsBouncing a b i (snd x)" "Key2Shard key = i"
  moreover have "bounced a b i s" using assms by auto
  ultimately show "bounced a b i s'" "\<not> ownsLocked key s'"
    using bounced_run [of ops s s' a b i] by (auto simp: bounced_def ownsLocked_def Let_def)
qed

lemma exStuck_run:
  "groupStep (exConfigOp 3 1) exTaker = Inr (exTaker\<lparr>cfg := exCfg 3 1, leaving := [0 \<mapsto> 1]\<rparr>)"
  by (simp add: exConfig_step ex_states gains_def loses_def fun_eq_iff cong: conj_cong)

theorem migration_deadlock_witness:
  "\<exists>one two. run_log groupStep [exConfigOp 1 1, (1, exPutA), exConfigOp 2 2, exConfigOp 3 1] (exGroup 1) = Inr one \<and>
     run_log groupStep [exConfigOp 1 1, exConfigOp 2 2, exConfigOp 3 1] (exGroup 2) = Inr two \<and>
     gStore one ''a'' = Some ''v'' \<and> \<not> ownsLocked ''a'' one \<and> \<not> ownsLocked ''a'' two"
proof (intro exI conjI)
  let ?two = "exTaker\<lparr>cfg := exCfg 3 1, leaving := [0 \<mapsto> 1]\<rparr>"
  let ?at = "\<lambda>g :: int. if g = 1 then [exBack] else [?two]"
  show "run_log groupStep [exConfigOp 1 1, (1, exPutA), exConfigOp 2 2, exConfigOp 3 1] (exGroup 1) = Inr exBack"
    using exOwner_run exDonor_step exBack_step by auto
  show "run_log groupStep [exConfigOp 1 1, exConfigOp 2 2, exConfigOp 3 1] (exGroup 2) = Inr ?two"
    using exTaker_run exStuck_run by auto
  have stuck: "\<forall>g \<in> {1, 2}. \<forall>r \<in> set (?at g). bounced 1 2 0 r"
    by (simp add: bounced_def ex_states)
  have one: "exBack \<in> set (?at 1) \<union> set (?at 2)" and two: "?two \<in> set (?at 1) \<union> set (?at 2)" by simp_all
  show "\<not> ownsLocked ''a'' exBack"
    using conjunct2 [OF migration_deadlock [OF stuck one], rule_format, of "[]" exBack "''a''"] Key2Shard_a by simp
  show "\<not> ownsLocked ''a'' ?two"
    using conjunct2 [OF migration_deadlock [OF stuck two], rule_format, of "[]" ?two "''a''"] Key2Shard_a by simp
qed (simp add: ex_states)

text \<open>
  A leader migrates a shard in at most once: the mark it sets when it proposes a \<open>Migrate\<close> entry is
  cleared only when it stops leading, so while it leads, no later tick proposes an entry for that
  shard again, also when the shard has been given away and gained again in between.
\<close>

theorem migrates_once_per_leadership:
  assumes "migrationLoop_tick groupsAt order proposed s = (proposed', s')" "state (grf s) = Leader" "proposed i"
  shows "proposed' i \<and> (\<exists>new. log (grf s') = log (grf s) @ new \<and> (\<forall>e \<in> set new. goShard (entryCommand e) \<noteq> i))"
  using migrateAll_log [OF assms(1) [unfolded migrationLoop_tick_def, simplified assms(2), simplified]] assms(3)
  by fastforce

definition exLeads :: "(groupOp, groupSnapshot) Raft" where
  "exLeads = (NewRaft 1 [2, 3])\<lparr>state := Leader, currentTerm := 1\<rparr>"

theorem migrates_once_per_leadership_witness:
  "\<exists>p s'. migrationLoop_tick (\<lambda>_. [exMoved]) [0] ((\<lambda>_. False)(0 := True)) (exBack\<lparr>grf := exLeads\<rparr>) = (p, s') \<and>
     pullFrom [exMoved] 0 3 \<noteq> None \<and> migrating s' 0 = Some 2 \<and> p 0 \<and>
     (\<forall>e \<in> set (log (grf s')). goShard (entryCommand e) \<noteq> 0)"
proof -
  let ?tick = "migrationLoop_tick (\<lambda>_. [exMoved]) [0] ((\<lambda>_. False)(0 := True)) (exBack\<lparr>grf := exLeads\<rparr>)"
  have tick: "?tick = ((\<lambda>_. False)(0 := True), exBack\<lparr>grf := exLeads\<rparr>)"
    by (simp add: migrationLoop_tick_def migrateOne_def exLeads_def split: option.split)
  have "log exLeads = []" by (simp add: exLeads_def NewRaft_def newRaft_def restoreLocked_def)
  with migrates_once_per_leadership [OF tick, of 0] tick exPull(2) show ?thesis
    by (simp add: exLeads_def ex_states)
qed

end
