(* ===== verification/History.thy ===== *)
theory History
  imports Prelude
begin

text \<open>
  Recorded histories and the linearizability checker (\<open>src/05-sharded-kv/history.go\<close>). Instants are
  integers. The search works on the 64-bit mask of the code and threads the memo table through its
  recursion; the loop over the entries and the recursive call are one partial function whose index
  says where the loop stands, so that a search that does not return would be \<open>None\<close>. The order in which
  the map of keys is iterated is an argument.
\<close>

unbundle bit_operations_syntax

section \<open>Histories\<close>

datatype OpKind = OpGet | OpPut | OpAppend

record HistoryEntry =
  heClientID :: int
  heKey :: string
  heKind :: OpKind
  heArg :: string
  heResult :: string
  heInvoke :: int
  heReturn :: int

record HistoryLog =
  hEntries :: "HistoryEntry list"

definition NewHistory :: HistoryLog where
  "NewHistory = \<lparr>hEntries = []\<rparr>"

definition hRecord :: "HistoryEntry \<Rightarrow> HistoryLog \<Rightarrow> HistoryLog" where
  "hRecord e h = h\<lparr>hEntries := hEntries h @ [e]\<rparr>"

section \<open>The checker\<close>

definition happensBeforeInHistory :: "HistoryEntry \<Rightarrow> HistoryEntry \<Rightarrow> bool" where
  "happensBeforeInHistory a b \<longleftrightarrow> \<not> heReturn a > heInvoke b"

definition placed :: "64 word \<Rightarrow> nat \<Rightarrow> bool" where
  "placed used j \<longleftrightarrow> used AND push_bit j 1 \<noteq> 0"

definition linearizableReadyNext :: "HistoryEntry list \<Rightarrow> 64 word \<Rightarrow> nat \<Rightarrow> bool" where
  "linearizableReadyNext entries used i \<longleftrightarrow>
     list_all (\<lambda>j. j = i \<or> placed used j \<or> \<not> happensBeforeInHistory (entries ! j) (entries ! i)) [0..<length entries]"

definition OnesCount64 :: "64 word \<Rightarrow> nat" where
  "OnesCount64 used = length (filter (bit used) [0..<64])"

definition nextValue :: "HistoryEntry \<Rightarrow> string \<Rightarrow> string" where
  "nextValue e value = (case heKind e of OpGet \<Rightarrow> value | OpPut \<Rightarrow> heArg e | OpAppend \<Rightarrow> value @ heArg e)"

definition resultOK :: "HistoryEntry \<Rightarrow> string \<Rightarrow> bool" where
  "resultOK e value = (case heKind e of OpGet \<Rightarrow> heResult e = value | _ \<Rightarrow> True)"

type_synonym linMemo = "(64 word \<times> string) set"

partial_function (option) linearizableLoop ::
    "HistoryEntry list \<Rightarrow> nat \<Rightarrow> 64 word \<Rightarrow> string \<Rightarrow> linMemo \<Rightarrow> (bool \<times> linMemo) option" where
  "linearizableLoop entries i used value memo =
     (if i = 0 \<and> OnesCount64 used = length entries then Some (True, memo)
      else if i = 0 \<and> (used, value) \<in> memo then Some (False, memo)
      else if i \<ge> length entries then Some (False, insert (used, value) memo)
      else if placed used i \<or> \<not> linearizableReadyNext entries used i \<or> \<not> resultOK (entries ! i) value
        then linearizableLoop entries (i + 1) used value memo
      else Option.bind (linearizableLoop entries 0 (used OR push_bit i 1) (nextValue (entries ! i) value) memo)
             (\<lambda>(found, memo'). if found then Some (True, memo') else linearizableLoop entries (i + 1) used value memo'))"

definition linearizableSearch :: "HistoryEntry list \<Rightarrow> 64 word \<Rightarrow> string \<Rightarrow> linMemo \<Rightarrow> (bool \<times> linMemo) option" where
  "linearizableSearch entries used value memo = linearizableLoop entries 0 used value memo"

definition linearizableForKey :: "HistoryEntry list \<Rightarrow> bool res option" where
  "linearizableForKey entries =
     (if length entries > 63 then Some (Inl (Panic ''shardkv: IsLinearizable supports at most 63 operations per key''))
      else map_option (\<lambda>(found, _). Inr found) (linearizableSearch entries 0 '''' {}))"

definition byKey :: "HistoryEntry list \<Rightarrow> string \<Rightarrow> HistoryEntry list" where
  "byKey entries k = filter (\<lambda>e. heKey e = k) entries"

fun checkKeys :: "HistoryEntry list \<Rightarrow> string list \<Rightarrow> bool res option" where
  "checkKeys entries [] = Some (Inr True)"
| "checkKeys entries (k # ks) =
     (case linearizableForKey (byKey entries k) of
        None \<Rightarrow> None
      | Some (Inl e) \<Rightarrow> Some (Inl e)
      | Some (Inr ok) \<Rightarrow> if ok then checkKeys entries ks else Some (Inr False))"

definition IsLinearizable :: "string list \<Rightarrow> HistoryEntry list \<Rightarrow> bool res option" where
  "IsLinearizable order entries = checkKeys entries order"

section \<open>What the checker decides\<close>

text \<open>
  A history is linearizable when its entries can be put in an order in which no entry stands behind one
  that it precedes in real time, and which every \<open>Get\<close> agrees with, each key starting at the empty value.
\<close>

definition realTime :: "HistoryEntry list \<Rightarrow> bool" where
  "realTime L \<longleftrightarrow> sorted_wrt (\<lambda>a b. \<not> happensBeforeInHistory b a) L"

fun legalRun :: "(string \<Rightarrow> string) \<Rightarrow> HistoryEntry list \<Rightarrow> bool" where
  "legalRun st [] \<longleftrightarrow> True"
| "legalRun st (e # L) \<longleftrightarrow> resultOK e (st (heKey e)) \<and> legalRun (st(heKey e := nextValue e (st (heKey e)))) L"

definition linearizable :: "HistoryEntry list \<Rightarrow> bool" where
  "linearizable es \<longleftrightarrow> (\<exists>L. mset L = mset es \<and> realTime L \<and> legalRun (\<lambda>_. '''') L)"

fun legalKey :: "string \<Rightarrow> HistoryEntry list \<Rightarrow> bool" where
  "legalKey v [] \<longleftrightarrow> True"
| "legalKey v (e # L) \<longleftrightarrow> resultOK e v \<and> legalKey (nextValue e v) L"

definition explains :: "string \<Rightarrow> HistoryEntry list \<Rightarrow> bool" where
  "explains v L \<longleftrightarrow> realTime L \<and> legalKey v L"

lemma explains_Cons:
  "explains v (e # L) \<longleftrightarrow> (\<forall>b \<in> set L. \<not> happensBeforeInHistory b e) \<and> resultOK e v \<and> explains (nextValue e v) L"
  by (auto simp: explains_def realTime_def)

section \<open>The search\<close>

lemma placed_bit: "placed used j \<longleftrightarrow> bit used j"
  by (simp add: placed_def bit_iff_and_push_bit_not_eq_0)

lemma bit_place: "j < 64 \<Longrightarrow> bit (used OR push_bit i 1) j \<longleftrightarrow> bit used j \<or> j = i"
  for used :: "64 word"
  by (auto simp: bit_simps)

definition remaining :: "HistoryEntry list \<Rightarrow> 64 word \<Rightarrow> nat list" where
  "remaining es used = filter (\<lambda>j. \<not> bit used j) [0..<length es]"

lemma set_remaining: "j \<in> set (remaining es used) \<longleftrightarrow> j < length es \<and> \<not> bit used j"
  by (auto simp: remaining_def)

lemma remaining_place:
  assumes "length es \<le> 63" "i \<in> set (remaining es used)"
  shows "mset (remaining es used) = add_mset i (mset (remaining es (used OR push_bit i 1)))"
proof -
  have "distinct (remaining es u)" for u by (simp add: remaining_def)
  moreover have "set (remaining es used) = insert i (set (remaining es (used OR push_bit i 1)))"
    "i \<notin> set (remaining es (used OR push_bit i 1))"
    using assms bit_place [of _ used i] by (auto simp: set_remaining)
  ultimately show ?thesis by (metis finite_set mset_set.insert mset_set_set)
qed

text \<open>A mask that only marks entries of the history, and what it leaves to explain.\<close>

definition maskOK :: "HistoryEntry list \<Rightarrow> 64 word \<Rightarrow> bool" where
  "maskOK es used \<longleftrightarrow> (\<forall>j < 64. bit used j \<longrightarrow> j < length es)"

definition completes :: "HistoryEntry list \<Rightarrow> 64 word \<Rightarrow> string \<Rightarrow> bool" where
  "completes es used v \<longleftrightarrow> (\<exists>L. mset L = mset (map (nth es) (remaining es used)) \<and> explains v L)"

definition candidate :: "HistoryEntry list \<Rightarrow> 64 word \<Rightarrow> string \<Rightarrow> nat \<Rightarrow> bool" where
  "candidate es used v i \<longleftrightarrow> i \<in> set (remaining es used) \<and> linearizableReadyNext es used i \<and>
     resultOK (es ! i) v \<and> completes es (used OR push_bit i 1) (nextValue (es ! i) v)"

lemma candidate_bound: "candidate es used v i \<Longrightarrow> i < length es"
  by (simp add: candidate_def set_remaining)

lemma OnesCount64_full:
  assumes "length es \<le> 63" "maskOK es used"
  shows "OnesCount64 used = length es \<longleftrightarrow> remaining es used = []"
proof -
  have "{j. j < 64 \<and> bit used j} = {j \<in> {..<length es}. bit used j}" using assms by (auto simp: maskOK_def)
  then have "OnesCount64 used = card {j \<in> {..<length es}. bit used j}"
    unfolding OnesCount64_def by (subst distinct_card [symmetric]) (simp_all add: conj_commute)
  moreover have "card S = length es \<longleftrightarrow> S = {..<length es}" if "S \<subseteq> {..<length es}" for S
    using card_subset_eq [OF finite_lessThan that] card_lessThan by metis
  moreover have "{j \<in> {..<length es}. bit used j} = {..<length es} \<longleftrightarrow> (\<forall>j < length es. bit used j)" by blast
  moreover have "remaining es used = [] \<longleftrightarrow> (\<forall>j < length es. bit used j)"
    by (simp add: remaining_def filter_empty_conv Ball_def)
  moreover have "{j \<in> {..<length es}. bit used j} \<subseteq> {..<length es}" by blast
  ultimately show ?thesis by presburger
qed

lemma remaining_empty_completes: "remaining es used = [] \<Longrightarrow> completes es used v"
  by (simp add: completes_def explains_def realTime_def)

lemma ready_iff:
  assumes "length es \<le> 63" "i \<in> set (remaining es used)"
  shows "linearizableReadyNext es used i \<longleftrightarrow>
    (\<forall>b \<in> set (map (nth es) (remaining es (used OR push_bit i 1))). \<not> happensBeforeInHistory b (es ! i))"
proof -
  have "set (remaining es (used OR push_bit i 1)) = set (remaining es used) - {i}"
    using assms bit_place [of _ used i] by (auto simp: set_remaining)
  moreover have "linearizableReadyNext es used i \<longleftrightarrow>
      (\<forall>j \<in> set (remaining es used). j \<noteq> i \<longrightarrow> \<not> happensBeforeInHistory (es ! j) (es ! i))"
    unfolding linearizableReadyNext_def list_all_iff placed_bit set_remaining Ball_def by (simp, blast)
  ultimately show ?thesis by auto
qed

lemma candidate_completes:
  assumes len: "length es \<le> 63" and c: "candidate es used v i"
  shows "completes es used v"
proof -
  let ?u = "used OR push_bit i 1"
  from c obtain L where L: "mset L = mset (map (nth es) (remaining es ?u))" "explains (nextValue (es ! i) v) L"
    by (auto simp: candidate_def completes_def)
  have i: "i \<in> set (remaining es used)" "linearizableReadyNext es used i" "resultOK (es ! i) v" using c by (auto simp: candidate_def)
  have "set L = set (map (nth es) (remaining es ?u))" using L(1) by (rule mset_eq_setD)
  then have "explains v (es ! i # L)" using L(2) i ready_iff [OF len i(1)] by (simp add: explains_Cons)
  moreover have "mset (es ! i # L) = mset (map (nth es) (remaining es used))"
    using L(1) remaining_place [OF len i(1)] by simp
  ultimately show ?thesis unfolding completes_def by blast
qed

lemma completes_candidate:
  assumes len: "length es \<le> 63" and c: "completes es used v" and ne: "remaining es used \<noteq> []"
  shows "\<exists>i. candidate es used v i"
proof -
  from c obtain L where L: "mset L = mset (map (nth es) (remaining es used))" "explains v L" by (auto simp: completes_def)
  with ne obtain e M where eM: "L = e # M" by (cases L) auto
  have "set L = set (map (nth es) (remaining es used))" using L(1) by (rule mset_eq_setD)
  then obtain i where i: "i \<in> set (remaining es used)" "e = es ! i" unfolding eM by auto
  let ?u = "used OR push_bit i 1"
  have M: "mset M = mset (map (nth es) (remaining es ?u))"
    using L(1) remaining_place [OF len i(1)] by (simp add: eM i(2))
  have "set M = set (map (nth es) (remaining es ?u))" using M by (rule mset_eq_setD)
  then have "candidate es used v i"
    using L(2) M i ready_iff [OF len i(1)] unfolding candidate_def completes_def eM explains_Cons by auto
  then show ?thesis ..
qed

definition memoOK :: "HistoryEntry list \<Rightarrow> linMemo \<Rightarrow> bool" where
  "memoOK es memo \<longleftrightarrow> (\<forall>(u, v) \<in> memo. \<not> completes es u v)"

lemma maskOK_place: "length es \<le> 63 \<Longrightarrow> maskOK es used \<Longrightarrow> i < length es \<Longrightarrow> maskOK es (used OR push_bit i 1)"
  using bit_place [of _ used i] by (auto simp: maskOK_def)

text \<open>
  From any point of the loop the search returns, keeps the memo table truthful, and finds what there is
  to find, provided the entries before the loop index are no candidates.
\<close>

lemma linearizableLoop_correct:
  assumes "length es \<le> 63" "maskOK es used" "memoOK es memo" "\<And>j. j < i \<Longrightarrow> \<not> candidate es used v j"
    and "0 < i \<Longrightarrow> remaining es used \<noteq> []"
  shows "\<exists>found memo'. linearizableLoop es i used v memo = Some (found, memo') \<and> memoOK es memo' \<and>
     (found \<longleftrightarrow> completes es used v)"
  using assms
proof (induction "(length (remaining es used), length es - i)" arbitrary: i used v memo rule: wf_induct_rule [OF wf_lex_prod [OF wf_less wf_less]])
  case (1 i used v memo)
  note len = "1.prems"(1) and mask = "1.prems"(2) and memo = "1.prems"(3) and none = "1.prems"(4)
  note IH = "1.hyps" [OF _ len]
  let ?goal = "\<lambda>r. \<exists>found memo'. r = Some (found, memo') \<and> memoOK es memo' \<and> (found \<longleftrightarrow> completes es used v)"
  show ?case
  proof (cases "i = 0 \<and> OnesCount64 used = length es")
    case True
    then have "completes es used v" using OnesCount64_full [OF len mask] remaining_empty_completes by blast
    then show ?thesis using True memo by (subst linearizableLoop.simps) auto
  next
    case notfull: False
    have ne: "remaining es used \<noteq> []" using notfull OnesCount64_full [OF len mask] "1.prems"(5) by auto
    show ?thesis
    proof (cases "i = 0 \<and> (used, v) \<in> memo")
      case True
      then show ?thesis using memo notfull by (subst linearizableLoop.simps) (auto simp: memoOK_def)
    next
      case notmemo: False
      show ?thesis
      proof (cases "length es \<le> i")
        case True
        then have "\<not> completes es used v"
          using completes_candidate [OF len _ ne, of v] none candidate_bound by (meson less_le_trans)
        then show ?thesis using True notfull notmemo memo by (subst linearizableLoop.simps) (auto simp: memoOK_def)
      next
        case inside: False
        have nextIH: "?goal (linearizableLoop es (i + 1) used v memo')" if "memoOK es memo'" "\<not> candidate es used v i" for memo'
        proof (rule IH)
          show "((length (remaining es used), length es - (i + 1)), length (remaining es used), length es - i)
              \<in> {(x, y). x < y} <*lex*> {(x, y). x < y}" using inside by simp
          show "\<not> candidate es used v j" if "j < i + 1" for j using none [of j] that \<open>\<not> candidate es used v i\<close> by (cases "j = i") auto
        qed (use mask that(1) ne in auto)
        show ?thesis
        proof (cases "placed used i \<or> \<not> linearizableReadyNext es used i \<or> \<not> resultOK (es ! i) v")
          case True
          then have "\<not> candidate es used v i" by (auto simp: candidate_def set_remaining placed_bit)
          from nextIH [OF memo this] show ?thesis
            using True notfull notmemo inside by (subst linearizableLoop.simps) auto
        next
          case False
          let ?u = "used OR push_bit i 1" and ?v = "nextValue (es ! i) v"
          have i: "i \<in> set (remaining es used)" using False inside by (simp add: set_remaining placed_bit)
          have less: "length (remaining es ?u) < length (remaining es used)"
            using remaining_place [OF len i] by (metis size_mset size_add_mset lessI)
          have "\<exists>found memo'. linearizableLoop es 0 ?u ?v memo = Some (found, memo') \<and> memoOK es memo' \<and> (found \<longleftrightarrow> completes es ?u ?v)"
            by (rule IH) (use less maskOK_place [OF len mask, of i] inside memo in auto)
          then obtain found memo' where rec: "linearizableLoop es 0 ?u ?v memo = Some (found, memo')" "memoOK es memo'"
            "found \<longleftrightarrow> completes es ?u ?v" by blast
          have unfold: "linearizableLoop es i used v memo =
              (if found then Some (True, memo') else linearizableLoop es (i + 1) used v memo')"
            using False notfull notmemo inside rec(1) by (subst linearizableLoop.simps) auto
          have cand: "candidate es used v i \<longleftrightarrow> found" using False i rec(3) by (simp add: candidate_def)
          show ?thesis
          proof (cases found)
            case True
            then show ?thesis using unfold rec(2) candidate_completes [OF len] cand by auto
          next
            case F: False
            then show ?thesis using unfold nextIH [OF rec(2)] cand by simp
          qed
        qed
      qed
    qed
  qed
qed

lemma linearizableForKey_correct:
  assumes "length es \<le> 63"
  shows "\<exists>b. linearizableForKey es = Some (Inr b) \<and> (b \<longleftrightarrow> (\<exists>L. mset L = mset es \<and> explains '''' L))"
proof -
  have "\<exists>found memo'. linearizableLoop es 0 0 '''' {} = Some (found, memo') \<and> memoOK es memo' \<and>
      (found \<longleftrightarrow> completes es 0 '''')"
    by (rule linearizableLoop_correct) (use assms in \<open>auto simp: maskOK_def memoOK_def\<close>)
  moreover have "map (nth es) (remaining es 0) = es" by (simp add: remaining_def map_nth)
  ultimately show ?thesis using assms by (auto simp: linearizableForKey_def linearizableSearch_def completes_def)
qed

section \<open>Locality\<close>

lemma legalRun_per_key: "legalRun st L \<longleftrightarrow> (\<forall>k. legalKey (st k) (filter (\<lambda>e. heKey e = k) L))"
proof (induction L arbitrary: st)
  case (Cons e L)
  show ?case by (auto simp: Cons.IH split: if_splits)
qed simp

text \<open>
  Points: along an order that respects real time, give every entry the latest invocation up to it. The
  points do not decrease, and each lies in the interval of its entry.
\<close>

fun points :: "int \<Rightarrow> HistoryEntry list \<Rightarrow> (HistoryEntry \<times> int) list" where
  "points m [] = []"
| "points m (e # L) = (e, max m (heInvoke e)) # points (max m (heInvoke e)) L"

lemma points_props:
  assumes "realTime L" "\<forall>e \<in> set L. m < heReturn e \<and> heInvoke e < heReturn e"
  shows "map fst (points m L) = L" "sorted (map snd (points m L))" "\<forall>(e, t) \<in> set (points m L). m \<le> t"
    "\<forall>(e, t) \<in> set (points m L). heInvoke e \<le> t \<and> t < heReturn e"
proof -
  have "map fst (points m L) = L \<and> sorted (map snd (points m L)) \<and> (\<forall>(e, t) \<in> set (points m L). m \<le> t) \<and>
      (\<forall>(e, t) \<in> set (points m L). heInvoke e \<le> t \<and> t < heReturn e)"
    using assms
  proof (induction L arbitrary: m)
    case (Cons e L)
    have "realTime L" "\<forall>b \<in> set L. heInvoke e < heReturn b"
      using Cons.prems(1) by (auto simp: realTime_def happensBeforeInHistory_def)
    with Cons.IH [of "max m (heInvoke e)"] Cons.prems(2) show ?case by fastforce
  qed simp
  then show "map fst (points m L) = L" "sorted (map snd (points m L))" "\<forall>(e, t) \<in> set (points m L). m \<le> t"
    "\<forall>(e, t) \<in> set (points m L). heInvoke e \<le> t \<and> t < heReturn e" by auto
qed

lemma mset_byKey: "set ks \<supseteq> heKey ` set es \<Longrightarrow> distinct ks \<Longrightarrow> (\<Sum>k \<leftarrow> ks. mset (byKey es k)) = mset es"
proof (induction es)
  case (Cons e es)
  have "(\<Sum>k \<leftarrow> ks. mset (byKey (e # es) k)) = (\<Sum>k \<leftarrow> ks. mset (byKey es k)) + (\<Sum>k \<leftarrow> ks. if k = heKey e then {#e#} else {#})"
    unfolding byKey_def by (subst sum_list_addf [symmetric]) (rule arg_cong [of _ _ sum_list], auto)
  moreover have "(\<Sum>k \<leftarrow> ks. if k = heKey e then {#e#} else {#}) = {#e#}"
    using Cons.prems by (simp add: sum_list_distinct_conv_sum_set)
  ultimately show ?case using Cons by simp
qed (simp add: byKey_def)

lemma filter_concat_key:
  assumes "\<And>k x. x \<in> set (P k) \<Longrightarrow> key x = k" "distinct ks"
  shows "filter (\<lambda>x. key x = k) (concat (map P ks)) = (if k \<in> set ks then P k else [])"
proof -
  have "filter (\<lambda>x. key x = k) (P k') = (if k' = k then P k else [])" for k'
    using assms(1) by (auto simp: filter_empty_conv filter_id_conv)
  then show ?thesis using assms(2) by (induction ks) auto
qed

text \<open>
  Sorting the points of all keys together keeps the order of each key and respects real time across keys.
\<close>

lemma merge_points:
  assumes ivl: "\<forall>(e, t) \<in> set X. heInvoke e \<le> t \<and> t < heReturn e"
    and key: "\<And>k. filter (\<lambda>x. heKey (fst x) = k) X = P k" "\<And>k. sorted (map snd (P k))"
  shows "realTime (map fst (sort_key snd X))" "filter (\<lambda>e. heKey e = k) (map fst (sort_key snd X)) = map fst (P k)"
proof -
  have "sorted_wrt (\<lambda>x y. snd x \<le> snd y) (sort_key snd X)" using sorted_sort_key [of snd X] by (simp add: sorted_wrt_map)
  then have "sorted_wrt (\<lambda>x y. \<not> happensBeforeInHistory (fst y) (fst x)) (sort_key snd X)"
  proof (rule sorted_wrt_mono_rel [rotated])
    fix x y
    assume "x \<in> set (sort_key snd X)" "y \<in> set (sort_key snd X)" "snd x \<le> snd y"
    moreover from this have "heInvoke (fst x) \<le> snd x" "snd y < heReturn (fst y)" using ivl by (auto simp: split_beta)
    ultimately show "\<not> happensBeforeInHistory (fst y) (fst x)" by (simp add: happensBeforeInHistory_def)
  qed
  then show "realTime (map fst (sort_key snd X))" by (simp add: realTime_def sorted_wrt_map)
  show "filter (\<lambda>e. heKey e = k) (map fst (sort_key snd X)) = map fst (P k)"
    using key by (simp add: filter_map comp_def filter_sort sort_key_id_if_sorted)
qed

lemma per_key_linearizable:
  assumes len: "\<forall>e \<in> set es. heInvoke e < heReturn e"
    and all: "\<forall>k. \<exists>L. mset L = mset (byKey es k) \<and> explains '''' L"
  shows "linearizable es"
proof -
  obtain L where L: "\<And>k. mset (L k) = mset (byKey es k)" "\<And>k. explains '''' (L k)" using all by metis
  define ks where "ks = remdups (map heKey es)"
  define m where "m = Min (insert 0 (heInvoke ` set es))"
  define X where "X = concat (map (\<lambda>k. points m (L k)) ks)"
  have setL: "set (L k) = set (byKey es k)" for k using L(1) by (rule mset_eq_setD)
  have rt: "realTime (L k)" for k using L(2) by (simp add: explains_def)
  have m: "\<forall>e \<in> set (L k). m < heReturn e \<and> heInvoke e < heReturn e" for k
  proof
    fix e
    assume "e \<in> set (L k)"
    then have e: "e \<in> set es" by (simp add: setL byKey_def)
    then have "m \<le> heInvoke e" unfolding m_def by (intro Min_le) auto
    then show "m < heReturn e \<and> heInvoke e < heReturn e" using len e by fastforce
  qed
  note pts = points_props [OF rt m]
  have "heKey (fst x) = k" if "x \<in> set (points m (L k))" for k x
  proof -
    have "fst x \<in> set (L k)" using that pts(1) by (metis image_eqI list.set_map)
    then show ?thesis by (simp add: setL byKey_def)
  qed
  then have "filter (\<lambda>x. heKey (fst x) = k) X = (if k \<in> set ks then points m (L k) else [])" for k
    unfolding X_def by (rule filter_concat_key) (simp_all add: ks_def)
  moreover have "points m (L k) = []" if "k \<notin> set ks" for k
  proof -
    have "byKey es k = []" using that by (auto simp: ks_def byKey_def filter_empty_conv)
    then show ?thesis using L(1) [of k] by simp
  qed
  ultimately have key: "filter (\<lambda>x. heKey (fst x) = k) X = points m (L k)" for k by auto
  have ivl: "\<forall>(e, t) \<in> set X. heInvoke e \<le> t \<and> t < heReturn e" using pts(4) by (fastforce simp: X_def)
  note mp = merge_points [OF ivl key pts(2)]
  have "mset (map fst (sort_key snd X)) = (\<Sum>k \<leftarrow> ks. mset (map fst (points m (L k))))"
    unfolding X_def by (induction ks) auto
  also have "\<dots> = (\<Sum>k \<leftarrow> ks. mset (byKey es k))" by (simp only: pts(1) L(1))
  also have "\<dots> = mset es" by (rule mset_byKey) (auto simp: ks_def)
  finally have "mset (map fst (sort_key snd X)) = mset es" .
  moreover have "legalRun (\<lambda>_. '''') (map fst (sort_key snd X))"
    unfolding legalRun_per_key mp(2) pts(1) using L(2) by (simp add: explains_def)
  ultimately show ?thesis using mp(1) unfolding linearizable_def by blast
qed

lemma linearizable_per_key:
  assumes "linearizable es"
  shows "\<exists>L. mset L = mset (byKey es k) \<and> explains '''' L"
proof -
  obtain L where L: "mset L = mset es" "realTime L" "legalRun (\<lambda>_. '''') L" using assms by (auto simp: linearizable_def)
  have "mset (filter (\<lambda>e. heKey e = k) L) = mset (byKey es k)" using L(1) by (simp add: byKey_def mset_filter)
  moreover have "explains '''' (filter (\<lambda>e. heKey e = k) L)"
    using L(2,3) by (simp add: explains_def realTime_def sorted_wrt_filter legalRun_per_key)
  ultimately show ?thesis by blast
qed

lemma checkKeys_correct:
  assumes "\<forall>k \<in> set ks. length (byKey es k) \<le> 63"
  shows "\<exists>b. checkKeys es ks = Some (Inr b) \<and> (b \<longleftrightarrow> (\<forall>k \<in> set ks. \<exists>L. mset L = mset (byKey es k) \<and> explains '''' L))"
  using assms
proof (induction ks)
  case (Cons k ks)
  obtain b where "linearizableForKey (byKey es k) = Some (Inr b)" "b \<longleftrightarrow> (\<exists>L. mset L = mset (byKey es k) \<and> explains '''' L)"
    using linearizableForKey_correct [of "byKey es k"] Cons.prems by auto
  then show ?case using Cons by auto
qed auto

text \<open>
  (C34) The checker is sound and complete, and it returns: on a history whose operations take some time, with
  at most 63 operations per key and whatever the order in which the keys are visited, \<open>IsLinearizable\<close>
  answers true exactly when one total order of all operations, over all keys, respects real time and
  explains every result. In particular the memo table cuts off nothing, and checking each key alone is enough.
\<close>

theorem IsLinearizable_correct:
  assumes "set order = heKey ` set es" "\<forall>k. length (byKey es k) \<le> 63" "\<forall>e \<in> set es. heInvoke e < heReturn e"
  shows "\<exists>b. IsLinearizable order es = Some (Inr b) \<and> (b \<longleftrightarrow> linearizable es)"
proof -
  have "\<exists>L. mset L = mset (byKey es k) \<and> explains '''' L" if "k \<notin> set order" for k
  proof -
    have "byKey es k = []" using that assms(1) by (auto simp: byKey_def filter_empty_conv)
    then show ?thesis by (simp add: explains_def realTime_def)
  qed
  then have "(\<forall>k \<in> set order. \<exists>L. mset L = mset (byKey es k) \<and> explains '''' L) \<longleftrightarrow> linearizable es"
    using per_key_linearizable [OF assms(3)] linearizable_per_key by metis
  then show ?thesis using checkKeys_correct [of order es] assms(2) by (simp add: IsLinearizable_def)
qed

definition exHistory :: "string \<Rightarrow> HistoryEntry list" where
  "exHistory seen =
     [\<lparr>heClientID = 1, heKey = ''k'', heKind = OpPut, heArg = ''v'', heResult = '''', heInvoke = 0, heReturn = 10\<rparr>,
      \<lparr>heClientID = 2, heKey = ''k'', heKind = OpGet, heArg = '''', heResult = seen, heInvoke = 5, heReturn = 8\<rparr>]"

theorem IsLinearizable_correct_witness:
  "\<exists>b. IsLinearizable [''k''] (exHistory ''v'') = Some (Inr b) \<and> (b \<longleftrightarrow> linearizable (exHistory ''v'')) \<and> b"
proof -
  have "set [''k''] = heKey ` set (exHistory ''v'')" "\<forall>e \<in> set (exHistory ''v''). heInvoke e < heReturn e"
    by (simp_all add: exHistory_def)
  moreover have "\<forall>k. length (byKey (exHistory ''v'') k) \<le> 63" by (simp add: byKey_def exHistory_def)
  moreover have "linearizable (exHistory ''v'')"
    unfolding linearizable_def
    by (rule exI [of _ "exHistory ''v''"])
       (simp add: exHistory_def realTime_def happensBeforeInHistory_def resultOK_def nextValue_def)
  ultimately show ?thesis using IsLinearizable_correct by blast
qed

end
