(* ===== verification/Shard_Clerk.thy ===== *)
theory Shard_Clerk
  imports Retry Group_Server History
begin

text \<open>
  The clients of the sharded store: \<open>CtrlerClerk\<close> (\<open>src/05-sharded-kv/ctrler_clerk.go\<close>), the \<open>ShardClerk\<close> that routes by
  a cached configuration (\<open>src/05-sharded-kv/group_clerk.go\<close>), and the wrapper that records its calls
  (\<open>src/05-sharded-kv/history.go\<close>). The servers are functions of the world, as in the key-value clerk.
\<close>

section \<open>CtrlerClerk\<close>

record CtrlerClerk =
  ckServers :: nat
  ckClientID :: int
  ckSeqNum :: int
  ckLastKnown :: nat

datatype ctrlerArgs = JoinArgs goGroups int int | LeaveArgs "int list" int int | MoveArgs int int int int

type_synonym 'w ctrlerCall = "ctrlerArgs \<Rightarrow> ('w, CtrlerErr) serverCall"
type_synonym 'w queryCall = "int \<Rightarrow> ('w, QueryReply) serverCall"

definition NewCtrlerClerk :: "nat \<Rightarrow> int \<Rightarrow> CtrlerClerk" where
  "NewCtrlerClerk n random = \<lparr>ckServers = n, ckClientID = random, ckSeqNum = 0, ckLastKnown = 0\<rparr>"

definition joinVerdict :: "CtrlerErr \<Rightarrow> unit verdict" where
  "joinVerdict e = (if e = CtrlerOK then Take () else NextServer)"

definition moveVerdict :: "CtrlerErr \<Rightarrow> unit verdict" where
  "moveVerdict e = (case e of CtrlerOK \<Rightarrow> Take ()
     | CtrlerErrInvalidArgs \<Rightarrow> Abort ''shardkv: Move rejected as invalid (bad shard number or unknown group id)''
     | _ \<Rightarrow> NextServer)"

definition queryVerdict :: "QueryReply \<Rightarrow> Config verdict" where
  "queryVerdict r = (if qrErr r = CtrlerOK then Take (qrConfig r) else NextServer)"

definition ckAnswered :: "CtrlerClerk \<Rightarrow> ((nat \<times> 'a) res \<times> 'w) option \<Rightarrow> ('a res \<times> CtrlerClerk \<times> 'w) option" where
  "ckAnswered ck r = (case r of None \<Rightarrow> None
     | Some (Inl e, w) \<Rightarrow> Some (Inl e, ck, w)
     | Some (Inr (idx, a), w) \<Rightarrow> Some (Inr a, ck\<lparr>ckLastKnown := idx\<rparr>, w))"

definition ckJoin :: "nat \<Rightarrow> 'w ctrlerCall \<Rightarrow> goGroups \<Rightarrow> CtrlerClerk \<Rightarrow> 'w \<Rightarrow> (unit res \<times> CtrlerClerk \<times> 'w) option" where
  "ckJoin fuel call groups ck w =
     (let ck1 = ck\<lparr>ckSeqNum := ckSeqNum ck + 1\<rparr>; args = JoinArgs groups (ckClientID ck1) (ckSeqNum ck1)
      in ckAnswered ck1 (retryServers fuel joinVerdict (call args) (\<lambda>_. ckLastKnown ck1) (ckServers ck1) w))"

definition ckLeave :: "nat \<Rightarrow> 'w ctrlerCall \<Rightarrow> int list \<Rightarrow> CtrlerClerk \<Rightarrow> 'w \<Rightarrow> (unit res \<times> CtrlerClerk \<times> 'w) option" where
  "ckLeave fuel call gids ck w =
     (let ck1 = ck\<lparr>ckSeqNum := ckSeqNum ck + 1\<rparr>; args = LeaveArgs gids (ckClientID ck1) (ckSeqNum ck1)
      in ckAnswered ck1 (retryServers fuel joinVerdict (call args) (\<lambda>_. ckLastKnown ck1) (ckServers ck1) w))"

definition ckMove :: "nat \<Rightarrow> 'w ctrlerCall \<Rightarrow> int \<Rightarrow> int \<Rightarrow> CtrlerClerk \<Rightarrow> 'w \<Rightarrow> (unit res \<times> CtrlerClerk \<times> 'w) option" where
  "ckMove fuel call shard grp ck w =
     (let ck1 = ck\<lparr>ckSeqNum := ckSeqNum ck + 1\<rparr>; args = MoveArgs shard grp (ckClientID ck1) (ckSeqNum ck1)
      in ckAnswered ck1 (retryServers fuel moveVerdict (call args) (\<lambda>_. ckLastKnown ck1) (ckServers ck1) w))"

definition ckQuery :: "nat \<Rightarrow> 'w queryCall \<Rightarrow> int \<Rightarrow> CtrlerClerk \<Rightarrow> 'w \<Rightarrow> (Config res \<times> CtrlerClerk \<times> 'w) option" where
  "ckQuery fuel call num ck w =
     ckAnswered ck (retryServers fuel queryVerdict (call num) (\<lambda>_. ckLastKnown ck) (ckServers ck) w)"

section \<open>ShardClerk\<close>

text \<open>\<open>sckGroups\<close> is the number of replicas of a group; a group the map does not have has none.\<close>

record ShardClerk =
  sckCtrl :: CtrlerClerk
  sckGroups :: "int \<Rightarrow> nat"
  sckClientID :: int
  sckSeqNum :: int
  sckCfg :: Config

type_synonym 'w groupGetCall = "int \<Rightarrow> nat \<Rightarrow> string \<Rightarrow> 'w \<Rightarrow> GroupGetReply option \<times> 'w"
type_synonym 'w groupPutCall = "int \<Rightarrow> nat \<Rightarrow> GroupPutAppendArgs \<Rightarrow> 'w \<Rightarrow> GroupErr option \<times> 'w"

definition NewShardClerk ::
    "nat \<Rightarrow> 'w queryCall \<Rightarrow> CtrlerClerk \<Rightarrow> (int \<Rightarrow> nat) \<Rightarrow> int \<Rightarrow> 'w \<Rightarrow> (ShardClerk res \<times> 'w) option" where
  "NewShardClerk fuel query ctrl groups random w =
     map_option (\<lambda>(r, ctrl1, w1).
         (map_sum id (\<lambda>c. \<lparr>sckCtrl = ctrl1, sckGroups = groups, sckClientID = random, sckSeqNum = 0, sckCfg = c\<rparr>) r, w1))
       (ckQuery fuel query (-1) ctrl w)"

fun getReplicas ::
    "'w groupGetCall \<Rightarrow> int \<Rightarrow> string \<Rightarrow> nat list \<Rightarrow> bool \<Rightarrow> 'w \<Rightarrow> string option \<times> bool \<times> 'w" where
  "getReplicas call grp key [] wrongGroup w = (None, wrongGroup, w)"
| "getReplicas call grp key (i # is) wrongGroup w =
     (case call grp i key w of
        (None, w') \<Rightarrow> getReplicas call grp key is wrongGroup w'
      | (Some r, w') \<Rightarrow>
          if ggErr r = GroupOK then (Some (ggValue r), wrongGroup, w')
          else if ggErr r = GroupErrNoKey then (Some '''', wrongGroup, w')
          else getReplicas call grp key is (wrongGroup \<or> ggErr r = GroupErrWrongGroup) w')"

fun putReplicas ::
    "'w groupPutCall \<Rightarrow> int \<Rightarrow> GroupPutAppendArgs \<Rightarrow> nat list \<Rightarrow> bool \<Rightarrow> 'w \<Rightarrow> bool \<times> bool \<times> 'w" where
  "putReplicas call grp args [] wrongGroup w = (False, wrongGroup, w)"
| "putReplicas call grp args (i # is) wrongGroup w =
     (case call grp i args w of
        (None, w') \<Rightarrow> putReplicas call grp args is wrongGroup w'
      | (Some e, w') \<Rightarrow>
          if e = GroupOK then (True, wrongGroup, w')
          else putReplicas call grp args is (wrongGroup \<or> e = GroupErrWrongGroup) w')"

definition sckOwner :: "ShardClerk \<Rightarrow> string \<Rightarrow> int" where
  "sckOwner ck key = Shards (sckCfg ck) ! Key2Shard key"

definition sckRefetch :: "nat \<Rightarrow> 'w queryCall \<Rightarrow> ShardClerk \<Rightarrow> 'w \<Rightarrow> (unit res \<times> ShardClerk \<times> 'w) option" where
  "sckRefetch qfuel query ck w =
     (case ckQuery qfuel query (-1) (sckCtrl ck) w of
        None \<Rightarrow> None
      | Some (Inl e, ctrl1, w') \<Rightarrow> Some (Inl e, ck\<lparr>sckCtrl := ctrl1\<rparr>, w')
      | Some (Inr c, ctrl1, w') \<Rightarrow> Some (Inr (), ck\<lparr>sckCtrl := ctrl1, sckCfg := c\<rparr>, w'))"

fun sckGet ::
    "nat \<Rightarrow> nat \<Rightarrow> 'w groupGetCall \<Rightarrow> 'w queryCall \<Rightarrow> string \<Rightarrow> ShardClerk \<Rightarrow> 'w \<Rightarrow> (string res \<times> ShardClerk \<times> 'w) option" where
  "sckGet 0 qfuel call query key ck w = None"
| "sckGet (Suc fuel) qfuel call query key ck w =
     (let grp = sckOwner ck key
      in case getReplicas call grp key [0..<sckGroups ck grp] False w of
           (Some v, wrongGroup, w') \<Rightarrow> Some (Inr v, ck, w')
         | (None, wrongGroup, w') \<Rightarrow>
             if wrongGroup
             then (case sckRefetch qfuel query ck w' of
                     None \<Rightarrow> None
                   | Some (Inl e, ck1, w1) \<Rightarrow> Some (Inl e, ck1, w1)
                   | Some (Inr _, ck1, w1) \<Rightarrow> sckGet fuel qfuel call query key ck1 w1)
             else sckGet fuel qfuel call query key ck w')"

fun sckPutLoop ::
    "nat \<Rightarrow> nat \<Rightarrow> 'w groupPutCall \<Rightarrow> 'w queryCall \<Rightarrow> string \<Rightarrow> string \<Rightarrow> string \<Rightarrow> ShardClerk \<Rightarrow> 'w \<Rightarrow>
     (unit res \<times> ShardClerk \<times> 'w) option" where
  "sckPutLoop 0 qfuel call query key v opn ck w = None"
| "sckPutLoop (Suc fuel) qfuel call query key v opn ck w =
     (let grp = sckOwner ck key;
          args = \<lparr>gpKey = key, gpValue = v, gpOp = opn, gpClientID = sckClientID ck, gpSeqNum = sckSeqNum ck\<rparr>
      in case putReplicas call grp args [0..<sckGroups ck grp] False w of
           (True, wrongGroup, w') \<Rightarrow> Some (Inr (), ck, w')
         | (False, wrongGroup, w') \<Rightarrow>
             if wrongGroup
             then (case sckRefetch qfuel query ck w' of
                     None \<Rightarrow> None
                   | Some (Inl e, ck1, w1) \<Rightarrow> Some (Inl e, ck1, w1)
                   | Some (Inr _, ck1, w1) \<Rightarrow> sckPutLoop fuel qfuel call query key v opn ck1 w1)
             else sckPutLoop fuel qfuel call query key v opn ck w')"

definition sckPutAppend ::
    "nat \<Rightarrow> nat \<Rightarrow> 'w groupPutCall \<Rightarrow> 'w queryCall \<Rightarrow> string \<Rightarrow> string \<Rightarrow> string \<Rightarrow> ShardClerk \<Rightarrow> 'w \<Rightarrow>
     (unit res \<times> ShardClerk \<times> 'w) option" where
  "sckPutAppend fuel qfuel call query key v opn ck w =
     sckPutLoop fuel qfuel call query key v opn (ck\<lparr>sckSeqNum := sckSeqNum ck + 1\<rparr>) w"

section \<open>RecordingShardClerk\<close>

text \<open>The call's instants and what it returned; \<open>invoke\<close> and \<open>ret\<close> are the two readings of the clock around it.\<close>

definition recordGet :: "int \<Rightarrow> string \<Rightarrow> string \<Rightarrow> int \<Rightarrow> int \<Rightarrow> HistoryLog \<Rightarrow> HistoryLog" where
  "recordGet client key v invoke ret h = hRecord \<lparr>heClientID = client, heKey = key, heKind = OpGet, heArg = '''',
     heResult = v, heInvoke = invoke, heReturn = ret\<rparr> h"

definition recordWrite :: "OpKind \<Rightarrow> int \<Rightarrow> string \<Rightarrow> string \<Rightarrow> int \<Rightarrow> int \<Rightarrow> HistoryLog \<Rightarrow> HistoryLog" where
  "recordWrite kind client key v invoke ret h = hRecord \<lparr>heClientID = client, heKey = key, heKind = kind, heArg = v,
     heResult = '''', heInvoke = invoke, heReturn = ret\<rparr> h"

section \<open>What the clerk's loops guarantee\<close>

lemma getReplicas_silent:
  assumes "\<And>i w. i \<in> set is \<Longrightarrow> case fst (call grp i key w) of None \<Rightarrow> True
      | Some r \<Rightarrow> ggErr r \<notin> {GroupOK, GroupErrNoKey, GroupErrWrongGroup}"
  shows "\<exists>w'. getReplicas call grp key is False w = (None, False, w')"
  using assms
proof (induction "is" arbitrary: w)
  case (Cons i "is")
  obtain r w1 where c: "call grp i key w = (r, w1)" by fastforce
  obtain w' where "getReplicas call grp key is False w1 = (None, False, w')" using Cons.IH [of w1] Cons.prems by force
  then show ?case using c Cons.prems(1) [of i w] by (cases r) auto
qed simp

lemma putReplicas_silent:
  assumes "\<And>i w. i \<in> set is \<Longrightarrow> fst (call grp i args w) \<notin> {Some GroupOK, Some GroupErrWrongGroup}"
  shows "\<exists>w'. putReplicas call grp args is False w = (False, False, w')"
  using assms
proof (induction "is" arbitrary: w)
  case (Cons i "is")
  obtain r w1 where c: "call grp i args w = (r, w1)" by fastforce
  obtain w' where "putReplicas call grp args is False w1 = (False, False, w')" using Cons.IH [of w1] Cons.prems by force
  then show ?case using c Cons.prems(1) [of i w] by (cases r) auto
qed simp

text \<open>
  (C29) The clerk never gives up on its cached configuration by itself. If no replica of the group that the cached configuration
  names for the key ever answers \<open>GroupErrWrongGroup\<close> or with a result (because the clerk knows no replica of the group, as for
  group 0 when it was created before the first \<open>Join\<close>, or because the group is gone and every call fails), then neither \<open>Get\<close> nor
  \<open>Put\<close> nor \<open>Append\<close> returns, with any fuel and whatever configuration the controller would answer with by now.
\<close>
theorem shard_clerk_stuck:
  assumes "\<forall>i < sckGroups ck (sckOwner ck key). \<forall>w. case fst (gcall (sckOwner ck key) i key w) of None \<Rightarrow> True
      | Some r \<Rightarrow> ggErr r \<notin> {GroupOK, GroupErrNoKey, GroupErrWrongGroup}"
    and "\<forall>i < sckGroups ck (sckOwner ck key). \<forall>args w. fst (pcall (sckOwner ck key) i args w) \<notin> {Some GroupOK, Some GroupErrWrongGroup}"
  shows "sckGet fuel qfuel gcall query key ck w = None \<and> sckPutAppend fuel qfuel pcall query key v opn ck w = None"
proof -
  have "sckGet fuel qfuel gcall query key ck w = None"
  proof (induction fuel arbitrary: w)
    case (Suc fuel)
    obtain w' where "getReplicas gcall (sckOwner ck key) key [0..<sckGroups ck (sckOwner ck key)] False w = (None, False, w')"
      using getReplicas_silent [of "[0..<sckGroups ck (sckOwner ck key)]" gcall "sckOwner ck key" key w] assms(1) by auto
    then show ?case using Suc by (simp add: Let_def)
  qed simp
  moreover have "sckPutLoop fuel qfuel pcall query key v opn ck1 w = None"
    if ck1: "ck1 = ck\<lparr>sckSeqNum := sckSeqNum ck + 1\<rparr>" for ck1
  proof (induction fuel arbitrary: w)
    case (Suc fuel)
    have own: "sckOwner ck1 key = sckOwner ck key" "sckGroups ck1 = sckGroups ck" by (simp_all add: ck1 sckOwner_def)
    let ?args = "\<lparr>gpKey = key, gpValue = v, gpOp = opn, gpClientID = sckClientID ck1, gpSeqNum = sckSeqNum ck1\<rparr>"
    obtain w' where "putReplicas pcall (sckOwner ck key) ?args [0..<sckGroups ck (sckOwner ck key)] False w = (False, False, w')"
      using putReplicas_silent [of "[0..<sckGroups ck (sckOwner ck key)]" pcall "sckOwner ck key" ?args w] assms(2) by auto
    then show ?case using Suc by (simp add: Let_def own)
  qed simp
  ultimately show ?thesis by (simp add: sckPutAppend_def)
qed

text \<open>A clerk created while the controller's configuration had no group; the controller has one by now.\<close>

definition earlyClerk :: ShardClerk where
  "earlyClerk = \<lparr>sckCtrl = NewCtrlerClerk 1 5, sckGroups = (\<lambda>g. if g = 100 then 3 else 0), sckClientID = 7, sckSeqNum = 0,
     sckCfg = zeroConfig\<rparr>"

definition servingGroup :: "unit groupGetCall" where
  "servingGroup g i key w = (Some \<lparr>ggErr = (if g = 100 then GroupOK else GroupErrWrongGroup), ggValue = ''v''\<rparr>, w)"

definition writingGroup :: "unit groupPutCall" where
  "writingGroup g i args w = (Some (if g = 100 then GroupOK else GroupErrWrongGroup), w)"

definition joinedCtrler :: "unit queryCall" where
  "joinedCtrler num i w = (Some \<lparr>qrErr = CtrlerOK, qrConfig = \<lparr>Num = 1, Shards = replicate NShards 100, Groups = [(100, [])]\<rparr>\<rparr>, w)"

lemma owner_replicate: "sckCfg ck = c \<Longrightarrow> Shards c = replicate NShards g \<Longrightarrow> sckOwner ck key = g"
  using Key2Shard_bound [of key] by (simp add: sckOwner_def)

lemma earlyClerk_owner: "sckOwner earlyClerk key = 0"
  by (rule owner_replicate [of _ zeroConfig]) (simp_all add: earlyClerk_def zeroConfig_def)

theorem shard_clerk_stuck_witness:
  "NewShardClerk 1 (\<lambda>num i w. (Some \<lparr>qrErr = CtrlerOK, qrConfig = zeroConfig\<rparr>, w)) (NewCtrlerClerk 1 5)
      (\<lambda>g. if g = 100 then 3 else 0) 7 () = Some (Inr earlyClerk, ()) \<and>
   sckGet 1000 1000 servingGroup joinedCtrler ''k'' earlyClerk () = None \<and>
   sckPutAppend 1000 1000 writingGroup joinedCtrler ''k'' ''v'' ''Put'' earlyClerk () = None"
proof -
  have "sckGroups earlyClerk 0 = 0" by (simp add: earlyClerk_def)
  then have "sckGet 1000 1000 servingGroup joinedCtrler ''k'' earlyClerk () = None \<and>
      sckPutAppend 1000 1000 writingGroup joinedCtrler ''k'' ''v'' ''Put'' earlyClerk () = None"
    by (intro shard_clerk_stuck) (simp_all add: earlyClerk_owner)
  moreover have "NewShardClerk 1 (\<lambda>num i w. (Some \<lparr>qrErr = CtrlerOK, qrConfig = zeroConfig\<rparr>, w)) (NewCtrlerClerk 1 5)
      (\<lambda>g. if g = 100 then 3 else 0) 7 () = Some (Inr earlyClerk, ())"
    by (simp add: NewShardClerk_def ckQuery_def ckAnswered_def queryVerdict_def NewCtrlerClerk_def earlyClerk_def)
  ultimately show ?thesis by blast
qed

text \<open>The result a reply to \<open>Get\<close> settles, if it settles one.\<close>

definition getResult :: "GroupGetReply option \<Rightarrow> string option" where
  "getResult r = (case r of None \<Rightarrow> None
     | Some x \<Rightarrow> if ggErr x = GroupOK then Some (ggValue x) else if ggErr x = GroupErrNoKey then Some '''' else None)"

lemma getReplicas_none:
  assumes "\<And>i w. call grp i key w = (gr i, w)" "\<forall>i \<in> set is. getResult (gr i) = None"
  shows "getReplicas call grp key is b w = (None, b \<or> (\<exists>i \<in> set is. \<exists>r. gr i = Some r \<and> ggErr r = GroupErrWrongGroup), w)"
  using assms(2)
proof (induction "is" arbitrary: b)
  case (Cons i "is")
  then have "getReplicas call grp key (i # is) b w =
      getReplicas call grp key is (b \<or> (\<exists>r. gr i = Some r \<and> ggErr r = GroupErrWrongGroup)) w"
    by (auto simp: assms(1) getResult_def split: option.splits if_splits)
  then show ?case using Cons by simp
qed simp

lemma getReplicas_found:
  assumes "\<And>i w. call grp i key w = (gr i, w)" "\<forall>i \<in> set is. \<forall>v'. getResult (gr i) = Some v' \<longrightarrow> v' = v"
    and "\<exists>i \<in> set is. getResult (gr i) \<noteq> None"
  shows "\<exists>b'. getReplicas call grp key is b w = (Some v, b', w)"
  using assms(2,3)
proof (induction "is" arbitrary: b)
  case (Cons i "is")
  show ?case
  proof (cases "getResult (gr i)")
    case None
    then have "getReplicas call grp key (i # is) b w =
        getReplicas call grp key is (b \<or> (\<exists>r. gr i = Some r \<and> ggErr r = GroupErrWrongGroup)) w"
      by (auto simp: assms(1) getResult_def split: option.splits if_splits)
    then show ?thesis using Cons None by simp
  next
    case (Some v')
    then have "v' = v" using Cons.prems(1) by simp
    then show ?thesis using Some by (auto simp: assms(1) getResult_def split: option.splits if_splits)
  qed
qed simp

lemma putReplicas_none:
  assumes "\<And>i w. call grp i args w = (pr i, w)" "\<forall>i \<in> set is. pr i \<noteq> Some GroupOK"
  shows "putReplicas call grp args is b w = (False, b \<or> (\<exists>i \<in> set is. pr i = Some GroupErrWrongGroup), w)"
  using assms(2)
proof (induction "is" arbitrary: b)
  case (Cons i "is")
  then have "putReplicas call grp args (i # is) b w = putReplicas call grp args is (b \<or> pr i = Some GroupErrWrongGroup) w"
    by (auto simp: assms(1) split: option.split)
  then show ?case using Cons by simp
qed simp

lemma putReplicas_found:
  assumes "\<And>i w. call grp i args w = (pr i, w)" "\<exists>i \<in> set is. pr i = Some GroupOK"
  shows "\<exists>b'. putReplicas call grp args is b w = (True, b', w)"
  using assms(2)
proof (induction "is" arbitrary: b)
  case (Cons i "is")
  show ?case
  proof (cases "pr i = Some GroupOK")
    case False
    then have "putReplicas call grp args (i # is) b w = putReplicas call grp args is (b \<or> pr i = Some GroupErrWrongGroup) w"
      by (auto simp: assms(1) split: option.split)
    then show ?thesis using Cons False by simp
  qed (simp add: assms(1))
qed simp

lemma tryServers_config:
  assumes "\<And>num i w. query num i w = (qr i, w)" "\<And>i r. qr i = Some r \<Longrightarrow> qrErr r = CtrlerOK \<Longrightarrow> qrConfig r = cfg'"
    and "tryServers queryVerdict (query num) start n is w = (Inr (Some (idx, c)), w')"
  shows "c = cfg' \<and> w' = w"
  using assms(3)
proof (induction "is")
  case (Cons i "is")
  then show ?case using assms(2)
    by (auto simp: assms(1) queryVerdict_def Let_def split: option.splits if_splits)
qed simp

lemma sckRefetch_gets:
  assumes q: "\<And>num i w. query num i w = (qr i, w)" and c: "\<And>i r. qr i = Some r \<Longrightarrow> qrErr r = CtrlerOK \<Longrightarrow> qrConfig r = cfg'"
    and j: "j < ckServers (sckCtrl ck)" "qr j = Some r" "qrErr r = CtrlerOK"
  shows "\<exists>ctrl'. sckRefetch (Suc qfuel) query ck w = Some (Inr (), ck\<lparr>sckCtrl := ctrl', sckCfg := cfg'\<rparr>, w)"
proof -
  have "\<exists>idx a w'. tryServers queryVerdict (query (-1)) (ckLastKnown (sckCtrl ck)) (ckServers (sckCtrl ck))
      [0..<ckServers (sckCtrl ck)] w = (Inr (Some (idx, a)), w')"
  proof (rule tryServers_takes [of j])
    show "j \<in> (\<lambda>i. (ckLastKnown (sckCtrl ck) + i) mod ckServers (sckCtrl ck)) ` set [0..<ckServers (sckCtrl ck)]"
      using mod_covers [OF j(1)] by simp
  qed (use j in \<open>auto simp: q queryVerdict_def\<close>)
  then obtain idx a w' where t: "tryServers queryVerdict (query (-1)) (ckLastKnown (sckCtrl ck)) (ckServers (sckCtrl ck))
      [0..<ckServers (sckCtrl ck)] w = (Inr (Some (idx, a)), w')" by blast
  have "a = cfg' \<and> w' = w" by (rule tryServers_config [where query = query and qr = qr, OF _ _ t]) (use q c in auto)
  with t show ?thesis by (auto simp: sckRefetch_def ckQuery_def ckAnswered_def)
qed


definition movedClerk :: ShardClerk where
  "movedClerk = earlyClerk\<lparr>sckCfg := \<lparr>Num = 1, Shards = replicate NShards 50, Groups = [(50, [])]\<rparr>, sckGroups := (\<lambda>g. 1)\<rparr>"


end
