(* ===== verification/Shard_World.thy ===== *)
theory Shard_World
  imports Group_Server
begin

text \<open>
  The groups of the sharded store together (\<open>src/05-sharded-kv/group_server.go\<close>). Every group is the state machine of \<open>Group_Server\<close>, at the
  state its committed log has reached (\<open>grp\<close>) with all the states before it (\<open>past\<close>), at any of which a replica may still
  be. The groups adopt the versions of one history of configurations, each at its own pace; a leader pulls a shard from any
  replica of the donor, and the \<open>Migrate\<close> entry it proposes (\<open>wire\<close>) is applied later or never, or more than once; clients write to any
  group, and \<open>GC\<close> entries come at any time.

  \<open>truth\<close> is the specification: one map to which every accepted write is applied. No step of a group reads it. \<open>tainted\<close> records that one
  of two things happened that the code does not prevent: a \<open>Migrate\<close> entry landed in a later tenure of the group than the
  one it was pulled for, or a \<open>GC\<close> entry deleted a shard that nobody had taken over.
\<close>

section \<open>Tenures\<close>

text \<open>The owner of a shard in version \<open>n\<close>, and the version in which group \<open>h\<close> last gained it up to version \<open>n\<close> (0: never).\<close>

definition own :: "(nat \<Rightarrow> Config) \<Rightarrow> nat \<Rightarrow> nat \<Rightarrow> int" where
  "own hist s n = Shards (hist n) ! s"

fun tenure :: "(nat \<Rightarrow> int) \<Rightarrow> int \<Rightarrow> nat \<Rightarrow> nat" where
  "tenure ow h 0 = 0"
| "tenure ow h (Suc n) = (if ow (Suc n) = h \<and> ow n \<noteq> h then Suc n else tenure ow h n)"

definition starts :: "(nat \<Rightarrow> int) \<Rightarrow> nat \<Rightarrow> bool" where
  "starts ow k \<longleftrightarrow> 1 \<le> k \<and> ow k \<noteq> 0 \<and> ow (k - 1) \<noteq> ow k"

lemma tenure_le: "tenure ow h n \<le> n"
  by (induction n) auto

lemma tenure_starts: "1 \<le> tenure ow h n \<Longrightarrow> ow (tenure ow h n) = h \<and> ow (tenure ow h n - 1) \<noteq> h"
  by (induction n) (auto split: if_splits)

lemma tenure_mono: "m \<le> n \<Longrightarrow> tenure ow h m \<le> tenure ow h n"
proof (induction rule: dec_induct)
  case (step n)
  then show ?case using tenure_le [of ow h n] by auto
qed simp

lemma tenure_gain: "1 \<le> k \<Longrightarrow> k \<le> n \<Longrightarrow> ow k = h \<Longrightarrow> ow (k - 1) \<noteq> h \<Longrightarrow> k \<le> tenure ow h n"
  by (induction n) (auto simp: le_Suc_eq)

text \<open>Once unassigned means never assigned before: \<open>h\<close> owns the shard throughout its tenure.\<close>

lemma tenure_own:
  assumes "ow n = h" "ow 0 \<noteq> h"
  shows "1 \<le> tenure ow h n \<and> (\<forall>j. tenure ow h n \<le> j \<longrightarrow> j \<le> n \<longrightarrow> ow j = h)"
  using assms
proof (induction n)
  case (Suc n)
  show ?case
  proof (cases "ow n = h")
    case True
    then show ?thesis using Suc by (auto simp: le_Suc_eq)
  next
    case False
    then show ?thesis using Suc.prems by (auto simp: le_antisym)
  qed
qed simp

lemma tenure_at_start: "starts ow k \<Longrightarrow> tenure ow (ow k) k = k"
  by (cases k) (auto simp: starts_def)

section \<open>The world\<close>

record shardWorld =
  grp :: "int \<Rightarrow> GroupServer"
  past :: "int \<Rightarrow> GroupServer set"
  wire :: "(int \<times> nat \<times> groupOp) set"
  truth :: "string \<rightharpoonup> string"
  tainted :: bool

definition num :: "GroupServer \<Rightarrow> nat" where
  "num st = nat (Num (cfg st))"

definition advance :: "int \<Rightarrow> GroupServer \<Rightarrow> shardWorld \<Rightarrow> shardWorld" where
  "advance g st W = W\<lparr>grp := (grp W)(g := st), past := (past W)(g := insert st (past W g))\<rparr>"

text \<open>Group \<open>h\<close>, or some replica of it, has had the shard complete in its tenure from \<open>k\<close>.\<close>

definition doneAt :: "(nat \<Rightarrow> Config) \<Rightarrow> shardWorld \<Rightarrow> nat \<Rightarrow> nat \<Rightarrow> bool" where
  "doneAt hist W s k \<longleftrightarrow> 1 \<le> k \<and> (\<exists>h st. h \<noteq> 0 \<and> st \<in> past W h \<and> migrating st s = None \<and> tenure (own hist s) h (num st) = k)"

definition lateLanding :: "(nat \<Rightarrow> Config) \<Rightarrow> int \<Rightarrow> nat \<Rightarrow> nat \<Rightarrow> shardWorld \<Rightarrow> bool" where
  "lateLanding hist g n s W \<longleftrightarrow> migrating (grp W g) s \<noteq> None \<and> tenure (own hist s) g (num (grp W g)) \<noteq> tenure (own hist s) g n"

definition earlyGC :: "(nat \<Rightarrow> Config) \<Rightarrow> int \<Rightarrow> nat \<Rightarrow> shardWorld \<Rightarrow> bool" where
  "earlyGC hist g s W \<longleftrightarrow> leaving (grp W g) s \<noteq> None \<and> migrating (grp W g) s = None \<and>
     \<not> (\<exists>k. doneAt hist W s k \<and> tenure (own hist s) g (num (grp W g)) < k)"

text \<open>The specification of a write: it takes effect if the group accepts it and it is not a duplicate.\<close>

definition specWrite :: "groupOp \<Rightarrow> GroupServer \<Rightarrow> (string \<rightharpoonup> string) \<Rightarrow> (string \<rightharpoonup> string)" where
  "specWrite op st m =
     (if goType op \<in> {''Put'', ''Append''} \<and> ownsLocked (goKey op) st \<and> goSeqNum op > get0 (gDuplicateTable st) (goClientID op)
      then m(goKey op \<mapsto> (if goType op = ''Put'' then goValue op
             else (case m (goKey op) of None \<Rightarrow> '''' | Some v \<Rightarrow> v) @ goValue op))
      else m)"

inductive wstep :: "(nat \<Rightarrow> Config) \<Rightarrow> shardWorld \<Rightarrow> shardWorld \<Rightarrow> bool" for hist where
  config: "g \<noteq> 0 \<Longrightarrow> groupApply t (emptyGroupOp\<lparr>goType := ''Config'', goConfig := hist n\<rparr>) (grp W g) = Inr (err, st) \<Longrightarrow>
    wstep hist W (advance g st W)"
| pull: "g \<noteq> 0 \<Longrightarrow> sg \<in> past W g \<Longrightarrow> migrating sg s = Some d \<Longrightarrow> sd \<in> past W d \<Longrightarrow> pullFrom [sd] s (Num (cfg sg)) = Some reply \<Longrightarrow>
    wstep hist W (W\<lparr>wire := insert (g, num sg, migrateOp s reply) (wire W)\<rparr>)"
| land: "g \<noteq> 0 \<Longrightarrow> (g, n, op) \<in> wire W \<Longrightarrow> groupApply t op (grp W g) = Inr (err, st) \<Longrightarrow>
    wstep hist W ((advance g st W)\<lparr>tainted := tainted W \<or> lateLanding hist g n (goShard op) W\<rparr>)"
| gc: "g \<noteq> 0 \<Longrightarrow> groupApply t (emptyGroupOp\<lparr>goType := ''GC'', goShard := s\<rparr>) (grp W g) = Inr (err, st) \<Longrightarrow>
    wstep hist W ((advance g st W)\<lparr>tainted := tainted W \<or> earlyGC hist g s W\<rparr>)"
| client: "g \<noteq> 0 \<Longrightarrow> goType op \<in> {''Noop'', ''Put'', ''Append''} \<Longrightarrow> groupApply t op (grp W g) = Inr (err, st) \<Longrightarrow>
    wstep hist W ((advance g st W)\<lparr>truth := specWrite op (grp W g) (truth W)\<rparr>)"

text \<open>Every group starts empty, as \<open>NewGroupServer\<close> makes it.\<close>

definition initWorld :: "(int \<Rightarrow> GroupServer) \<Rightarrow> shardWorld" where
  "initWorld gs = \<lparr>grp = gs, past = (\<lambda>g. {gs g}), wire = {}, truth = Map.empty, tainted = False\<rparr>"

definition freshGroups :: "(int \<Rightarrow> GroupServer) \<Rightarrow> bool" where
  "freshGroups gs \<longleftrightarrow> (\<forall>g. \<exists>r m. ReadSnapshot r = None \<and> NewGroupServer r g m = Inr (gs g))"

inductive reachableW :: "(nat \<Rightarrow> Config) \<Rightarrow> (int \<Rightarrow> GroupServer) \<Rightarrow> shardWorld \<Rightarrow> bool" for hist gs where
  init: "reachableW hist gs (initWorld gs)"
| step: "reachableW hist gs W \<Longrightarrow> wstep hist W W' \<Longrightarrow> reachableW hist gs W'"

text \<open>
  The history that the controller serves: versions numbered from the empty one, and a shard that was assigned once is never
  unassigned again, that is, the groups never all leave.
\<close>

definition histOk :: "(nat \<Rightarrow> Config) \<Rightarrow> bool" where
  "histOk hist \<longleftrightarrow> hist 0 = zeroConfig \<and> (\<forall>n. Num (hist n) = int n) \<and>
     (\<forall>n s. s < NShards \<longrightarrow> own hist s n \<noteq> 0 \<longrightarrow> own hist s (Suc n) \<noteq> 0)"

lemma histOk_zero: "histOk hist \<Longrightarrow> s < NShards \<Longrightarrow> own hist s 0 = 0"
  by (simp add: histOk_def own_def)

lemma histOk_unowned:
  assumes "histOk hist" "s < NShards" "own hist s n = 0" "m \<le> n"
  shows "own hist s m = 0"
  using assms(4)
proof (induction rule: inc_induct)
  case (step k)
  then show ?case using assms(1,2) by (auto simp: histOk_def)
qed (rule assms(3))

section \<open>The invariant, for one shard\<close>

text \<open>Whoever owned the shard in a version before \<open>k\<close> has moved past that version.\<close>

definition passed :: "(nat \<Rightarrow> Config) \<Rightarrow> shardWorld \<Rightarrow> nat \<Rightarrow> nat \<Rightarrow> bool" where
  "passed hist W s k \<longleftrightarrow> (\<forall>j<k. own hist s j \<noteq> 0 \<longrightarrow> j < num (grp W (own hist s j)))"

definition holdsTruth :: "shardWorld \<Rightarrow> nat \<Rightarrow> (string \<rightharpoonup> string) \<Rightarrow> bool" where
  "holdsTruth W s m \<longleftrightarrow> (\<forall>key. Key2Shard key = s \<longrightarrow> m key = truth W key)"

definition baseInv :: "(nat \<Rightarrow> Config) \<Rightarrow> shardWorld \<Rightarrow> bool" where
  "baseInv hist W \<longleftrightarrow> (\<forall>g. g \<noteq> 0 \<longrightarrow> grp W g \<in> past W g \<and>
     (\<forall>st \<in> past W g. gid st = g \<and> cfg st = hist (num st) \<and> num st \<le> num (grp W g)))"

definition flagInv :: "(nat \<Rightarrow> Config) \<Rightarrow> shardWorld \<Rightarrow> nat \<Rightarrow> bool" where
  "flagInv hist W s \<longleftrightarrow> (\<forall>g st. g \<noteq> 0 \<longrightarrow> st \<in> past W g \<longrightarrow>
     (\<forall>d. migrating st s = Some d \<longrightarrow> 1 \<le> tenure (own hist s) g (num st) \<and> d \<noteq> 0 \<and>
        own hist s (tenure (own hist s) g (num st) - 1) = d) \<and>
     (migrating st s = None \<longrightarrow> tenure (own hist s) g (num st) = tenure (own hist s) g (num (grp W g)) \<longrightarrow> migrating (grp W g) s = None))"

definition doneInv :: "(nat \<Rightarrow> Config) \<Rightarrow> shardWorld \<Rightarrow> nat \<Rightarrow> bool" where
  "doneInv hist W s \<longleftrightarrow> (\<forall>k. doneAt hist W s k \<longrightarrow>
     passed hist W s k \<and> (\<forall>k'<k. starts (own hist s) k' \<longrightarrow> doneAt hist W s k'))"

text \<open>In the latest tenure that was completed, the group has the truth, and so has every replica that has seen the tenure end.\<close>

definition dataInv :: "(nat \<Rightarrow> Config) \<Rightarrow> shardWorld \<Rightarrow> nat \<Rightarrow> bool" where
  "dataInv hist W s \<longleftrightarrow> (\<forall>g st. g \<noteq> 0 \<longrightarrow> st \<in> past W g \<longrightarrow> migrating st s = None \<longrightarrow>
     1 \<le> tenure (own hist s) g (num st) \<longrightarrow> (\<forall>k. doneAt hist W s k \<longrightarrow> k \<le> tenure (own hist s) g (num st)) \<longrightarrow>
     st = grp W g \<or> own hist s (num st) \<noteq> g \<longrightarrow> holdsTruth W s (gStore st))"

definition wireOk :: "(nat \<Rightarrow> Config) \<Rightarrow> shardWorld \<Rightarrow> nat \<Rightarrow> int \<Rightarrow> nat \<Rightarrow> groupOp \<Rightarrow> bool" where
  "wireOk hist W s g n op \<longleftrightarrow> (let e = tenure (own hist s) g n in
     g \<noteq> 0 \<and> goType op = ''Migrate'' \<and> n \<le> num (grp W g) \<and> 1 \<le> e \<and> passed hist W s e \<and>
     (\<forall>k<e. starts (own hist s) k \<longrightarrow> doneAt hist W s k) \<and>
     ((\<forall>k. doneAt hist W s k \<longrightarrow> k < e) \<longrightarrow> holdsTruth W s (goData op)) \<and>
     (\<forall>key. Key2Shard key \<noteq> s \<longrightarrow> goData op key = None))"

definition valueInv :: "(nat \<Rightarrow> Config) \<Rightarrow> shardWorld \<Rightarrow> nat \<Rightarrow> bool" where
  "valueInv hist W s \<longleftrightarrow> (\<forall>key. Key2Shard key = s \<longrightarrow>
     (truth W key = None \<longrightarrow> (\<forall>g st. g \<noteq> 0 \<longrightarrow> st \<in> past W g \<longrightarrow> gStore st key = None) \<and> (\<forall>(g, n, op) \<in> wire W. goData op key = None)) \<and>
     (truth W key \<noteq> None \<longrightarrow> (\<exists>k. doneAt hist W s k)))"

definition shardInv :: "(nat \<Rightarrow> Config) \<Rightarrow> shardWorld \<Rightarrow> nat \<Rightarrow> bool" where
  "shardInv hist W s \<longleftrightarrow> flagInv hist W s \<and> doneInv hist W s \<and> dataInv hist W s \<and> valueInv hist W s \<and>
     (\<forall>(g, n, op) \<in> wire W. goShard op = s \<longrightarrow> wireOk hist W s g n op)"

lemma baseInvD:
  assumes "baseInv hist W" "g \<noteq> 0"
  shows "grp W g \<in> past W g" "st \<in> past W g \<Longrightarrow> gid st = g" "st \<in> past W g \<Longrightarrow> cfg st = hist (num st)"
    "st \<in> past W g \<Longrightarrow> num st \<le> num (grp W g)"
  using assms unfolding baseInv_def by blast+

lemma shardInvD:
  assumes "shardInv hist W s"
  shows "flagInv hist W s" "doneInv hist W s" "dataInv hist W s" "valueInv hist W s"
    "(g, n, op) \<in> wire W \<Longrightarrow> goShard op = s \<Longrightarrow> wireOk hist W s g n op"
  using assms unfolding shardInv_def by auto

lemma doneAtI: "g \<noteq> 0 \<Longrightarrow> st \<in> past W g \<Longrightarrow> migrating st s = None \<Longrightarrow> 1 \<le> tenure (own hist s) g (num st) \<Longrightarrow>
    doneAt hist W s (tenure (own hist s) g (num st))"
  unfolding doneAt_def by blast

lemma doneAt_starts: "doneAt hist W s k \<Longrightarrow> starts (own hist s) k"
  unfolding doneAt_def starts_def using tenure_starts by metis

section \<open>Exclusive service\<close>

text \<open>A group that serves the shard is in the latest tenure that was completed or pulled for.\<close>

lemma serving_latest:
  assumes "g \<noteq> 0" "own hist s (num (grp W g)) = g" "own hist s 0 = 0" "passed hist W s k" "starts (own hist s) k"
  shows "k \<le> tenure (own hist s) g (num (grp W g))"
proof (rule ccontr)
  let ?n = "num (grp W g)" and ?ow = "own hist s"
  assume less: "\<not> k \<le> tenure ?ow g ?n"
  have t: "\<forall>j. tenure ?ow g ?n \<le> j \<longrightarrow> j \<le> ?n \<longrightarrow> ?ow j = g" using tenure_own [of ?ow ?n g] assms(1-3) by simp
  show False
  proof (cases "?n < k")
    case True
    then have "?n < num (grp W (?ow ?n))" using assms(1,2,4) unfolding passed_def by metis
    then show False using assms(2) by simp
  next
    case False
    then have "?ow k = g" "?ow (k - 1) = g" using t less by auto
    then show False using assms(5) by (simp add: starts_def)
  qed
qed

lemma serving_unique:
  assumes "doneInv hist W s" "baseInv hist W" "own hist s 0 = 0"
    and "g \<noteq> 0" "own hist s (num (grp W g)) = g" "migrating (grp W g) s = None"
    and "h \<noteq> 0" "own hist s (num (grp W h)) = h" "migrating (grp W h) s = None"
  shows "g = h"
proof -
  let ?ow = "own hist s" and ?t = "\<lambda>g. tenure (own hist s) g (num (grp W g))"
  have t: "1 \<le> ?t x \<and> ?ow (?t x) = x" if "x \<noteq> 0" "?ow (num (grp W x)) = x" for x
    using tenure_own [of ?ow "num (grp W x)" x] tenure_starts [of ?ow x "num (grp W x)"] assms(3) that by metis
  note tg = t [OF assms(4,5)] and th = t [OF assms(7,8)]
  have d: "doneAt hist W s (?t g)" "doneAt hist W s (?t h)"
    using doneAtI [OF assms(4) baseInvD(1) [OF assms(2,4)] assms(6)] doneAtI [OF assms(7) baseInvD(1) [OF assms(2,7)] assms(9)] tg th by blast+
  then have p: "passed hist W s (?t g)" "passed hist W s (?t h)" using assms(1) unfolding doneInv_def by blast+
  have "?t h \<le> ?t g" by (rule serving_latest [OF assms(4,5,3) p(2) doneAt_starts [OF d(2)]])
  moreover have "?t g \<le> ?t h" by (rule serving_latest [OF assms(7,8,3) p(1) doneAt_starts [OF d(1)]])
  ultimately have "?t g = ?t h" by simp
  then show ?thesis using tg th by metis
qed

section \<open>Steps of one group\<close>

definition moved :: "int \<Rightarrow> GroupServer \<Rightarrow> shardWorld \<Rightarrow> shardWorld \<Rightarrow> bool" where
  "moved g st W W' \<longleftrightarrow> grp W' = (grp W)(g := st) \<and> past W' = (past W)(g := insert st (past W g)) \<and> wire W' = wire W"

lemma movedD:
  assumes "moved g st W W'"
  shows "grp W' g = st" "h \<noteq> g \<Longrightarrow> grp W' h = grp W h" "wire W' = wire W" "x \<in> past W' h \<longleftrightarrow> x \<in> past W h \<or> (h = g \<and> x = st)"
  using assms by (auto simp: moved_def)

lemma moved_base:
  assumes "moved g st W W'" "baseInv hist W" "g \<noteq> 0" "gid st = g" "cfg st = hist (num st)" "num (grp W g) \<le> num st"
  shows "baseInv hist W'"
  unfolding baseInv_def
proof (intro allI impI conjI ballI)
  fix h :: int and x assume h: "h \<noteq> 0"
  show "grp W' h \<in> past W' h" using baseInvD(1) [OF assms(2) h] movedD [OF assms(1)] by (cases "h = g") auto
  assume x: "x \<in> past W' h"
  have "gid x = h \<and> cfg x = hist (num x) \<and> num x \<le> num (grp W' h)"
  proof (cases "h = g \<and> x = st")
    case True
    then show ?thesis using movedD(1) [OF assms(1)] assms(4,5) by simp
  next
    case False
    then have x': "x \<in> past W h" using x movedD(4) [OF assms(1)] by blast
    have "num (grp W h) \<le> num (grp W' h)" using movedD(1,2) [OF assms(1)] assms(6) by (cases "h = g") simp_all
    then show ?thesis using baseInvD(2-4) [OF assms(2) h x'] by simp
  qed
  then show "gid x = h" "cfg x = hist (num x)" "num x \<le> num (grp W' h)" by simp_all
qed

lemma moved_passed:
  assumes "moved g st W W'" "num (grp W g) \<le> num st" "passed hist W s k"
  shows "passed hist W' s k"
  unfolding passed_def
proof (intro allI impI)
  fix j assume "j < k" "own hist s j \<noteq> 0"
  then have "j < num (grp W (own hist s j))" using assms(3) by (simp add: passed_def)
  then show "j < num (grp W' (own hist s j))" using movedD(1,2) [OF assms(1)] assms(2) by (cases "own hist s j = g") auto
qed

lemma moved_doneAt:
  assumes "moved g st W W'" "g \<noteq> 0"
  shows "doneAt hist W' s k \<longleftrightarrow> doneAt hist W s k \<or> (1 \<le> k \<and> migrating st s = None \<and> tenure (own hist s) g (num st) = k)"
  unfolding doneAt_def using movedD(4) [OF assms(1)] assms(2) by blast

text \<open>A step that changes nothing of shard \<open>s\<close>.\<close>

definition sameShard :: "nat \<Rightarrow> GroupServer \<Rightarrow> GroupServer \<Rightarrow> bool" where
  "sameShard s st st' \<longleftrightarrow> cfg st' = cfg st \<and> migrating st' s = migrating st s \<and> (\<forall>key. Key2Shard key = s \<longrightarrow> gStore st' key = gStore st key)"

lemma quiet_shardInv:
  assumes mv: "moved g st W W'" and g: "g \<noteq> 0" and base: "baseInv hist W" and inv: "shardInv hist W s"
    and same: "sameShard s (grp W g) st" and tr: "\<And>key. Key2Shard key = s \<Longrightarrow> truth W' key = truth W key"
  shows "shardInv hist W' s"
proof -
  let ?t = "\<lambda>h x. tenure (own hist s) h (num x)"
  have n: "num st = num (grp W g)" and m: "migrating st s = migrating (grp W g) s" using same by (simp_all add: sameShard_def num_def)
  have gp: "grp W g \<in> past W g" by (rule baseInvD(1) [OF base g])
  have nums: "num (grp W' h) = num (grp W h)" "migrating (grp W' h) s = migrating (grp W h) s" for h
    using movedD(1,2) [OF mv] n m by (cases "h = g"; simp)+
  have passed: "passed hist W' s k = passed hist W s k" for k unfolding passed_def nums ..
  have done_eq: "doneAt hist W' s k = doneAt hist W s k" for k
    using moved_doneAt [OF mv g, of hist s k] doneAtI [OF g gp, of s hist] n m by auto
  have holds: "holdsTruth W' s x = holdsTruth W s x" for x unfolding holdsTruth_def using tr by auto
  have store: "holdsTruth W s (gStore st) = holdsTruth W s (gStore (grp W g))"
    using same unfolding holdsTruth_def sameShard_def by auto
  have flag: "flagInv hist W' s"
    unfolding flagInv_def nums
  proof (intro allI impI)
    fix h x assume h: "h \<noteq> 0" and x: "x \<in> past W' h"
    then obtain y where y: "y \<in> past W h" "num y = num x" "migrating y s = migrating x s" using movedD(4) [OF mv] n m gp by metis
    then show "(\<forall>d. migrating x s = Some d \<longrightarrow> 1 \<le> ?t h x \<and> d \<noteq> 0 \<and> own hist s (?t h x - 1) = d) \<and>
        (migrating x s = None \<longrightarrow> ?t h x = ?t h (grp W h) \<longrightarrow> migrating (grp W h) s = None)"
      using shardInvD(1) [OF inv] h unfolding flagInv_def by metis
  qed
  have "dataInv hist W' s"
    unfolding dataInv_def done_eq holds
  proof (intro allI impI)
    fix h x assume h: "h \<noteq> 0" "x \<in> past W' h" "migrating x s = None" "1 \<le> ?t h x" "\<forall>k. doneAt hist W s k \<longrightarrow> k \<le> ?t h x"
      "x = grp W' h \<or> own hist s (num x) \<noteq> h"
    show "holdsTruth W s (gStore x)"
    proof (cases "h = g \<and> x = st")
      case True
      then have "holdsTruth W s (gStore (grp W g))"
        using shardInvD(3) [OF inv] g gp h(3-5) n m unfolding dataInv_def by metis
      then show ?thesis using True store by simp
    next
      case False
      then have "x \<in> past W h" "x = grp W h \<or> own hist s (num x) \<noteq> h" using h(2,6) movedD [OF mv] by (metis, metis)
      then show ?thesis using shardInvD(3) [OF inv] h(1,3-5) unfolding dataInv_def by blast
    qed
  qed
  moreover have "valueInv hist W' s"
    unfolding valueInv_def done_eq movedD(3) [OF mv]
  proof (intro allI impI conjI)
    fix key h x assume "Key2Shard key = s" "truth W' key = None" "h \<noteq> 0" "x \<in> past W' h"
    then show "gStore x key = None" using shardInvD(4) [OF inv] tr same gp g movedD(4) [OF mv] unfolding valueInv_def sameShard_def by metis
  qed (use shardInvD(4) [OF inv] tr in \<open>auto simp: valueInv_def\<close>)
  moreover have "doneInv hist W' s" using shardInvD(2) [OF inv] unfolding doneInv_def done_eq passed .
  ultimately show ?thesis using flag shardInvD(5) [OF inv] unfolding shardInv_def wireOk_def done_eq passed holds nums movedD(3) [OF mv] by blast
qed

lemma moved_wireOk:
  assumes "moved g st W W'" "g \<noteq> 0" "num (grp W g) \<le> num st" "wireOk hist W s h n op"
    and "(\<forall>k. doneAt hist W' s k \<longrightarrow> k < tenure (own hist s) h n) \<Longrightarrow> holdsTruth W s (goData op) \<Longrightarrow> holdsTruth W' s (goData op)"
  shows "wireOk hist W' s h n op"
proof -
  have "num (grp W h) \<le> num (grp W' h)" using movedD(1,2) [OF assms(1)] assms(3) by (cases "h = g") simp_all
  moreover have "doneAt hist W s k \<Longrightarrow> doneAt hist W' s k" for k using moved_doneAt [OF assms(1,2)] by blast
  ultimately show ?thesis using assms(4,5) moved_passed [OF assms(1,3)] unfolding wireOk_def Let_def by (meson order_trans)
qed

lemma moved_doneInv:
  assumes "moved g st W W'" "g \<noteq> 0" "num (grp W g) \<le> num st" "doneInv hist W s"
    and "\<And>k. migrating st s = None \<Longrightarrow> tenure (own hist s) g (num st) = k \<Longrightarrow> 1 \<le> k \<Longrightarrow> \<not> doneAt hist W s k \<Longrightarrow>
      passed hist W' s k \<and> (\<forall>k'<k. starts (own hist s) k' \<longrightarrow> doneAt hist W s k')"
  shows "doneInv hist W' s"
  unfolding doneInv_def
proof (intro allI impI)
  fix k assume k: "doneAt hist W' s k"
  have mono: "doneAt hist W s k' \<Longrightarrow> doneAt hist W' s k'" for k' using moved_doneAt [OF assms(1,2)] by blast
  have "passed hist W' s k \<and> (\<forall>k'<k. starts (own hist s) k' \<longrightarrow> doneAt hist W s k')"
  proof (cases "doneAt hist W s k")
    case True
    then show ?thesis using assms(4) moved_passed [OF assms(1,3)] unfolding doneInv_def by blast
  next
    case False
    then show ?thesis using k assms(5) moved_doneAt [OF assms(1,2)] by blast
  qed
  then show "passed hist W' s k \<and> (\<forall>k'<k. starts (own hist s) k' \<longrightarrow> doneAt hist W' s k')" using mono by blast
qed

text \<open>The states of before keep what \<open>dataInv\<close> says of them as long as the truth of the shard stays.\<close>

lemma moved_dataInv:
  assumes mv: "moved g st W W'" and g: "g \<noteq> 0" and data: "dataInv hist W s"
    and tr: "\<And>key. Key2Shard key = s \<Longrightarrow> truth W' key = truth W key"
    and new: "migrating st s = None \<Longrightarrow> 1 \<le> tenure (own hist s) g (num st) \<Longrightarrow>
      (\<forall>k. doneAt hist W s k \<longrightarrow> k \<le> tenure (own hist s) g (num st)) \<Longrightarrow> holdsTruth W s (gStore st)"
  shows "dataInv hist W' s"
  unfolding dataInv_def
proof (intro allI impI)
  let ?t = "\<lambda>h x. tenure (own hist s) h (num x)"
  fix h x assume h: "h \<noteq> 0" "x \<in> past W' h" "migrating x s = None" "1 \<le> ?t h x" "\<forall>k. doneAt hist W' s k \<longrightarrow> k \<le> ?t h x"
    "x = grp W' h \<or> own hist s (num x) \<noteq> h"
  have top: "\<forall>k. doneAt hist W s k \<longrightarrow> k \<le> ?t h x" using h(5) moved_doneAt [OF mv g] by blast
  have "holdsTruth W s (gStore x)"
  proof (cases "h = g \<and> x = st")
    case True
    then show ?thesis using new h(3,4) top by simp
  next
    case False
    then have "x \<in> past W h" "x = grp W h \<or> own hist s (num x) \<noteq> h" using h(2,6) movedD [OF mv] by (metis, metis)
    then show ?thesis using data h(1,3,4) top unfolding dataInv_def by blast
  qed
  then show "holdsTruth W' s (gStore x)" using tr unfolding holdsTruth_def by simp
qed

lemma moved_valueInv:
  assumes mv: "moved g st W W'" and g: "g \<noteq> 0" and val: "valueInv hist W s"
    and tr: "\<And>key. Key2Shard key = s \<Longrightarrow> truth W' key = None \<Longrightarrow> truth W key = None \<and> gStore st key = None"
    and done': "\<And>key. Key2Shard key = s \<Longrightarrow> truth W key = None \<Longrightarrow> truth W' key \<noteq> None \<Longrightarrow> \<exists>k. doneAt hist W s k"
  shows "valueInv hist W' s"
  unfolding valueInv_def movedD(3) [OF mv]
proof (intro allI impI conjI)
  fix key h x assume "Key2Shard key = s" "truth W' key = None" "h \<noteq> 0" "x \<in> past W' h"
  then show "gStore x key = None" using val tr movedD(4) [OF mv] unfolding valueInv_def by metis
next
  fix key assume k: "Key2Shard key = s" "truth W' key \<noteq> None"
  then have "\<exists>k. doneAt hist W s k" using val done' unfolding valueInv_def by blast
  then show "\<exists>k. doneAt hist W' s k" using moved_doneAt [OF mv g] by blast
next
  fix key assume k: "Key2Shard key = s" "truth W' key = None"
  then show "\<forall>(g, n, op)\<in>wire W. goData op key = None" using val tr unfolding valueInv_def by blast
qed

section \<open>Adopting a configuration\<close>

lemma adopted:
  assumes "histOk hist" "s < NShards" "cfg (grp W g) = hist n" "gid (grp W g) = g" "st = adoptConfig (hist (Suc n)) (grp W g)"
  shows "num st = Suc n" "cfg st = hist (Suc n)" "gid st = g" "gStore st = gStore (grp W g)"
    "migrating st s = (if own hist s (Suc n) = g \<and> own hist s n \<noteq> g \<and> own hist s n \<noteq> 0 then Some (own hist s n) else migrating (grp W g) s)"
  using assms by (simp_all add: histOk_def adoptConfig_eq num_def gains_def own_def)

lemma first_owner:
  assumes "histOk hist" "s < NShards" "baseInv hist W" "shardInv hist W s" "g \<noteq> 0"
    and "own hist s (Suc n) = g" "own hist s n = 0" "num (grp W g) = n"
  shows "\<not> doneAt hist W s k"
proof
  assume d: "doneAt hist W s k"
  have zero: "own hist s j = 0" if "j \<le> n" for j using histOk_unowned [OF assms(1,2,7) that] .
  have "own hist s k \<noteq> 0" using doneAt_starts [OF d] by (simp add: starts_def)
  then have "Suc n \<le> k" using zero by (meson not_less_eq_eq)
  moreover have "starts (own hist s) (Suc n)" using assms(5-7) by (simp add: starts_def)
  ultimately have "doneAt hist W s (Suc n)" using d shardInvD(2) [OF assms(4)] unfolding doneInv_def by (metis le_neq_implies_less)
  then obtain h x where h: "h \<noteq> 0" "x \<in> past W h" "tenure (own hist s) h (num x) = Suc n" unfolding doneAt_def by blast
  then have "h = g" using tenure_starts [of "own hist s" h "num x"] assms(6) by simp
  then have "num x \<le> n" using baseInvD(4) [OF assms(3) h(1,2)] assms(8) by simp
  then show False using h(3) tenure_le [of "own hist s" h "num x"] by simp
qed

lemma config_flagInv:
  assumes mv: "moved g st W W'" and g: "g \<noteq> 0" and base: "baseInv hist W" and flag: "flagInv hist W s"
    and st: "num st = Suc (num (grp W g))"
      "migrating st s = (if own hist s (num st) = g \<and> own hist s (num (grp W g)) \<noteq> g \<and> own hist s (num (grp W g)) \<noteq> 0
        then Some (own hist s (num (grp W g))) else migrating (grp W g) s)"
    and first: "own hist s (num (grp W g)) = 0 \<Longrightarrow> migrating (grp W g) s = None"
  shows "flagInv hist W' s"
  unfolding flagInv_def
proof (intro allI impI)
  let ?t = "\<lambda>h x. tenure (own hist s) h (num x)"
  fix h x assume h: "h \<noteq> 0" and x: "x \<in> past W' h"
  have gp: "grp W g \<in> past W g" by (rule baseInvD(1) [OF base g])
  show "(\<forall>d. migrating x s = Some d \<longrightarrow> 1 \<le> ?t h x \<and> d \<noteq> 0 \<and> own hist s (?t h x - 1) = d) \<and>
      (migrating x s = None \<longrightarrow> ?t h x = ?t h (grp W' h) \<longrightarrow> migrating (grp W' h) s = None)"
  proof (cases "h = g \<and> x = st")
    case True
    have "\<forall>d. migrating (grp W g) s = Some d \<longrightarrow> 1 \<le> ?t g (grp W g) \<and> d \<noteq> 0 \<and> own hist s (?t g (grp W g) - 1) = d"
      using flag g gp unfolding flagInv_def by blast
    then show ?thesis using True st first movedD(1) [OF mv] by (auto split: if_splits)
  next
    case False
    then have x': "x \<in> past W h" using x movedD(4) [OF mv] by blast
    have old: "\<forall>d. migrating x s = Some d \<longrightarrow> 1 \<le> ?t h x \<and> d \<noteq> 0 \<and> own hist s (?t h x - 1) = d"
      "migrating x s = None \<longrightarrow> ?t h x = ?t h (grp W h) \<longrightarrow> migrating (grp W h) s = None"
      using flag h x' unfolding flagInv_def by blast+
    show ?thesis
    proof (cases "h = g")
      case True
      have "?t g x \<le> num (grp W g)" using baseInvD(4) [OF base h x'] tenure_le [of "own hist s" g "num x"] True by simp
      then show ?thesis using old st True movedD(1) [OF mv] by auto
    qed (use old movedD(2) [OF mv] in simp)
  qed
qed

lemma config_shardInv:
  assumes "histOk hist" "s < NShards" and mv: "moved g st W W'" and g: "g \<noteq> 0" and base: "baseInv hist W" and inv: "shardInv hist W s"
    and st: "st = adoptConfig (hist (Suc (num (grp W g)))) (grp W g)" and tr: "truth W' = truth W"
  shows "shardInv hist W' s"
proof -
  let ?ow = "own hist s" and ?n = "num (grp W g)"
  have gp: "grp W g \<in> past W g" by (rule baseInvD(1) [OF base g])
  note ad = adopted [OF assms(1,2) baseInvD(3) [OF base g gp] baseInvD(2) [OF base g gp] st]
  have le: "?n \<le> num st" using ad(1) by simp
  have none: "\<not> doneAt hist W s k" if "?ow (Suc ?n) = g" "?ow ?n = 0" for k
    using first_owner [OF assms(1,2) base inv g that refl] .
  have zero: "?ow j = 0" if "?ow ?n = 0" "j \<le> ?n" for j using histOk_unowned [OF assms(1,2) that] .
  have unflagged: "migrating (grp W g) s = None" if z: "?ow ?n = 0"
  proof (rule ccontr)
    assume "migrating (grp W g) s \<noteq> None"
    then obtain d where "migrating (grp W g) s = Some d" by blast
    then have "?ow (tenure ?ow g ?n - 1) \<noteq> 0" using shardInvD(1) [OF inv] g gp unfolding flagInv_def by metis
    moreover have "tenure ?ow g ?n - 1 \<le> ?n" using tenure_le [of ?ow g ?n] by linarith
    ultimately show False using zero [OF z] by blast
  qed
  have newdone: "?ow (Suc ?n) = g \<and> ?ow ?n = 0 \<or> doneAt hist W s (tenure ?ow g (num st))"
    if "migrating st s = None" "1 \<le> tenure ?ow g (num st)"
  proof (cases "?ow (Suc ?n) = g \<and> ?ow ?n \<noteq> g")
    case True
    then show ?thesis using that(1) ad(5) by (auto split: if_splits)
  next
    case False
    then have "tenure ?ow g (num st) = tenure ?ow g ?n" "migrating (grp W g) s = None" using that(1) ad(1,5) by (auto split: if_splits)
    then show ?thesis using doneAtI [OF g gp] that(2) by simp
  qed
  have "doneInv hist W' s"
  proof (rule moved_doneInv [OF mv g le shardInvD(2) [OF inv]])
    fix k assume k: "migrating st s = None" "tenure ?ow g (num st) = k" "1 \<le> k" "\<not> doneAt hist W s k"
    then have "?ow ?n = 0" using newdone by auto
    moreover have "k \<le> Suc ?n" using k(2) ad(1) tenure_le [of ?ow g "num st"] by simp
    ultimately have "?ow j = 0" if "j < k" for j using zero that by simp
    then show "passed hist W' s k \<and> (\<forall>k'<k. starts ?ow k' \<longrightarrow> doneAt hist W s k')" by (simp add: passed_def starts_def)
  qed
  moreover have "flagInv hist W' s" by (rule config_flagInv [OF mv g base shardInvD(1) [OF inv] ad(1)]) (use ad(1,5) unflagged in simp_all)
  moreover have "dataInv hist W' s"
  proof (rule moved_dataInv [OF mv g shardInvD(3) [OF inv]])
    assume k: "migrating st s = None" "1 \<le> tenure ?ow g (num st)" "\<forall>k. doneAt hist W s k \<longrightarrow> k \<le> tenure ?ow g (num st)"
    show "holdsTruth W s (gStore st)"
    proof (cases "?ow (Suc ?n) = g \<and> ?ow ?n = 0")
      case True
      then show ?thesis using none shardInvD(4) [OF inv] g gp unfolding holdsTruth_def ad(4) valueInv_def by metis
    next
      case False
      then have "\<not> (?ow (Suc ?n) = g \<and> ?ow ?n \<noteq> g)" using k(1) ad(5) by (auto split: if_splits)
      then have "tenure ?ow g (num st) = tenure ?ow g ?n" "migrating (grp W g) s = None" using k(1) ad(1,5) by (auto split: if_splits)
      then show ?thesis using shardInvD(3) [OF inv] g gp k(2,3) unfolding ad(4) dataInv_def by metis
    qed
  qed (simp add: tr)
  moreover have "valueInv hist W' s"
    by (rule moved_valueInv [OF mv g shardInvD(4) [OF inv]]) (use shardInvD(4) [OF inv] g gp tr ad(4) in \<open>auto simp: valueInv_def\<close>)
  moreover have "wireOk hist W' s h n op" if "(h, n, op) \<in> wire W" "goShard op = s" for h n op
    by (rule moved_wireOk [OF mv g le shardInvD(5) [OF inv that]]) (simp add: holdsTruth_def tr)
  ultimately show ?thesis using movedD(3) [OF mv] unfolding shardInv_def by auto
qed

section \<open>Migration\<close>

lemma flag_cases:
  assumes mv: "moved g st W W'" and g: "g \<noteq> 0" and base: "baseInv hist W" and flag: "flagInv hist W s"
    and st: "num st = num (grp W g)" "migrating st s = None \<or> migrating st s = migrating (grp W g) s"
  shows "flagInv hist W' s"
  unfolding flagInv_def
proof (intro allI impI)
  let ?t = "\<lambda>h x. tenure (own hist s) h (num x)"
  fix h x assume h: "h \<noteq> 0" and x: "x \<in> past W' h"
  have gp: "grp W g \<in> past W g" by (rule baseInvD(1) [OF base g])
  have old: "(\<forall>d. migrating y s = Some d \<longrightarrow> 1 \<le> ?t h y \<and> d \<noteq> 0 \<and> own hist s (?t h y - 1) = d) \<and>
      (migrating y s = None \<longrightarrow> ?t h y = ?t h (grp W h) \<longrightarrow> migrating (grp W h) s = None)" if "y \<in> past W h" for y
    using flag h that unfolding flagInv_def by blast
  show "(\<forall>d. migrating x s = Some d \<longrightarrow> 1 \<le> ?t h x \<and> d \<noteq> 0 \<and> own hist s (?t h x - 1) = d) \<and>
      (migrating x s = None \<longrightarrow> ?t h x = ?t h (grp W' h) \<longrightarrow> migrating (grp W' h) s = None)"
  proof (cases "h = g")
    case True
    then have "x = st \<or> x \<in> past W h" using x movedD(4) [OF mv] by blast
    then show ?thesis using True movedD(1) [OF mv] old [of x] old [of "grp W g"] gp st by (metis option.distinct(1))
  next
    case False
    then show ?thesis using old [of x] x movedD(2,4) [OF mv] by metis
  qed
qed

lemma landed:
  assumes "migrating x (goShard op) \<noteq> None"
  shows "cfg (landMigrate op x) = cfg x" "migrating (landMigrate op x) (goShard op) = None" "gid (landMigrate op x) = gid x"
    "gStore (landMigrate op x) = gStore x ++ goData op" "t \<noteq> goShard op \<Longrightarrow> migrating (landMigrate op x) t = migrating x t"
  using assms by (simp_all add: landMigrate_def)

lemma land_shardInv:
  assumes mv: "moved g st W W'" and g: "g \<noteq> 0" and base: "baseInv hist W" and inv: "shardInv hist W s"
    and w: "(g, n, op) \<in> wire W" "goShard op = s" and flag: "migrating (grp W g) s \<noteq> None"
    and onTime: "tenure (own hist s) g (num (grp W g)) = tenure (own hist s) g n"
    and st: "st = landMigrate op (grp W g)" and tr: "truth W' = truth W"
  shows "shardInv hist W' s"
proof -
  let ?e = "tenure (own hist s) g n"
  have gp: "grp W g \<in> past W g" by (rule baseInvD(1) [OF base g])
  note l = landed [of "grp W g" op, unfolded w(2), OF flag, folded st]
  have n: "num st = num (grp W g)" using l(1) by (simp add: num_def)
  have wo: "1 \<le> ?e" "passed hist W s ?e" "\<forall>k<?e. starts (own hist s) k \<longrightarrow> doneAt hist W s k"
    "(\<forall>k. doneAt hist W s k \<longrightarrow> k < ?e) \<Longrightarrow> holdsTruth W s (goData op)"
    using shardInvD(5) [OF inv w] unfolding wireOk_def Let_def by blast+
  have notyet: "\<not> doneAt hist W s ?e"
  proof
    assume "doneAt hist W s ?e"
    then obtain h x where x: "h \<noteq> 0" "x \<in> past W h" "migrating x s = None" "tenure (own hist s) h (num x) = ?e" unfolding doneAt_def by blast
    then have "h = g" using tenure_starts wo(1) by metis
    then show False using x shardInvD(1) [OF inv] flag onTime unfolding flagInv_def by metis
  qed
  have "dataInv hist W' s"
  proof (rule moved_dataInv [OF mv g shardInvD(3) [OF inv]])
    assume "\<forall>k. doneAt hist W s k \<longrightarrow> k \<le> tenure (own hist s) g (num st)"
    then have "\<forall>k. doneAt hist W s k \<longrightarrow> k < ?e" using notyet onTime n by (metis le_neq_implies_less)
    then have d: "holdsTruth W s (goData op)" by (rule wo(4))
    show "holdsTruth W s (gStore st)"
      unfolding holdsTruth_def l(4)
    proof (intro allI impI)
      fix key assume k: "Key2Shard key = s"
      then have "goData op key = truth W key" "truth W key = None \<longrightarrow> gStore (grp W g) key = None"
        using d shardInvD(4) [OF inv] g gp unfolding holdsTruth_def valueInv_def by metis+
      then show "(gStore (grp W g) ++ goData op) key = truth W key" by (cases "truth W key") (simp_all add: map_add_def)
    qed
  qed (simp add: tr)
  moreover have "doneInv hist W' s"
    by (rule moved_doneInv [OF mv g _ shardInvD(2) [OF inv]])
       (use n onTime wo(3) moved_passed [OF mv _ wo(2)] in simp_all)
  moreover have "flagInv hist W' s" by (rule flag_cases [OF mv g base shardInvD(1) [OF inv] n]) (simp add: l(2))
  moreover have "valueInv hist W' s"
  proof (rule moved_valueInv [OF mv g shardInvD(4) [OF inv]])
    fix key assume "Key2Shard key = s" "truth W' key = None"
    then show "truth W key = None \<and> gStore st key = None"
      using shardInvD(4) [OF inv] g gp w(1) unfolding valueInv_def tr l(4) by (fastforce simp: map_add_def)
  qed (simp add: tr)
  moreover have "wireOk hist W' s h m x" if "(h, m, x) \<in> wire W" "goShard x = s" for h m x
    by (rule moved_wireOk [OF mv g _ shardInvD(5) [OF inv that]]) (simp_all add: n holdsTruth_def tr)
  ultimately show ?thesis using movedD(3) [OF mv] unfolding shardInv_def by auto
qed

text \<open>
  What a successful \<open>Pull\<close> from a state of the donor shows: the donor has completed the tenure before the one the shard is pulled for; if that is
  still the latest one completed, its data is the truth.
\<close>

lemma donor_tenure:
  assumes "own hist s 0 = 0" and g: "g \<noteq> 0" and e: "1 \<le> e" "own hist s e = g" "own hist s (e - 1) = d" "d \<noteq> g" and d: "d \<noteq> 0"
    and base: "baseInv hist W" and inv: "shardInv hist W s"
    and sd: "sd \<in> past W d" "migrating sd s = None" "e \<le> num sd"
  shows "passed hist W s e" "\<forall>k<e. starts (own hist s) k \<longrightarrow> doneAt hist W s k"
    "(\<forall>k. doneAt hist W s k \<longrightarrow> k < e) \<Longrightarrow> holdsTruth W s (gStore sd)"
proof -
  let ?ow = "own hist s" and ?t = "tenure (own hist s) d"
  define e1 where "e1 = ?t (e - 1)"
  have t: "1 \<le> e1 \<and> (\<forall>j. e1 \<le> j \<longrightarrow> j \<le> e - 1 \<longrightarrow> ?ow j = d)"
    unfolding e1_def by (rule tenure_own) (use e(3) d assms(1) in simp_all)
  then have t_one: "1 \<le> e1" and e1: "\<And>j. e1 \<le> j \<Longrightarrow> j < e \<Longrightarrow> ?ow j = d" by auto
  have nostart: "k \<le> e1" if "starts ?ow k" "k < e" for k
  proof (rule ccontr)
    assume "\<not> k \<le> e1"
    then have "?ow k = d" "?ow (k - 1) = d" using e1 [of k] e1 [of "k - 1"] that(2) by auto
    then show False using that(1) by (simp add: starts_def)
  qed
  have ge: "e1 \<le> ?t (num sd)" unfolding e1_def using tenure_mono [of "e - 1" "num sd" ?ow d] sd(3) by simp
  then have dn: "doneAt hist W s (?t (num sd))" using doneAtI [OF d sd(1,2)] t_one by simp
  then have p: "passed hist W s (?t (num sd))" "\<forall>k<?t (num sd). starts ?ow k \<longrightarrow> doneAt hist W s k"
    using shardInvD(2) [OF inv] unfolding doneInv_def by blast+
  show "passed hist W s e"
    unfolding passed_def
  proof (intro allI impI)
    fix j assume j: "j < e" "?ow j \<noteq> 0"
    show "j < num (grp W (?ow j))"
    proof (cases "j < e1")
      case True
      then show ?thesis using p(1) ge j(2) unfolding passed_def by simp
    next
      case False
      then have "?ow j = d" using e1 j(1) by simp
      then show ?thesis using baseInvD(4) [OF base d sd(1)] sd(3) j(1) by simp
    qed
  qed
  show "\<forall>k<e. starts ?ow k \<longrightarrow> doneAt hist W s k"
  proof (intro allI impI)
    fix k assume "k < e" "starts ?ow k"
    then have "k \<le> ?t (num sd)" using nostart ge by fastforce
    then show "doneAt hist W s k" using p(2) dn \<open>starts ?ow k\<close> by (metis le_neq_implies_less)
  qed
  show "holdsTruth W s (gStore sd)" if less: "\<forall>k. doneAt hist W s k \<longrightarrow> k < e"
  proof -
    have top: "k \<le> ?t (num sd)" if "doneAt hist W s k" for k using nostart [OF doneAt_starts [OF that]] less that ge by fastforce
    have "?ow (num sd) \<noteq> d"
    proof
      assume "?ow (num sd) = d"
      then have "?ow e = d" using tenure_own [of ?ow "num sd" d] assms(1) d less dn sd(3) by (metis less_imp_le)
      then show False using e(2,4) by simp
    qed
    then show ?thesis using shardInvD(3) [OF inv] d sd(1,2) top ge t_one unfolding dataInv_def by (meson order_trans)
  qed
qed

lemma pull_shardInv:
  assumes hist: "histOk hist" "s < NShards" "t < NShards" and g: "g \<noteq> 0" and base: "baseInv hist W"
    and inv: "shardInv hist W s" "shardInv hist W t"
    and sg: "sg \<in> past W g" "migrating sg t = Some d" and sd: "sd \<in> past W d" "plErr (Pull t (Num (cfg sg)) sd) = GroupOK"
    and W': "W' = W\<lparr>wire := insert (g, num sg, migrateOp t (Pull t (Num (cfg sg)) sd)) (wire W)\<rparr>"
  shows "shardInv hist W' s"
proof -
  let ?op = "migrateOp t (Pull t (Num (cfg sg)) sd)" and ?ow = "own hist t"
  let ?e = "tenure ?ow g (num sg)"
  have op: "goShard ?op = t" "goType ?op = ''Migrate''" "goData ?op = (\<lambda>k. if Key2Shard k = t then gStore sd k else None)"
    using Pull_OK(1) [OF sd(2)] by (simp_all add: migrateOp_def emptyGroupOp_def)
  have f: "1 \<le> ?e" "d \<noteq> 0" "?ow (?e - 1) = d" using shardInvD(1) [OF inv(2)] g sg unfolding flagInv_def by blast+
  have own: "?ow ?e = g" "d \<noteq> g" using tenure_starts [OF f(1)] f(3) by auto
  have "Num (cfg sg) = int (num sg)" "Num (cfg sd) = int (num sd)"
    using baseInvD(3) [OF base g sg(1)] baseInvD(3) [OF base f(2) sd(1)] hist(1) by (metis histOk_def)+
  then have "num sg \<le> num sd" using Pull_OK(3) [OF sd(2)] by simp
  then have le: "?e \<le> num sd" using tenure_le [of ?ow g "num sg"] by simp
  note don = donor_tenure [OF histOk_zero [OF hist(1,3)] g f(1) own(1) f(3) own(2) f(2) base inv(2) sd(1) Pull_OK(4) [OF sd(2)] le]
  have dn: "doneAt hist W' x k = doneAt hist W x k" "passed hist W' x k = passed hist W x k" "holdsTruth W' x m = holdsTruth W x m" for x k m
    by (simp_all add: W' doneAt_def passed_def holdsTruth_def)
  have "wireOk hist W t g (num sg) ?op"
    unfolding wireOk_def Let_def using g op(2,3) f(1) baseInvD(4) [OF base g sg(1)] don by (auto simp: holdsTruth_def)
  then have "\<forall>(h, n, x)\<in>wire W'. goShard x = s \<longrightarrow> wireOk hist W' s h n x"
    using shardInvD(5) [OF inv(1)] op(1) unfolding W' by (auto simp: wireOk_def doneAt_def passed_def holdsTruth_def)
  moreover have "valueInv hist W' s"
    using shardInvD(4) [OF inv(1)] f(2) sd(1) unfolding valueInv_def dn(1) by (auto simp: W' op(3))
  ultimately show ?thesis using shardInvD(1-3) [OF inv(1)]
    unfolding shardInv_def flagInv_def doneInv_def dataInv_def dn by (simp add: W')
qed

section \<open>Writes and garbage collection\<close>

lemma serving_truth:
  assumes zero: "own hist s 0 = 0" and g: "g \<noteq> 0" and base: "baseInv hist W" and inv: "shardInv hist W s"
    and serves: "own hist s (num (grp W g)) = g" "migrating (grp W g) s = None"
  shows "doneAt hist W s (tenure (own hist s) g (num (grp W g)))" "doneAt hist W s k \<Longrightarrow> k \<le> tenure (own hist s) g (num (grp W g))"
    "holdsTruth W s (gStore (grp W g))"
proof -
  let ?t = "tenure (own hist s) g (num (grp W g))"
  have gp: "grp W g \<in> past W g" by (rule baseInvD(1) [OF base g])
  have t: "1 \<le> ?t" using tenure_own [of "own hist s" "num (grp W g)" g] serves(1) zero g by simp
  show d: "doneAt hist W s ?t" by (rule doneAtI [OF g gp serves(2) t])
  have top: "k \<le> ?t" if "doneAt hist W s k" for k
    using serving_latest [OF g serves(1) zero _ doneAt_starts [OF that]] that shardInvD(2) [OF inv] unfolding doneInv_def by blast
  show "doneAt hist W s k \<Longrightarrow> k \<le> ?t" by (rule top)
  show "holdsTruth W s (gStore (grp W g))" using shardInvD(3) [OF inv] g gp serves(2) t top unfolding dataInv_def by blast
qed

text \<open>Other states that the invariant speaks of belong to the same tenure, which has not ended.\<close>

lemma serving_only:
  assumes zero: "own hist s 0 = 0" and g: "g \<noteq> 0" and base: "baseInv hist W" and inv: "shardInv hist W s"
    and serves: "own hist s (num (grp W g)) = g" "migrating (grp W g) s = None"
    and x: "h \<noteq> 0" "x \<in> past W h" "migrating x s = None" "1 \<le> tenure (own hist s) h (num x)"
      "\<forall>k. doneAt hist W s k \<longrightarrow> k \<le> tenure (own hist s) h (num x)"
  shows "h = g \<and> own hist s (num x) = g"
proof -
  let ?ow = "own hist s" and ?n = "num (grp W g)"
  note tr = serving_truth [OF zero g base inv serves]
  have "tenure ?ow h (num x) = tenure ?ow g ?n" using tr(1) tr(2) [OF doneAtI [OF x(1-4)]] x(5) by (meson order_antisym)
  moreover have t: "?ow (tenure ?ow g ?n) = g" "\<forall>j. tenure ?ow g ?n \<le> j \<longrightarrow> j \<le> ?n \<longrightarrow> ?ow j = g"
    using tenure_own [of ?ow ?n g] tenure_starts [of ?ow g ?n] serves(1) zero g by auto
  ultimately have "h = g" "tenure ?ow g ?n \<le> num x" using tenure_starts [OF x(4)] tenure_le [of ?ow h "num x"] by auto
  then show ?thesis using t(2) baseInvD(4) [OF base g] x(2) by blast
qed

lemma write_shardInv:
  assumes zero: "own hist s 0 = 0" and mv: "moved g st W W'" and g: "g \<noteq> 0" and base: "baseInv hist W" and inv: "shardInv hist W s"
    and serves: "own hist s (num (grp W g)) = g" "migrating (grp W g) s = None"
    and st: "cfg st = cfg (grp W g)" "migrating st = migrating (grp W g)" "gStore st = (gStore (grp W g))(key \<mapsto> v)" "Key2Shard key = s"
    and tr: "truth W' = (truth W)(key \<mapsto> v)"
  shows "shardInv hist W' s"
proof -
  let ?t = "tenure (own hist s)"
  have n: "num st = num (grp W g)" using st(1) by (simp add: num_def)
  note here = serving_truth [OF zero g base inv serves]
  have doneq: "doneAt hist W' s k = doneAt hist W s k" for k using moved_doneAt [OF mv g, of hist s k] here(1) n by auto
  have "dataInv hist W' s"
    unfolding dataInv_def doneq
  proof (intro allI impI)
    fix h x assume x: "h \<noteq> 0" "x \<in> past W' h" "migrating x s = None" "1 \<le> ?t h (num x)"
      "\<forall>k. doneAt hist W s k \<longrightarrow> k \<le> ?t h (num x)" "x = grp W' h \<or> own hist s (num x) \<noteq> h"
    show "holdsTruth W' s (gStore x)"
    proof (cases "h = g \<and> x = st")
      case True
      then show ?thesis using here(3) tr st(3) by (simp add: holdsTruth_def)
    next
      case False
      then have "x \<in> past W h" using x(2) movedD(4) [OF mv] by blast
      then have "h = g \<and> own hist s (num x) = g" using serving_only [OF zero g base inv serves x(1) _ x(3-5)] by blast
      then show ?thesis using False x(6) movedD(1) [OF mv] by simp
    qed
  qed
  moreover have "wireOk hist W' s h m op" if "(h, m, op) \<in> wire W" "goShard op = s" for h m op
  proof (rule moved_wireOk [OF mv g _ shardInvD(5) [OF inv that]])
    have w: "h \<noteq> 0" "1 \<le> ?t h m" "passed hist W s (?t h m)" using shardInvD(5) [OF inv that] unfolding wireOk_def Let_def by blast+
    then have "starts (own hist s) (?t h m)" using tenure_starts [OF w(2)] by (simp add: starts_def)
    then have "?t h m \<le> ?t g (num (grp W g))" by (rule serving_latest [OF g serves(1) zero w(3)])
    moreover assume "\<forall>k. doneAt hist W' s k \<longrightarrow> k < ?t h m"
    ultimately show "holdsTruth W' s (goData op)" using here(1) doneq by (meson leD)
  qed (simp add: n)
  moreover have "flagInv hist W' s" by (rule flag_cases [OF mv g base shardInvD(1) [OF inv] n]) (simp add: st(2))
  moreover have "doneInv hist W' s"
    by (rule moved_doneInv [OF mv g _ shardInvD(2) [OF inv]]) (use n here(1) in simp_all)
  moreover have "valueInv hist W' s"
  proof (rule moved_valueInv [OF mv g shardInvD(4) [OF inv]])
    fix k assume "Key2Shard k = s" "truth W' k = None"
    then show "truth W k = None \<and> gStore st k = None"
      using shardInvD(4) [OF inv] g baseInvD(1) [OF base g] unfolding valueInv_def tr st(3) by (auto split: if_splits)
  qed (use here(1) in blast)
  ultimately show ?thesis using movedD(3) [OF mv] unfolding shardInv_def by auto
qed

lemma gc_shardInv:
  assumes mv: "moved g st W W'" and g: "g \<noteq> 0" and base: "baseInv hist W" and inv: "shardInv hist W s"
    and safe: "migrating (grp W g) s = None \<Longrightarrow> \<exists>k. doneAt hist W s k \<and> tenure (own hist s) g (num (grp W g)) < k"
    and st: "cfg st = cfg (grp W g)" "migrating st = migrating (grp W g)" "\<And>key. gStore st key = gStore (grp W g) key \<or> gStore st key = None"
    and tr: "truth W' = truth W"
  shows "shardInv hist W' s"
proof -
  have n: "num st = num (grp W g)" using st(1) by (simp add: num_def)
  have gp: "grp W g \<in> past W g" by (rule baseInvD(1) [OF base g])
  have "dataInv hist W' s"
    by (rule moved_dataInv [OF mv g shardInvD(3) [OF inv]]) (use safe n st(2) tr in \<open>auto simp: leD\<close>)
  moreover have "doneInv hist W' s"
    by (rule moved_doneInv [OF mv g _ shardInvD(2) [OF inv]]) (use n st(2) doneAtI [OF g gp, of s hist] in auto)
  moreover have "flagInv hist W' s" by (rule flag_cases [OF mv g base shardInvD(1) [OF inv] n]) (simp add: st(2))
  moreover have "valueInv hist W' s"
  proof (rule moved_valueInv [OF mv g shardInvD(4) [OF inv]])
    fix key assume "Key2Shard key = s" "truth W' key = None"
    then have "truth W key = None" "gStore (grp W g) key = None" using shardInvD(4) [OF inv] g gp unfolding valueInv_def tr by blast+
    then show "truth W key = None \<and> gStore st key = None" using st(3) [of key] by auto
  qed (simp add: tr)
  moreover have "wireOk hist W' s h m x" if "(h, m, x) \<in> wire W" "goShard x = s" for h m x
    by (rule moved_wireOk [OF mv g _ shardInvD(5) [OF inv that]]) (simp_all add: n holdsTruth_def tr)
  ultimately show ?thesis using movedD(3) [OF mv] unfolding shardInv_def by auto
qed

section \<open>Every step keeps the invariant\<close>

definition worldInv :: "(nat \<Rightarrow> Config) \<Rightarrow> shardWorld \<Rightarrow> bool" where
  "worldInv hist W \<longleftrightarrow> baseInv hist W \<and> (\<forall>s<NShards. shardInv hist W s) \<and>
     (\<forall>g st s. g \<noteq> 0 \<longrightarrow> st \<in> past W g \<longrightarrow> migrating st s \<noteq> None \<longrightarrow> s < NShards) \<and>
     (\<forall>(g, n, op) \<in> wire W. goShard op < NShards \<and> goType op = ''Migrate'')"

lemma worldInvD:
  assumes "worldInv hist W"
  shows "baseInv hist W" "s < NShards \<Longrightarrow> shardInv hist W s" "g \<noteq> 0 \<Longrightarrow> st \<in> past W g \<Longrightarrow> migrating st s \<noteq> None \<Longrightarrow> s < NShards"
    "(g, n, op) \<in> wire W \<Longrightarrow> goShard op < NShards \<and> goType op = ''Migrate''"
  using assms unfolding worldInv_def by blast+

text \<open>A step of group \<open>g\<close> that keeps its version: it is enough to look at the shards.\<close>

lemma moved_worldInv:
  assumes inv: "worldInv hist W" and mv: "moved g st W W'" and g: "g \<noteq> 0" and st: "gid st = gid (grp W g)" "cfg st = hist (num st)" "num (grp W g) \<le> num st"
    and mig: "\<And>s. migrating st s \<noteq> None \<Longrightarrow> s < NShards" and shards: "\<And>s. s < NShards \<Longrightarrow> shardInv hist W' s"
  shows "worldInv hist W'"
proof -
  note base = worldInvD(1) [OF inv]
  have "gid st = g" using st(1) baseInvD(1,2) [OF base g] by simp
  then have "baseInv hist W'" by (rule moved_base [OF mv base g _ st(2,3)])
  moreover have "s < NShards" if "h \<noteq> 0" "x \<in> past W' h" "migrating x s \<noteq> None" for h x s
    using that movedD(4) [OF mv] worldInvD(3) [OF inv] mig by blast
  ultimately show ?thesis using shards worldInvD(4) [OF inv] movedD(3) [OF mv] unfolding worldInv_def by auto
qed

lemma quiet_worldInv:
  assumes inv: "worldInv hist W" and mv: "moved g st W W'" and g: "g \<noteq> 0" and st: "gid st = gid (grp W g)" "cfg st = cfg (grp W g)"
    and mig: "\<And>s. migrating st s \<noteq> None \<Longrightarrow> migrating (grp W g) s \<noteq> None"
    and shards: "\<And>s. s < NShards \<Longrightarrow> sameShard s (grp W g) st \<and> (\<forall>key. Key2Shard key = s \<longrightarrow> truth W' key = truth W key) \<or> shardInv hist W' s"
  shows "worldInv hist W'"
proof (rule moved_worldInv [OF inv mv g st(1)])
  note base = worldInvD(1) [OF inv]
  have gp: "grp W g \<in> past W g" by (rule baseInvD(1) [OF base g])
  show "cfg st = hist (num st)" using baseInvD(3) [OF base g gp] st(2) by (simp add: num_def)
  show "num (grp W g) \<le> num st" using st(2) by (simp add: num_def)
  show "s < NShards" if "migrating st s \<noteq> None" for s using worldInvD(3) [OF inv g gp mig [OF that]] .
  show "shardInv hist W' s" if "s < NShards" for s
    using shards [OF that] quiet_shardInv [OF mv g base worldInvD(2) [OF inv that]] by blast
qed

lemma same_refl [simp]: "sameShard s st st"
  by (simp add: sameShard_def)

lemma config_worldInv:
  assumes "histOk hist" and inv: "worldInv hist W" and mv: "moved g (adoptConfig (hist n) (grp W g)) W W'" and g: "g \<noteq> 0" and tr: "truth W' = truth W"
  shows "worldInv hist W'"
proof -
  note base = worldInvD(1) [OF inv]
  have gp: "grp W g \<in> past W g" by (rule baseInvD(1) [OF base g])
  have c: "cfg (grp W g) = hist (num (grp W g))" by (rule baseInvD(3) [OF base g gp])
  show ?thesis
  proof (cases "n = Suc (num (grp W g))")
    case True
    let ?st = "adoptConfig (hist (Suc (num (grp W g)))) (grp W g)"
    have st: "gid ?st = g" "cfg ?st = hist (Suc (num (grp W g)))" "num ?st = Suc (num (grp W g))"
      using adopted(1-3) [OF assms(1) _ c baseInvD(2) [OF base g gp] refl, of 0] by (simp_all add: NShards_def)
    show ?thesis
    proof (rule moved_worldInv [OF inv mv [unfolded True] g])
      show "s < NShards" if "migrating ?st s \<noteq> None" for s
        using that worldInvD(3) [OF inv g gp, of s] by (auto simp: adoptConfig_eq split: if_splits)
      show "shardInv hist W' s" if "s < NShards" for s
        by (rule config_shardInv [OF assms(1) that mv [unfolded True] g base worldInvD(2) [OF inv that] refl tr])
    qed (use st baseInvD(2) [OF base g gp] in simp_all)
  next
    case False
    have "Num (hist n) = int n" "Num (cfg (grp W g)) = int (num (grp W g))" using assms(1) c by (metis histOk_def)+
    then have "adoptConfig (hist n) (grp W g) = grp W g" using False by (simp add: adoptConfig_eq)
    then show ?thesis using quiet_worldInv [OF inv mv g] tr by simp
  qed
qed

lemma land_worldInv:
  assumes inv: "worldInv hist W" and mv: "moved g (landMigrate op (grp W g)) W W'" and g: "g \<noteq> 0" and tr: "truth W' = truth W"
    and w: "(g, n, op) \<in> wire W" and onTime: "\<not> lateLanding hist g n (goShard op) W"
  shows "worldInv hist W'"
proof (cases "migrating (grp W g) (goShard op) = None")
  case True
  then have "landMigrate op (grp W g) = grp W g" by (simp add: landMigrate_def)
  then show ?thesis using quiet_worldInv [OF inv mv g] tr by simp
next
  case False
  let ?st = "landMigrate op (grp W g)" and ?t = "goShard op"
  note l = landed [OF False]
  have wk: "?t < NShards" "wireOk hist W ?t g n op" using worldInvD(4) [OF inv w] shardInvD(5) [OF worldInvD(2) [OF inv] w] by simp_all
  show ?thesis
  proof (rule quiet_worldInv [OF inv mv g l(3,1)])
    show "migrating (grp W g) s \<noteq> None" if "migrating ?st s \<noteq> None" for s using that l(2,5) by (cases "s = ?t") simp_all
    fix s assume s: "s < NShards"
    show "sameShard s (grp W g) ?st \<and> (\<forall>key. Key2Shard key = s \<longrightarrow> truth W' key = truth W key) \<or> shardInv hist W' s"
    proof (cases "s = ?t")
      case True
      have "tenure (own hist ?t) g (num (grp W g)) = tenure (own hist ?t) g n" using onTime False by (simp add: lateLanding_def)
      from land_shardInv [OF mv g worldInvD(1) [OF inv] worldInvD(2) [OF inv wk(1)] w refl False this refl tr]
      show ?thesis using True by simp
    next
      case ne: False
      then have "goData op key = None" if "Key2Shard key = s" for key using wk(2) that unfolding wireOk_def Let_def by blast
      then have "sameShard s (grp W g) ?st" using l(1,4,5) ne by (auto simp: sameShard_def map_add_def)
      then show ?thesis using tr by simp
    qed
  qed
qed

lemma gc_worldInv:
  assumes inv: "worldInv hist W" and mv: "moved g (collectShard op (grp W g)) W W'" and g: "g \<noteq> 0" and tr: "truth W' = truth W"
    and late: "\<not> earlyGC hist g (goShard op) W"
  shows "worldInv hist W'"
proof (cases "leaving (grp W g) (goShard op) = None")
  case True
  then have "collectShard op (grp W g) = grp W g" by (simp add: collectShard_def)
  then show ?thesis using quiet_worldInv [OF inv mv g] tr by simp
next
  case False
  let ?st = "collectShard op (grp W g)"
  have st: "gid ?st = gid (grp W g)" "cfg ?st = cfg (grp W g)" "migrating ?st = migrating (grp W g)"
    "gStore ?st = (\<lambda>k. if Key2Shard k = goShard op then None else gStore (grp W g) k)"
    using False by (simp_all add: collectShard_def)
  show ?thesis
  proof (rule quiet_worldInv [OF inv mv g st(1,2)])
    fix s assume s: "s < NShards"
    show "sameShard s (grp W g) ?st \<and> (\<forall>key. Key2Shard key = s \<longrightarrow> truth W' key = truth W key) \<or> shardInv hist W' s"
    proof (cases "s = goShard op")
      case True
      have "shardInv hist W' s"
        by (rule gc_shardInv [OF mv g worldInvD(1) [OF inv] worldInvD(2) [OF inv s] _ st(2,3) _ tr])
           (use late False True st(4) in \<open>auto simp: earlyGC_def\<close>)
      then show ?thesis ..
    next
      case False
      then show ?thesis using st tr by (simp add: sameShard_def)
    qed
  qed (use st(3) in simp)
qed

lemma write_worldInv:
  assumes hist: "histOk hist" and inv: "worldInv hist W" and mv: "moved g (writeKey op (grp W g)) W W'" and g: "g \<noteq> 0"
    and op: "goType op \<in> {''Put'', ''Append''}" "ownsLocked (goKey op) (grp W g)" and tr: "truth W' = specWrite op (grp W g) (truth W)"
  shows "worldInv hist W'"
proof (cases "goSeqNum op > get0 (gDuplicateTable (grp W g)) (goClientID op)")
  case False
  then have "writeKey op (grp W g) = grp W g" "truth W' = truth W" using tr by (simp_all add: writeKey_def specWrite_def)
  then show ?thesis using quiet_worldInv [OF inv mv g] by simp
next
  case True
  let ?st = "writeKey op (grp W g)" and ?s = "Key2Shard (goKey op)"
  let ?v = "\<lambda>m. if goType op = ''Put'' then goValue op else (case m (goKey op) of None \<Rightarrow> '''' | Some v \<Rightarrow> v) @ goValue op"
  have gp: "grp W g \<in> past W g" by (rule baseInvD(1) [OF worldInvD(1) [OF inv] g])
  have st: "gid ?st = gid (grp W g)" "cfg ?st = cfg (grp W g)" "migrating ?st = migrating (grp W g)"
    "gStore ?st = (gStore (grp W g))(goKey op \<mapsto> ?v (gStore (grp W g)))" "truth W' = (truth W)(goKey op \<mapsto> ?v (truth W))"
    using True op tr by (simp_all add: writeKey_def specWrite_def Let_def)
  have serves: "own hist ?s (num (grp W g)) = g" "migrating (grp W g) ?s = None"
    using op(2) baseInvD(2,3) [OF worldInvD(1) [OF inv] g gp] by (simp_all add: ownsLocked_def own_def Let_def)
  note si = worldInvD(2) [OF inv Key2Shard_bound, of "goKey op"]
  have "gStore (grp W g) (goKey op) = truth W (goKey op)"
    using serving_truth(3) [OF histOk_zero [OF hist Key2Shard_bound] g worldInvD(1) [OF inv] si serves] by (simp add: holdsTruth_def)
  then have tr': "truth W' = (truth W)(goKey op \<mapsto> ?v (gStore (grp W g)))" using st(5) by simp
  have here: "shardInv hist W' ?s"
    by (rule write_shardInv [OF histOk_zero [OF hist Key2Shard_bound] mv g worldInvD(1) [OF inv] si serves st(2-4) refl tr'])
  show ?thesis
    by (rule quiet_worldInv [OF inv mv g st(1,2)]) (use st(2-4) tr' here in \<open>auto simp: sameShard_def\<close>)
qed

lemma advance_moved: "grp W' = grp (advance g st W) \<Longrightarrow> past W' = past (advance g st W) \<Longrightarrow> wire W' = wire W \<Longrightarrow> moved g st W W'"
  by (simp add: moved_def advance_def)

lemma pull_worldInv:
  assumes hist: "histOk hist" and inv: "worldInv hist W" and g: "g \<noteq> 0" and sg: "sg \<in> past W g" "migrating sg s = Some d"
    and sd: "sd \<in> past W d" "plErr (Pull s (Num (cfg sg)) sd) = GroupOK"
    and W': "W' = W\<lparr>wire := insert (g, num sg, migrateOp s (Pull s (Num (cfg sg)) sd)) (wire W)\<rparr>"
  shows "worldInv hist W'"
proof -
  have s: "s < NShards" using worldInvD(3) [OF inv g sg(1)] sg(2) by simp
  have "shardInv hist W' t" if "t < NShards" for t
    by (rule pull_shardInv [OF hist that s g worldInvD(1) [OF inv] worldInvD(2) [OF inv that] worldInvD(2) [OF inv s] sg sd W'])
  moreover have "goShard (migrateOp s (Pull s (Num (cfg sg)) sd)) = s" "goType (migrateOp s (Pull s (Num (cfg sg)) sd)) = ''Migrate''"
    by (simp_all add: migrateOp_def emptyGroupOp_def)
  ultimately show ?thesis using inv s unfolding worldInv_def baseInv_def by (auto simp: W')
qed

lemma wstep_worldInv:
  assumes hist: "histOk hist" and step: "wstep hist W W'" and inv: "worldInv hist W" and clean: "\<not> tainted W'"
  shows "worldInv hist W'"
  using step
proof cases
  case (config g t n err st)
  then have "st = adoptConfig (hist n) (grp W g)" by (simp add: groupApply_def)
  then have "moved g (adoptConfig (hist n) (grp W g)) W W'" using config(1) by (intro advance_moved) (simp_all add: advance_def)
  then show ?thesis by (rule config_worldInv [OF hist inv _ config(2)]) (simp add: config(1) advance_def)
next
  case (pull g sg s d sd reply)
  then have "plErr (Pull s (Num (cfg sg)) sd) = GroupOK" "reply = Pull s (Num (cfg sg)) sd" by (auto simp: Let_def split: if_splits)
  then show ?thesis using pull_worldInv [OF hist inv pull(2-5)] pull(1) by simp
next
  case (land g n op t err st)
  have "st = landMigrate op (grp W g)" using land(4) worldInvD(4) [OF inv land(3)] by (simp add: groupApply_def)
  then have "moved g (landMigrate op (grp W g)) W W'" using land(1) by (intro advance_moved) (simp_all add: advance_def)
  then show ?thesis by (rule land_worldInv [OF inv _ land(2) _ land(3)]) (use land(1) clean in \<open>simp_all add: advance_def\<close>)
next
  case (gc g t s err st)
  let ?op = "emptyGroupOp\<lparr>goType := ''GC'', goShard := s\<rparr>"
  have "st = collectShard ?op (grp W g)" using gc(3) by (simp add: groupApply_def)
  then have "moved g (collectShard ?op (grp W g)) W W'" using gc(1) by (intro advance_moved) (simp_all add: advance_def)
  then show ?thesis by (rule gc_worldInv [OF inv _ gc(2)]) (use gc(1) clean in \<open>simp_all add: advance_def\<close>)
next
  case (client g op t err st)
  have mv: "moved g st W W'" and tr: "truth W' = specWrite op (grp W g) (truth W)"
    using client(1) by (simp_all add: moved_def advance_def)
  from client(4) show ?thesis
  proof (cases rule: groupApply_cases)
    case noop
    then show ?thesis using quiet_worldInv [OF inv mv client(2)] tr by (simp add: sameShard_def specWrite_def)
  next
    case refused
    then show ?thesis using quiet_worldInv [OF inv mv client(2)] tr by (simp add: specWrite_def)
  next
    case written
    then show ?thesis using write_worldInv [OF hist inv _ client(2) _ _ tr] mv by blast
  qed (use client(3) in simp_all)
qed

lemma init_worldInv:
  assumes "histOk hist" "freshGroups gs"
  shows "worldInv hist (initWorld gs)"
proof -
  have gs: "gid (gs g) = g" "cfg (gs g) = zeroConfig" "gStore (gs g) = Map.empty" "migrating (gs g) = Map.empty" for g
    using assms(2) unfolding freshGroups_def NewGroupServer_def by (metis (no_types, lifting) GroupServer.select_convs Inr_inject option.simps(4))+
  have n: "num (gs g) = 0" for g using gs(2) by (simp add: num_def)
  have "\<not> doneAt hist (initWorld gs) s k" for s k by (auto simp: doneAt_def initWorld_def n)
  then have "shardInv hist (initWorld gs) s" for s
    unfolding shardInv_def flagInv_def doneInv_def dataInv_def valueInv_def by (simp add: initWorld_def gs n)
  then show ?thesis using gs assms(1) unfolding worldInv_def baseInv_def by (simp add: initWorld_def n histOk_def)
qed

lemma wstep_tainted: "wstep hist W W' \<Longrightarrow> tainted W \<Longrightarrow> tainted W'"
  by (induction rule: wstep.induct) (simp_all add: advance_def)

lemma reachable_worldInv:
  assumes "reachableW hist gs W" "histOk hist" "freshGroups gs" "\<not> tainted W"
  shows "worldInv hist W"
  using assms(1,4)
proof induction
  case init
  show ?case by (rule init_worldInv [OF assms(2,3)])
next
  case (step W W')
  then show ?case using wstep_worldInv [OF assms(2)] wstep_tainted by blast
qed

section \<open>The sharded store is one store\<close>


text \<open>A run in which shard 0 is written in group 1, moves to group 2 and is served there.\<close>

definition exHist :: "nat \<Rightarrow> Config" where
  "exHist n = (if n = 0 then zeroConfig else exCfg (int n) (if n = 1 then 1 else 2))"

definition exAdopted :: "int \<Rightarrow> GroupServer" where
  "exAdopted g = (exGroup g)\<lparr>cfg := exCfg 1 1\<rparr>"

definition exWorld :: "nat \<Rightarrow> shardWorld" where
  "exWorld k = (let W0 = initWorld exGroup; W1 = advance 1 (exAdopted 1) W0;
       W2 = (advance 1 exOwner W1)\<lparr>truth := [''a'' \<mapsto> ''v'']\<rparr>; W3 = advance 1 exDonor W2;
       W4 = advance 2 (exAdopted 2) W3; W5 = advance 2 exTaker W4;
       W6 = W5\<lparr>wire := {(2, 2, migrateOp 0 (Pull 0 2 exDonor))}\<rparr>; W7 = advance 2 exLanded W6
     in [W0, W1, W2, W3, W4, W5, W6, W7] ! k)"

lemma exHist_ok: "histOk exHist"
  by (auto simp: histOk_def exHist_def own_def)

lemma exFresh: "freshGroups exGroup"
  unfolding freshGroups_def using exGroup_new by (force simp: ReadSnapshot_def NewRaft_def newRaft_def restoreLocked_def)

lemma groupStepD: "groupStep (t, op) st = Inr st' \<Longrightarrow> \<exists>err. groupApply t op st = Inr (err, st')"
  by (auto simp: groupStep_def)

lemma wstep_config:
  assumes "g \<noteq> 0" "groupStep (1, emptyGroupOp\<lparr>goType := ''Config'', goConfig := hist n\<rparr>) (grp W g) = Inr st"
  shows "wstep hist W (advance g st W)"
  using groupStepD [OF assms(2)] wstep.config [OF assms(1)] by blast

lemma exAdopted_step: "g \<noteq> 0 \<Longrightarrow> groupStep (exConfigOp 1 1) (exGroup g) = Inr (exAdopted g)"
  by (simp add: exConfig_step exGroup_def exAdopted_def gains_def loses_def cong: conj_cong)

lemma exOwner_step: "groupApply 1 exPutA (exAdopted 1) = Inr (GroupOK, exOwner)"
  by (simp add: groupApply_def emptyGroupOp_def exPutA_def ownsLocked_def Key2Shard_a writeKey_def ex_states exAdopted_def)

lemma exTaker_step: "groupStep (exConfigOp 2 2) (exAdopted 2) = Inr exTaker"
  by (simp add: exConfig_step ex_states exAdopted_def gains_def loses_def fun_eq_iff cong: conj_cong)

lemma exHist_step:
  assumes "g \<noteq> 0" "groupStep (exConfigOp (int n) o') (grp W g) = Inr st" "n = 1 \<and> o' = 1 \<or> n = 2 \<and> o' = 2"
  shows "wstep exHist W (advance g st W)"
proof (rule wstep_config [OF assms(1)])
  show "groupStep (1, emptyGroupOp\<lparr>goType := ''Config'', goConfig := exHist n\<rparr>) (grp W g) = Inr st"
    using assms(2,3) by (auto simp: exHist_def exConfigOp_def)
qed

lemma exWorld_steps: "k < 7 \<Longrightarrow> wstep exHist (exWorld k) (exWorld (Suc k))"
proof -
  let ?W = "exWorld"
  note ev = exWorld_def Let_def advance_def initWorld_def
  have "wstep exHist (?W 0) (advance 1 (exAdopted 1) (?W 0))"
    by (rule exHist_step [of _ 1 1]) (simp_all add: ev exAdopted_step)
  then have 0: "wstep exHist (?W 0) (?W 1)" by (simp add: exWorld_def Let_def)
  have "wstep exHist (?W 1) ((advance 1 exOwner (?W 1))\<lparr>truth := specWrite exPutA (grp (?W 1) 1) (truth (?W 1))\<rparr>)"
    by (rule wstep.client) (use exOwner_step in \<open>simp_all add: ev exPutA_def emptyGroupOp_def\<close>)
  moreover have "specWrite exPutA (grp (?W 1) 1) (truth (?W 1)) = [''a'' \<mapsto> ''v'']"
    by (simp add: ev specWrite_def exPutA_def emptyGroupOp_def ownsLocked_def Key2Shard_a exAdopted_def exGroup_def)
  ultimately have 1: "wstep exHist (?W 1) (?W 2)" by (simp add: exWorld_def Let_def)
  have "wstep exHist (?W 2) (advance 1 exDonor (?W 2))"
    by (rule exHist_step [of _ 2 2]) (simp_all add: ev exDonor_step)
  then have 2: "wstep exHist (?W 2) (?W 3)" by (simp add: exWorld_def Let_def)
  have "wstep exHist (?W 3) (advance 2 (exAdopted 2) (?W 3))"
    by (rule exHist_step [of _ 1 1]) (simp_all add: ev exAdopted_step)
  then have 3: "wstep exHist (?W 3) (?W 4)" by (simp add: exWorld_def Let_def)
  have "wstep exHist (?W 4) (advance 2 exTaker (?W 4))"
    by (rule exHist_step [of _ 2 2]) (simp_all add: ev exTaker_step)
  then have 4: "wstep exHist (?W 4) (?W 5)" by (simp add: exWorld_def Let_def)
  have "wstep exHist (?W 5) ((?W 5)\<lparr>wire := insert (2, num exTaker, migrateOp 0 (Pull 0 2 exDonor)) (wire (?W 5))\<rparr>)"
    by (rule wstep.pull [of _ exTaker _ 0 1 exDonor]) (use exPull(1) in \<open>simp_all add: ev, simp_all add: ex_states\<close>)
  moreover have n: "num exTaker = 2" by (simp add: num_def exTaker_def)
  ultimately have 5: "wstep exHist (?W 5) (?W 6)" by (simp add: exWorld_def Let_def advance_def initWorld_def)
  let ?op = "migrateOp 0 (Pull 0 2 exDonor)"
  obtain err where "groupApply 1 ?op exTaker = Inr (err, exLanded)" using groupStepD [OF exLanded_step] by blast
  then have "wstep exHist (?W 6) ((advance 2 exLanded (?W 6))\<lparr>tainted := tainted (?W 6) \<or> lateLanding exHist 2 2 (goShard ?op) (?W 6)\<rparr>)"
    by (intro wstep.land) (simp_all add: ev)
  moreover have "\<not> lateLanding exHist 2 2 x (?W 6)" "\<not> tainted (?W 6)" for x by (simp_all add: lateLanding_def ev n)
  ultimately have 6: "wstep exHist (?W 6) (?W 7)" by (simp add: ev)
  show "k < 7 \<Longrightarrow> wstep exHist (exWorld k) (exWorld (Suc k))"
    using 0 1 2 3 4 5 6 by (auto simp: less_Suc_eq numeral_eq_Suc)
qed


section \<open>What the condition excludes\<close>

text \<open>
  The log of group 2 when a follower with all its entries, but only the first two applied, becomes its leader: it has gained shard 0, lost it
  and gained it again.
\<close>

definition exLogTwo :: "groupOp list" where
  "exLogTwo = [snd (exConfigOp 1 1), snd (exConfigOp 2 2), migrateOp 0 (Pull 0 2 exDonor), snd (exConfigOp 3 1), snd (exConfigOp 4 2)]"

definition exLagging :: "(groupOp, groupSnapshot) Raft" where
  "exLagging = exLeads\<lparr>log := map (\<lambda>op. \<lparr>entryTerm = 1, entryCommand = op\<rparr>) exLogTwo\<rparr>"

definition exPutB :: groupOp where
  "exPutB = exPutA\<lparr>goValue := ''w'', goSeqNum := 2\<rparr>"

lemma exTwo_run:
  "run_log groupStep (map (Pair 1) (exLogTwo @ [migrateOp 0 (Pull 0 2 exDonor)])) (exGroup 2) =
     Inr (exMoved\<lparr>cfg := exCfg 4 2, migrating := Map.empty\<rparr>)"
proof -
  let ?s = "exMoved\<lparr>cfg := exCfg 4 2, migrating := [0 \<mapsto> 1]\<rparr>"
  have four: "groupStep (exConfigOp 4 2) exMoved = Inr ?s"
    by (simp add: exConfig_step ex_states gains_def loses_def fun_eq_iff cong: conj_cong)
  have "migrating ?s 0 \<noteq> None" by simp
  from landMigrate_pulled [OF exPull(1) this]
  have "landMigrate (migrateOp 0 (Pull 0 2 exDonor)) ?s = exMoved\<lparr>cfg := exCfg 4 2, migrating := Map.empty\<rparr>"
    by (auto simp: ex_states mergeDup_def fun_eq_iff Key2Shard_a get0_def split: option.split)
  then have last: "groupStep (1, migrateOp 0 (Pull 0 2 exDonor)) ?s = Inr (exMoved\<lparr>cfg := exCfg 4 2, migrating := Map.empty\<rparr>)"
    by (simp add: groupStep_def groupApply_def migrateOp_def emptyGroupOp_def)
  have pair: "(1, snd (exConfigOp n g)) = exConfigOp n g" for n g by (simp add: exConfigOp_def)
  have adopt: "groupStep (exConfigOp 1 1) (exGroup 2) = Inr (exAdopted 2)" by (rule exAdopted_step) simp
  show ?thesis
    unfolding exLogTwo_def append.simps list.map pair
    by (simp add: adopt exTaker_step exLanded_step exMoved_step four last)
qed

text \<open>
  (C25) Two owners at once. A leader of group 2 that has not yet applied its log still sees shard 0 as migrating, from its first tenure; its migration loop
  pulls it again from group 1 and proposes a second \<open>Migrate\<close> entry, behind the configurations in which the shard went back to group 1 and
  returned. A \<open>Migrate\<close> entry says nothing about the version it was pulled for, so when this one is applied it ends the migration of the
  second tenure: group 2 serves the old value, while group 1, which has not been asked, still serves the newer one.
\<close>

theorem late_migrate_two_owners:
  "\<exists>one two. log (grf (snd (migrationLoop_tick (\<lambda>_. [exDonor]) [0] (\<lambda>_. False) (exTaker\<lparr>grf := exLagging\<rparr>)))) =
       log exLagging @ [\<lparr>entryTerm = 1, entryCommand = migrateOp 0 (Pull 0 2 exDonor)\<rparr>] \<and>
     run_log groupStep (map (Pair 1) (exLogTwo @ [migrateOp 0 (Pull 0 2 exDonor)])) (exGroup 2) = Inr two \<and>
     run_log groupStep [exConfigOp 1 1, (1, exPutA), exConfigOp 2 2, exConfigOp 3 1, (1, migrateOp 0 (Pull 0 3 exMoved)), (1, exPutB)]
       (exGroup 1) = Inr one \<and>
     ownsLocked ''a'' one \<and> gStore one ''a'' = Some ''w'' \<and> ownsLocked ''a'' two \<and> gStore two ''a'' = Some ''v''"
proof (intro exI conjI)
  let ?one = "exBack\<lparr>migrating := Map.empty, gStore := [''a'' \<mapsto> ''w''], gDuplicateTable := [7 \<mapsto> 2]\<rparr>"
  show "log (grf (snd (migrationLoop_tick (\<lambda>_. [exDonor]) [0] (\<lambda>_. False) (exTaker\<lparr>grf := exLagging\<rparr>)))) =
      log exLagging @ [\<lparr>entryTerm = 1, entryCommand = migrateOp 0 (Pull 0 2 exDonor)\<rparr>]"
    using exPull(1) by (simp add: migrationLoop_tick_def migrateOne_def exTaker_def exGroup_def exLagging_def exLeads_def Propose_def
        migrateOp_def Let_def NewRaft_def newRaft_def restoreLocked_def)
  show "run_log groupStep (map (Pair 1) (exLogTwo @ [migrateOp 0 (Pull 0 2 exDonor)])) (exGroup 2) =
      Inr (exMoved\<lparr>cfg := exCfg 4 2, migrating := Map.empty\<rparr>)" by (rule exTwo_run)
  have adopt: "groupStep (exConfigOp 1 1) (exGroup 1) = Inr (exAdopted 1)" by (rule exAdopted_step) simp
  have "groupStep (1, exPutA) (exAdopted 1) = Inr exOwner" using exOwner_step by (simp add: groupStep_def)
  moreover have "groupStep (1, exPutB) (exBack\<lparr>migrating := Map.empty\<rparr>) = Inr ?one"
    by (simp add: groupStep_def groupApply_def exPutB_def exPutA_def emptyGroupOp_def ownsLocked_def Key2Shard_a writeKey_def ex_states get0_def)
  ultimately show "run_log groupStep [exConfigOp 1 1, (1, exPutA), exConfigOp 2 2, exConfigOp 3 1, (1, migrateOp 0 (Pull 0 3 exMoved)), (1, exPutB)]
      (exGroup 1) = Inr ?one"
    using adopt exDonor_step exBack_step exHome_step by simp
qed (simp_all add: ownsLocked_def Key2Shard_a ex_states)

end
