(* ===== verification/Ring.thy ===== *)
theory Ring
  imports Shard_Config
begin

text \<open>
  The hash ring (\<open>src/06-hot-shard-splitting/ring.go\<close>, \<open>ring_config.go\<close>): shards are ranges of the
  32-bit hash space, looked up by binary search, and a shard is split at a point of its range. Points
  are \<open>32 word\<close>; the widths of \<open>NewRing\<close> and \<open>Midpoint\<close> are computed on \<open>64 word\<close> with the conversions
  of the code. \<open>sort.Search\<close> is its binary search, \<open>sort.Slice\<close> by \<open>Start\<close> is \<open>sort_key\<close> (the
  starts of a valid ring are distinct, so its order is determined). The text of an error is abbreviated.
\<close>

section \<open>The ring\<close>

record RingEntry =
  Start :: "32 word"
  Shard :: int

record Ring =
  Entries :: "RingEntry list"

definition HashKey :: "string \<Rightarrow> 32 word" where
  "HashKey key = fnv1a (map of_char key)"

definition NewRing :: "int \<Rightarrow> Ring res" where
  "NewRing n =
     (if n \<le> 0 then Inl (Panic ''hotshard: NewRing requires n >= 1'')
      else let width = push_bit 32 (1 :: 64 word) div of_int n
           in Inr \<lparr>Entries = map (\<lambda>i. \<lparr>Start = ucast (of_nat i * width), Shard = int i + 1\<rparr>) [0..<nat n]\<rparr>)"

definition NextShardID :: "Ring \<Rightarrow> int" where
  "NextShardID ring = fold (\<lambda>e m. if Shard e > m then Shard e else m) (Entries ring) 0 + 1"

function searchLoop :: "(nat \<Rightarrow> bool) \<Rightarrow> nat \<Rightarrow> nat \<Rightarrow> nat" where
  "searchLoop f i j =
     (if i < j then let h = (i + j) div 2 in if \<not> f h then searchLoop f (h + 1) j else searchLoop f i h else i)"
  by pat_completeness auto
termination
  by (relation "measure (\<lambda>(f, i, j). j - i)") auto

declare searchLoop.simps [simp del]

definition sortSearch :: "nat \<Rightarrow> (nat \<Rightarrow> bool) \<Rightarrow> nat" where
  "sortSearch n f = searchLoop f 0 n"

definition ringAssignPoint :: "Ring \<Rightarrow> 32 word \<Rightarrow> int res" where
  "ringAssignPoint ring h =
     (let n = length (Entries ring)
      in if n = 0 then Inl (Panic ''hotshard: RingAssign called on an empty ring'')
         else let i = sortSearch n (\<lambda>i. Start (Entries ring ! i) > h)
              in if i = 0 then Inr (Shard (Entries ring ! (n - 1)))
                 else Inr (Shard (Entries ring ! (i - 1))))"

definition RingAssign :: "Ring \<Rightarrow> string \<Rightarrow> int res" where
  "RingAssign ring key = ringAssignPoint ring (HashKey key)"

definition rangeEnd :: "Ring \<Rightarrow> nat \<Rightarrow> 32 word" where
  "rangeEnd ring idx = Start (Entries ring ! ((idx + 1) mod length (Entries ring)))"

definition inRangeExclusive :: "32 word \<Rightarrow> 32 word \<Rightarrow> 32 word \<Rightarrow> bool" where
  "inRangeExclusive start end point =
     (if start < end then point \<ge> start \<and> point < end else point \<ge> start \<or> point < end)"

fun findShard :: "RingEntry list \<Rightarrow> int \<Rightarrow> nat option" where
  "findShard [] shard = None"
| "findShard (e # es) shard = (if Shard e = shard then Some 0 else map_option Suc (findShard es shard))"

definition Split :: "Ring \<Rightarrow> int \<Rightarrow> 32 word \<Rightarrow> (Ring \<times> int) res" where
  "Split ring shard splitPoint =
     (case findShard (Entries ring) shard of
        None \<Rightarrow> Inl (Error ''hotshard: shard not found in ring'')
      | Some idx \<Rightarrow>
         (let start = Start (Entries ring ! idx); end = rangeEnd ring idx
          in if splitPoint = start \<or> \<not> inRangeExclusive start end splitPoint
             then Inl (Error ''hotshard: split point is not strictly inside the range'')
             else let newID = NextShardID ring;
                      entries = sort_key Start (Entries ring @ [\<lparr>Start = splitPoint, Shard = newID\<rparr>])
                  in Inr (\<lparr>Entries = entries\<rparr>, newID)))"

fun validateFrom :: "int set \<Rightarrow> 32 word option \<Rightarrow> RingEntry list \<Rightarrow> go_error option" where
  "validateFrom seen prev [] = None"
| "validateFrom seen prev (e # es) =
     (if Shard e \<in> seen then Some (Error ''hotshard: shard appears more than once in the ring'')
      else if (case prev of None \<Rightarrow> False | Some p \<Rightarrow> p \<ge> Start e)
        then Some (Error ''hotshard: ring entries not strictly sorted ascending by Start'')
      else validateFrom (insert (Shard e) seen) (Some (Start e)) es)"

definition ringValidate :: "Ring \<Rightarrow> go_error option" where
  "ringValidate r =
     (if Entries r = [] then Some (Error ''hotshard: ring has no shards'') else validateFrom {} None (Entries r))"

section \<open>Binary search\<close>

lemma searchLoop_first:
  assumes "\<And>a b. a \<le> b \<Longrightarrow> b < j \<Longrightarrow> f a \<Longrightarrow> f b" "i \<le> j" "\<And>a. a < i \<Longrightarrow> \<not> f a"
  shows "searchLoop f i j \<le> j \<and> (\<forall>a < searchLoop f i j. \<not> f a) \<and>
     (\<forall>a. searchLoop f i j \<le> a \<longrightarrow> a < j \<longrightarrow> f a)"
  using assms
proof (induction f i j rule: searchLoop.induct)
  case (1 f i j)
  show ?case
  proof (cases "i < j")
    case True
    let ?h = "(i + j) div 2"
    have h: "i \<le> ?h" "?h < j" using True by auto
    show ?thesis
    proof (cases "f ?h")
      case f: True
      then have eq: "searchLoop f i j = searchLoop f i ?h" using True by (subst searchLoop.simps) (simp add: Let_def)
      have ih: "searchLoop f i ?h \<le> ?h \<and> (\<forall>a < searchLoop f i ?h. \<not> f a) \<and>
          (\<forall>a. searchLoop f i ?h \<le> a \<longrightarrow> a < ?h \<longrightarrow> f a)"
      proof (rule 1(2) [OF True refl])
        show "\<not> \<not> f ?h" using f by simp
        show "f b" if "a \<le> b" "b < ?h" "f a" for a b using "1.prems"(1) [OF that(1) _ that(3)] that(2) h(2) by simp
        show "i \<le> ?h" by (rule h(1))
        show "\<not> f a" if "a < i" for a by (rule "1.prems"(3) [OF that])
      qed
      have "f a" if "searchLoop f i ?h \<le> a" "a < j" for a
        using that ih "1.prems"(1) [of ?h a] f by (cases "a < ?h") auto
      moreover have "searchLoop f i ?h \<le> j" using ih h(2) by linarith
      ultimately show ?thesis unfolding eq using ih by blast
    next
      case f: False
      then have eq: "searchLoop f i j = searchLoop f (?h + 1) j" using True by (subst searchLoop.simps) (simp add: Let_def)
      have "\<not> f a" if "a < ?h + 1" for a
        using "1.prems"(1) [of a ?h] f h(2) that by linarith
      moreover have "?h + 1 \<le> j" using h(2) by linarith
      ultimately show ?thesis unfolding eq by (intro 1(1) [OF True refl f "1.prems"(1)])
    qed
  next
    case False
    then have "searchLoop f i j = i" by (subst searchLoop.simps) simp
    then show ?thesis using "1.prems"(2,3) False by auto
  qed
qed

lemma sortSearch_first:
  assumes "\<And>a b. a \<le> b \<Longrightarrow> b < n \<Longrightarrow> f a \<Longrightarrow> f b"
  shows "sortSearch n f \<le> n" "a < sortSearch n f \<Longrightarrow> \<not> f a" "sortSearch n f \<le> a \<Longrightarrow> a < n \<Longrightarrow> f a"
  using searchLoop_first [of n f 0, OF assms] by (simp_all add: sortSearch_def)

section \<open>Valid rings\<close>

definition starts :: "Ring \<Rightarrow> 32 word list" where
  "starts r = map Start (Entries r)"

definition ring_ok :: "Ring \<Rightarrow> bool" where
  "ring_ok r \<longleftrightarrow> Entries r \<noteq> [] \<and> sorted_wrt (<) (starts r) \<and> distinct (map Shard (Entries r))"

lemma validateFrom_None:
  "validateFrom seen prev es = None \<longleftrightarrow>
     sorted_wrt (<) (map Start es) \<and> distinct (map Shard es) \<and> seen \<inter> set (map Shard es) = {} \<and>
     (\<forall>p. prev = Some p \<longrightarrow> (\<forall>e \<in> set es. p < Start e))"
proof (induction es arbitrary: seen prev)
  case (Cons e es)
  show ?case
  proof (cases prev)
    case None
    then show ?thesis by (auto simp: Cons.IH)
  next
    case (Some p)
    then show ?thesis by (auto simp: Cons.IH not_le)
  qed
qed simp

lemma ringValidate_iff: "ringValidate r = None \<longleftrightarrow> ring_ok r"
  by (simp add: ringValidate_def ring_ok_def starts_def validateFrom_None)

lemma starts_less:
  assumes "ring_ok r" "i < j" "j < length (Entries r)"
  shows "Start (Entries r ! i) < Start (Entries r ! j)"
  using assms sorted_wrt_nth_less [of "(<)" "starts r" i j] by (simp add: ring_ok_def starts_def)

text \<open>The number of entries that start at or below a point, and the index the lookup selects.\<close>

definition below :: "Ring \<Rightarrow> 32 word \<Rightarrow> nat" where
  "below r h = sortSearch (length (Entries r)) (\<lambda>i. Start (Entries r ! i) > h)"

definition slot :: "Ring \<Rightarrow> 32 word \<Rightarrow> nat" where
  "slot r h = (if below r h = 0 then length (Entries r) - 1 else below r h - 1)"

lemma below_props:
  assumes "ring_ok r"
  shows "below r h \<le> length (Entries r)"
    "i < length (Entries r) \<Longrightarrow> i < below r h \<longleftrightarrow> Start (Entries r ! i) \<le> h"
proof -
  have mono: "Start (Entries r ! b) > h" if "a \<le> b" "b < length (Entries r)" "Start (Entries r ! a) > h" for a b
    using starts_less [OF assms, of a b] that by (cases "a = b") auto
  show "below r h \<le> length (Entries r)"
    unfolding below_def by (rule sortSearch_first(1)) (rule mono)
  have "\<not> Start (Entries r ! i) > h" if "i < below r h" for i
    by (rule sortSearch_first(2) [where n = "length (Entries r)"]) (use mono that in \<open>auto simp: below_def\<close>)
  moreover have "Start (Entries r ! i) > h" if "below r h \<le> i" "i < length (Entries r)" for i
    by (rule sortSearch_first(3) [where n = "length (Entries r)"]) (use mono that in \<open>auto simp: below_def\<close>)
  ultimately show "i < below r h \<longleftrightarrow> Start (Entries r ! i) \<le> h" if "i < length (Entries r)"
    using that by (meson not_le)
qed

lemma below_unique:
  assumes "ring_ok r" "k \<le> length (Entries r)"
    and "\<And>i. i < length (Entries r) \<Longrightarrow> i < k \<longleftrightarrow> Start (Entries r ! i) \<le> h"
  shows "below r h = k"
proof (rule linorder_cases [of "below r h" k])
  assume "below r h < k"
  then show ?thesis using assms(2) assms(3) [of "below r h"] below_props(2) [OF assms(1), of "below r h" h] by simp
next
  assume "k < below r h"
  then show ?thesis using assms(3) [of k] below_props [OF assms(1), where h = h] by (metis less_le_trans less_irrefl)
qed

lemma below_mono:
  assumes "ring_ok r" "p \<le> h"
  shows "below r p \<le> below r h"
proof (rule ccontr)
  assume "\<not> below r p \<le> below r h"
  then have lt: "below r h < below r p" by simp
  then have "below r h < length (Entries r)" using below_props(1) [OF assms(1), of p] by simp
  then show False
    using below_props(2) [OF assms(1), of "below r h"] lt assms(2) by (meson less_irrefl order_trans)
qed

lemma slot_bound: "ring_ok r \<Longrightarrow> slot r h < length (Entries r)"
  using below_props(1) [of r h] by (auto simp: slot_def ring_ok_def)

lemma ringAssignPoint_slot: "ring_ok r \<Longrightarrow> ringAssignPoint r h = Inr (Shard (Entries r ! slot r h))"
  by (simp add: ringAssignPoint_def slot_def below_def ring_ok_def Let_def)

lemma inRange_slot:
  assumes ok: "ring_ok r" and i: "i < length (Entries r)"
  shows "inRangeExclusive (Start (Entries r ! i)) (rangeEnd r i) h \<longleftrightarrow> i = slot r h"
proof (cases "Suc i < length (Entries r)")
  case True
  then have "rangeEnd r i = Start (Entries r ! Suc i)" by (simp add: rangeEnd_def)
  moreover have "Start (Entries r ! i) < Start (Entries r ! Suc i)" by (rule starts_less [OF ok]) (use True in auto)
  ultimately have "inRangeExclusive (Start (Entries r ! i)) (rangeEnd r i) h \<longleftrightarrow> i < below r h \<and> \<not> Suc i < below r h"
    using below_props(2) [OF ok i, of h] below_props(2) [OF ok True, of h] by (simp add: inRangeExclusive_def not_le)
  then show ?thesis using True by (auto simp: slot_def)
next
  case False
  then have last: "Suc i = length (Entries r)" using i by simp
  then have "rangeEnd r i = Start (Entries r ! 0)" by (simp add: rangeEnd_def)
  moreover have "Start (Entries r ! 0) \<le> Start (Entries r ! i)"
    using starts_less [OF ok _ i, of 0] by (cases "i = 0") auto
  ultimately have "inRangeExclusive (Start (Entries r ! i)) (rangeEnd r i) h \<longleftrightarrow> i < below r h \<or> \<not> 0 < below r h"
    using below_props(2) [OF ok i, of h] below_props(2) [OF ok, of 0 h] i
    by (cases "Entries r") (auto simp: inRangeExclusive_def)
  moreover have "below r h \<le> Suc i" using below_props(1) [OF ok] last by simp
  ultimately show ?thesis using last by (auto simp: slot_def)
qed

text \<open>
  (C30) Lookup: on a ring that \<open>Validate\<close> accepts, the ranges of the entries partition the hash space,
  every point lies in exactly one of them, and the binary search returns the shard of that entry.
\<close>

theorem ringAssignPoint_owner:
  assumes "ringValidate r = None"
  shows "(\<exists>!i. i < length (Entries r) \<and> inRangeExclusive (Start (Entries r ! i)) (rangeEnd r i) h) \<and>
    (\<forall>i < length (Entries r). inRangeExclusive (Start (Entries r ! i)) (rangeEnd r i) h \<longrightarrow>
      ringAssignPoint r h = Inr (Shard (Entries r ! i)))"
proof -
  have ok: "ring_ok r" using assms by (simp add: ringValidate_iff)
  have "\<exists>!i. i < length (Entries r) \<and> inRangeExclusive (Start (Entries r ! i)) (rangeEnd r i) h"
    using inRange_slot [OF ok] slot_bound [OF ok] by metis
  then show ?thesis using inRange_slot [OF ok] ringAssignPoint_slot [OF ok] by simp
qed

definition exRing :: Ring where
  "exRing = \<lparr>Entries = [\<lparr>Start = 100, Shard = 1\<rparr>, \<lparr>Start = 5000, Shard = 2\<rparr>]\<rparr>"

lemma exRing_ok: "ringValidate exRing = None" "ring_ok exRing"
  by (simp_all add: exRing_def ringValidate_def ring_ok_def starts_def)

theorem ringAssignPoint_owner_witness: "ringAssignPoint exRing 7 = Inr 2 \<and> ringAssignPoint exRing 4999 = Inr 1"
proof -
  have "inRangeExclusive (Start (Entries exRing ! 1)) (rangeEnd exRing 1) 7" "length (Entries exRing) = 2"
    "inRangeExclusive (Start (Entries exRing ! 0)) (rangeEnd exRing 0) 4999"
    by (simp_all add: exRing_def inRangeExclusive_def rangeEnd_def)
  with ringAssignPoint_owner [OF exRing_ok(1), of 7] ringAssignPoint_owner [OF exRing_ok(1), of 4999]
  have "ringAssignPoint exRing 7 = Inr (Shard (Entries exRing ! 1))"
    "ringAssignPoint exRing 4999 = Inr (Shard (Entries exRing ! 0))" by auto
  then show ?thesis by (simp add: exRing_def)
qed

section \<open>Splitting\<close>

lemma findShard_Some: "findShard es s = Some i \<Longrightarrow> i < length es \<and> Shard (es ! i) = s"
  by (induction es arbitrary: i) (auto split: if_splits)

lemma findShard_None: "findShard es s = None \<longleftrightarrow> s \<notin> Shard ` set es"
  by (induction es) auto

lemma findShard_nth: "distinct (map Shard es) \<Longrightarrow> i < length es \<Longrightarrow> findShard es (Shard (es ! i)) = Some i"
proof (induction es arbitrary: i)
  case (Cons e es)
  then show ?case by (cases i) (auto simp: image_iff dest: nth_mem)
qed simp

lemma maxShard_bound:
  "m \<le> fold (\<lambda>e m. if Shard e > m then Shard e else m) es m \<and>
   (\<forall>e \<in> set es. Shard e \<le> fold (\<lambda>e m. if Shard e > m then Shard e else m) es m)"
proof (induction es arbitrary: m)
  case (Cons e es)
  let ?m = "if Shard e > m then Shard e else m"
  have "?m \<le> fold (\<lambda>e m. if Shard e > m then Shard e else m) es ?m" using Cons.IH by blast
  then show ?case using Cons.IH [of ?m] by (auto split: if_splits)
qed simp

lemma NextShardID_fresh: "e \<in> set (Entries r) \<Longrightarrow> Shard e < NextShardID r"
  using maxShard_bound [of 0 "Entries r"] by (auto simp: NextShardID_def)

text \<open>The ring after a split has the new entry behind the entries that start at or below the point.\<close>

definition insertAt :: "nat \<Rightarrow> RingEntry \<Rightarrow> RingEntry list \<Rightarrow> RingEntry list" where
  "insertAt k n es = take k es @ [n] @ drop k es"

lemma insertAt_nth:
  assumes "k \<le> length es" "i \<le> length es"
  shows "insertAt k n es ! i = (if i < k then es ! i else if i = k then n else es ! (i - 1))"
  using assms by (auto simp: insertAt_def nth_append min_def nth_Cons')

lemma split_sorted:
  assumes ok: "ring_ok r" and new: "Start n \<notin> set (starts r)"
  shows "sort_key Start (Entries r @ [n]) = insertAt (below r (Start n)) n (Entries r)"
    "sorted_wrt (<) (map Start (insertAt (below r (Start n)) n (Entries r)))"
proof -
  let ?k = "below r (Start n)" and ?es = "Entries r"
  note pr = below_props [OF ok, where h = "Start n"]
  have lo: "Start e < Start n" if mem: "e \<in> set (take ?k ?es)" for e
  proof -
    obtain i where "i < length (take ?k ?es)" "take ?k ?es ! i = e" using mem unfolding in_set_conv_nth by blast
    then have "i < ?k" "i < length ?es" "e = ?es ! i" by auto
    moreover from this have "Start e \<in> set (starts r)" by (auto simp: starts_def)
    ultimately show ?thesis using pr(2) [of i] new by (metis order_le_less)
  qed
  have hi: "Start n < Start e" if mem: "e \<in> set (drop ?k ?es)" for e
  proof -
    obtain i where "i < length (drop ?k ?es)" "drop ?k ?es ! i = e" using mem unfolding in_set_conv_nth by blast
    then have "?k + i < length ?es" "e = ?es ! (?k + i)" by auto
    then show ?thesis using pr(2) [of "?k + i"] by auto
  qed
  have "sorted_wrt (<) (map Start (take ?k ?es @ drop ?k ?es))" using ok by (simp add: ring_ok_def starts_def)
  then show strict: "sorted_wrt (<) (map Start (insertAt ?k n ?es))"
    using lo hi unfolding insertAt_def
    by (simp add: sorted_wrt_append del: append_take_drop_id)
  have m: "mset (insertAt ?k n ?es) = mset (?es @ [n])"
    unfolding insertAt_def by (metis add.commute append_take_drop_id mset_append union_assoc)
  let ?s = "sort_key Start (?es @ [n])"
  have set: "set ?s = set (insertAt ?k n ?es)" using m by (metis mset_eq_setD set_sort)
  have dist: "distinct (map Start (insertAt ?k n ?es))" using strict strict_sorted_iff by blast
  then have "distinct (map Start ?s)"
    using m by (metis distinct_map mset_eq_imp_distinct_iff mset_sort set)
  then show "?s = insertAt ?k n ?es"
    using dist strict set
    by (intro map_sorted_distinct_set_unique [of Start])
       (auto simp: strict_sorted_iff distinct_map Un_commute)
qed

lemma Split_Inr:
  assumes "Split r s p = Inr (r', new)"
  obtains idx where "findShard (Entries r) s = Some idx" "p \<noteq> Start (Entries r ! idx)"
    "inRangeExclusive (Start (Entries r ! idx)) (rangeEnd r idx) p" "new = NextShardID r"
    "r' = \<lparr>Entries = sort_key Start (Entries r @ [\<lparr>Start = p, Shard = new\<rparr>])\<rparr>"
  using assms by (auto simp: Split_def Let_def split: option.splits if_splits)

lemma point_is_new:
  assumes ok: "ring_ok r" and p: "p \<noteq> Start (Entries r ! slot r p)"
  shows "p \<notin> set (starts r)"
proof
  assume "p \<in> set (starts r)"
  then obtain i where i: "i < length (Entries r)" "Start (Entries r ! i) = p"
    by (auto simp: starts_def in_set_conv_nth)
  then have "inRangeExclusive (Start (Entries r ! i)) (rangeEnd r i) p"
    by (auto simp: inRangeExclusive_def)
  then have "i = slot r p" using inRange_slot [OF ok i(1)] by simp
  with i p show False by simp
qed

lemma ring_ok_insertAt:
  assumes ok: "ring_ok r" and p: "p \<notin> set (starts r)"
  shows "ring_ok \<lparr>Entries = insertAt (below r p) \<lparr>Start = p, Shard = NextShardID r\<rparr> (Entries r)\<rparr>" (is "ring_ok ?r'")
proof -
  let ?n = "\<lparr>Start = p, Shard = NextShardID r\<rparr> :: RingEntry"
  have "distinct (map Shard (take (below r p) (Entries r) @ drop (below r p) (Entries r)))"
    using ok by (simp add: ring_ok_def)
  moreover have "Shard ?n \<notin> Shard ` set (take (below r p) (Entries r) @ drop (below r p) (Entries r))"
    using NextShardID_fresh [of _ r] by fastforce
  ultimately have "distinct (map Shard (insertAt (below r p) ?n (Entries r)))"
    unfolding insertAt_def by (auto simp del: append_take_drop_id)
  then show ?thesis
    using split_sorted(2) [OF ok, of ?n] p by (simp add: ring_ok_def starts_def insertAt_def)
qed

lemma slot_insertAt:
  fixes r p defines "k \<equiv> below r p" and "r' \<equiv> \<lparr>Entries = insertAt (below r p) \<lparr>Start = p, Shard = NextShardID r\<rparr> (Entries r)\<rparr>"
  assumes ok: "ring_ok r" and p: "p \<notin> set (starts r)"
  shows "below r' h = (if p \<le> h then below r h + 1 else below r h)"
proof (rule below_unique)
  have k: "k \<le> length (Entries r)" unfolding k_def by (rule below_props(1) [OF ok])
  show "ring_ok r'" unfolding r'_def by (rule ring_ok_insertAt [OF ok p])
  have len: "length (Entries r') = length (Entries r) + 1"
    using k by (simp add: r'_def insertAt_def k_def)
  show "(if p \<le> h then below r h + 1 else below r h) \<le> length (Entries r')"
    using below_props(1) [OF ok, of h] len by simp
  fix i
  assume "i < length (Entries r')"
  then have i: "i \<le> length (Entries r)" using len by simp
  have at: "Start (Entries r' ! i) = (if i < k then Start (Entries r ! i) else if i = k then p else Start (Entries r ! (i - 1)))"
    using insertAt_nth [OF k i] by (simp add: r'_def k_def)
  have lo: "j < k \<longleftrightarrow> Start (Entries r ! j) \<le> p" if "j < length (Entries r)" for j
    unfolding k_def by (rule below_props(2) [OF ok that])
  have bh: "j < below r h \<longleftrightarrow> Start (Entries r ! j) \<le> h" if "j < length (Entries r)" for j
    by (rule below_props(2) [OF ok that])
  have kh: "p \<le> h \<Longrightarrow> k \<le> below r h" "\<not> p \<le> h \<Longrightarrow> below r h \<le> k"
    using below_mono [OF ok, of p h] below_mono [OF ok, of h p] by (auto simp: k_def)
  show "i < (if p \<le> h then below r h + 1 else below r h) \<longleftrightarrow> Start (Entries r' ! i) \<le> h"
  proof (cases "i \<le> k")
    case True
    then show ?thesis using at lo [of i] bh [of i] kh k i by (cases "i = k") auto
  next
    case False
    then have "i - 1 < length (Entries r)" "k \<le> i - 1" using i by auto
    then show ?thesis using at False bh [of "i - 1"] kh by auto
  qed
qed

lemma rangeEnd_slot:
  assumes "ring_ok r"
  shows "rangeEnd r (slot r p) = Start (Entries r ! (if below r p < length (Entries r) then below r p else 0))"
  using assms below_props(1) [OF assms, of p]
  by (cases "below r p") (auto simp: rangeEnd_def slot_def ring_ok_def)

lemma upper_half:
  assumes ok: "ring_ok r"
  shows "inRangeExclusive p (rangeEnd r (slot r p)) h \<longleftrightarrow>
     (if below r p < length (Entries r) then p \<le> h \<and> below r h = below r p else p \<le> h \<or> below r h = 0)"
proof (cases "below r p < length (Entries r)")
  case True
  then have gt: "p < Start (Entries r ! below r p)" using below_props(2) [OF ok True, of p] by auto
  have "p \<le> h \<Longrightarrow> below r p \<le> below r h" by (rule below_mono [OF ok])
  then show ?thesis
    using True gt rangeEnd_slot [OF ok, of p] below_props(2) [OF ok True, of h]
    by (auto simp: inRangeExclusive_def)
next
  case False
  have n: "0 < length (Entries r)" using ok by (simp add: ring_ok_def)
  then have "Start (Entries r ! 0) \<le> p" using False below_props(2) [OF ok n, of p] by auto
  then show ?thesis
    using False rangeEnd_slot [OF ok, of p] below_props(2) [OF ok n, of h] by (auto simp: inRangeExclusive_def)
qed

lemma assign_insertAt:
  fixes r p defines "n \<equiv> \<lparr>Start = p, Shard = NextShardID r\<rparr>"
  assumes ok: "ring_ok r" and p: "p \<notin> set (starts r)"
  shows "ringAssignPoint \<lparr>Entries = insertAt (below r p) n (Entries r)\<rparr> h =
     (if inRangeExclusive p (rangeEnd r (slot r p)) h then Inr (NextShardID r) else ringAssignPoint r h)"
proof -
  let ?r' = "\<lparr>Entries = insertAt (below r p) n (Entries r)\<rparr>" and ?k = "below r p" and ?b = "below r h" and ?es = "Entries r"
  have ok': "ring_ok ?r'" unfolding n_def by (rule ring_ok_insertAt [OF ok p])
  have k: "?k \<le> length ?es" and b: "?b \<le> length ?es" by (rule below_props(1) [OF ok])+
  have pos: "0 < length ?es" using ok by (simp add: ring_ok_def)
  have len: "length (Entries ?r') = length ?es + 1" using k by (simp add: insertAt_def)
  have b': "below ?r' h = (if p \<le> h then ?b + 1 else ?b)" unfolding n_def by (rule slot_insertAt [OF ok p])
  have at: "insertAt ?k n ?es ! i = (if i < ?k then ?es ! i else if i = ?k then n else ?es ! (i - 1))"
    if "i \<le> length ?es" for i by (rule insertAt_nth [OF k that])
  have kb: "p \<le> h \<Longrightarrow> ?k \<le> ?b" by (rule below_mono [OF ok])
  have kb': "\<not> p \<le> h \<Longrightarrow> ?b \<le> ?k" by (rule below_mono [OF ok]) simp
  have "Shard (insertAt ?k n ?es ! slot ?r' h) =
      (if inRangeExclusive p (rangeEnd r (slot r p)) h then NextShardID r else Shard (?es ! slot r h))"
  proof (cases "p \<le> h")
    case True
    then have "slot ?r' h = ?b" using b' by (simp add: slot_def)
    then show ?thesis using at [OF b] kb [OF True] True k b unfolding upper_half [OF ok]
      by (auto simp: slot_def n_def)
  next
    case False
    then have "slot ?r' h = (if ?b = 0 then length ?es else ?b - 1)" using b' len by (simp add: slot_def)
    then show ?thesis using at [of "length ?es"] at [of "?b - 1"] kb' [OF False] False k b pos unfolding upper_half [OF ok]
      by (auto simp: slot_def n_def)
  qed
  then show ?thesis using ringAssignPoint_slot [OF ok, of h] ringAssignPoint_slot [OF ok', of h] by auto
qed

lemma Split_effect:
  assumes ok: "ring_ok r" and run: "Split r s p = Inr (r', new)"
  shows "ring_ok r'" "new = NextShardID r" "mset (Entries r') = mset (Entries r) + {#\<lparr>Start = p, Shard = new\<rparr>#}"
    "findShard (Entries r) s = Some (slot r p)"
    "ringAssignPoint r' h =
       (if inRangeExclusive p (rangeEnd r (slot r p)) h then Inr new else ringAssignPoint r h)"
proof -
  from run obtain idx where idx: "findShard (Entries r) s = Some idx" "p \<noteq> Start (Entries r ! idx)"
    "inRangeExclusive (Start (Entries r ! idx)) (rangeEnd r idx) p" and new: "new = NextShardID r"
    and r': "r' = \<lparr>Entries = sort_key Start (Entries r @ [\<lparr>Start = p, Shard = new\<rparr>])\<rparr>"
    by (rule Split_Inr)
  have slot: "idx = slot r p" using idx inRange_slot [OF ok] findShard_Some [OF idx(1)] by blast
  then have p: "p \<notin> set (starts r)" using point_is_new [OF ok] idx(2) by simp
  have eq: "r' = \<lparr>Entries = insertAt (below r p) \<lparr>Start = p, Shard = NextShardID r\<rparr> (Entries r)\<rparr>"
    using split_sorted(1) [OF ok, of "\<lparr>Start = p, Shard = new\<rparr>"] p by (simp add: r' new)
  show "ring_ok r'" unfolding eq by (rule ring_ok_insertAt [OF ok p])
  show "new = NextShardID r" by (rule new)
  show "mset (Entries r') = mset (Entries r) + {#\<lparr>Start = p, Shard = new\<rparr>#}" by (simp add: r')
  show "findShard (Entries r) s = Some (slot r p)" using idx(1) slot by simp
  show "ringAssignPoint r' h =
       (if inRangeExclusive p (rangeEnd r (slot r p)) h then Inr new else ringAssignPoint r h)"
    unfolding eq new by (rule assign_insertAt [OF ok p])
qed

lemma Split_spec:
  assumes "ringValidate r = None" "Split r s p = Inr (r', new)" "findShard (Entries r) s = Some idx"
  shows "ringValidate r' = None \<and> new \<notin> Shard ` set (Entries r) \<and>
     Shard ` set (Entries r') = insert new (Shard ` set (Entries r)) \<and>
     (\<forall>h. ringAssignPoint r' h = (if inRangeExclusive p (rangeEnd r idx) h then Inr new else ringAssignPoint r h) \<and>
          (inRangeExclusive p (rangeEnd r idx) h \<longrightarrow> ringAssignPoint r h = Inr s))"
proof -
  have ok: "ring_ok r" using assms(1) by (simp add: ringValidate_iff)
  note eff = Split_effect [OF ok assms(2)]
  have idx: "idx = slot r p" using eff(4) assms(3) by simp
  have sub: "ringAssignPoint r h = Inr s" if "inRangeExclusive p (rangeEnd r idx) h" for h
  proof -
    have "slot r h = slot r p"
      using that below_props(1) [OF ok, of h] below_props(1) [OF ok, of p] below_mono [OF ok, of p h]
      unfolding idx upper_half [OF ok] by (auto simp: slot_def split: if_splits)
    then show ?thesis using ringAssignPoint_slot [OF ok, of h] findShard_Some [OF assms(3)] idx by simp
  qed
  have "set (Entries r') = insert \<lparr>Start = p, Shard = new\<rparr> (set (Entries r))"
    using eff(3) by (metis set_mset_add_mset_insert set_mset_mset add.commute add_mset_add_single)
  moreover have "new \<notin> Shard ` set (Entries r)" using NextShardID_fresh [of _ r] eff(2) by fastforce
  ultimately show ?thesis using eff(1) eff(5) sub idx by (simp add: ringValidate_iff)
qed

text \<open>
  (C31) A split is local: on a valid ring a successful \<open>Split\<close> yields a valid ring with one more shard,
  whose id was not in use; the points from the split point to the end of the old range go to the new
  shard, all of them belonged to the split shard, and every other point keeps its shard.
\<close>

theorem Split_local:
  assumes "ringValidate r = None" "Split r s p = Inr (r', new)" "findShard (Entries r) s = Some idx"
  shows "ringValidate r' = None \<and> new \<notin> Shard ` set (Entries r) \<and>
     Shard ` set (Entries r') = insert new (Shard ` set (Entries r)) \<and>
     (\<forall>h. ringAssignPoint r' h = (if inRangeExclusive p (rangeEnd r idx) h then Inr new else ringAssignPoint r h) \<and>
          (inRangeExclusive p (rangeEnd r idx) h \<longrightarrow> ringAssignPoint r h = Inr s))"
  using Split_spec [OF assms] .

lemma exRing_split:
  "Split exRing 2 4294967295 = Inr (\<lparr>Entries = Entries exRing @ [\<lparr>Start = 4294967295, Shard = 3\<rparr>]\<rparr>, 3)"
  by (simp add: Split_def exRing_def rangeEnd_def inRangeExclusive_def NextShardID_def)

theorem Split_local_witness:
  "\<exists>r'. Split exRing 2 4294967295 = Inr (r', 3) \<and> ringAssignPoint r' 7 = Inr 3 \<and> ringAssignPoint r' 6000 = Inr 2"
proof -
  have "findShard (Entries exRing) 2 = Some 1" by (simp add: exRing_def)
  from Split_local [OF exRing_ok(1) exRing_split this]
  have "\<forall>h. ringAssignPoint \<lparr>Entries = Entries exRing @ [\<lparr>Start = 4294967295, Shard = 3\<rparr>]\<rparr> h =
      (if inRangeExclusive 4294967295 (rangeEnd exRing 1) h then Inr 3 else ringAssignPoint exRing h)" by blast
  moreover have "inRangeExclusive 4294967295 (rangeEnd exRing 1) 7" "\<not> inRangeExclusive 4294967295 (rangeEnd exRing 1) 6000"
    by (simp_all add: exRing_def rangeEnd_def inRangeExclusive_def)
  moreover have "ringAssignPoint exRing 6000 = Inr 2"
  proof -
    have "slot exRing 6000 = 1"
      using inRange_slot [OF exRing_ok(2), of 1 6000] by (simp add: exRing_def rangeEnd_def inRangeExclusive_def)
    then show ?thesis using ringAssignPoint_slot [OF exRing_ok(2), of 6000] by (simp add: exRing_def)
  qed
  ultimately show ?thesis using exRing_split by auto
qed

section \<open>Widths\<close>

definition Midpoint :: "Ring \<Rightarrow> int \<Rightarrow> 32 word res" where
  "Midpoint ring shard =
     (case findShard (Entries ring) shard of
        None \<Rightarrow> Inl (Error ''hotshard: shard not found in ring'')
      | Some i \<Rightarrow>
         (let e = Entries ring ! i;
              width = (ucast (rangeEnd ring i) :: 64 word) - ucast (Start e);
              width = (if rangeEnd ring i \<le> Start e then width + push_bit 32 1 else width)
          in if width < 2 then Inl (Error ''hotshard: the range is too narrow to split'')
             else Inr (ucast ((ucast (Start e) + width div 2) mod push_bit 32 1))))"

text \<open>The number of points of a range, computed on 64-bit words with wrap-around.\<close>

definition rangeWidth :: "32 word \<Rightarrow> 32 word \<Rightarrow> nat" where
  "rangeWidth a b = (if b \<le> a then unat b + 2 ^ 32 - unat a else unat b - unat a)"

lemma unat32: "unat (x :: 32 word) < 2 ^ 32"
  using unsigned_less [of x, where ?'a = nat] by simp

lemma unat_ucast64: "unat (ucast (x :: 32 word) :: 64 word) = unat x"
  using unat32 [of x] by (simp add: unsigned_ucast_eq take_bit_nat_eq_self)

lemma rangeWidth_bound: "rangeWidth a b \<le> 2 ^ 32"
  using unat32 [of a] unat32 [of b] by (auto simp: rangeWidth_def word_le_nat_alt)

lemma width_word:
  fixes a b :: "32 word"
  shows "(if b \<le> a then (ucast b :: 64 word) - ucast a + push_bit 32 1 else ucast b - ucast a) =
     of_nat (rangeWidth a b)"
proof -
  have u: "(ucast x :: 64 word) = of_nat (unat x)" for x :: "32 word"
    by (metis of_nat_unat unat_ucast64 ucast_id)
  have "unat a \<le> unat b + 2 ^ 32" using unat32 [of a] by simp
  then have "(of_nat (unat b + 2 ^ 32 - unat a) :: 64 word) = of_nat (unat b) - of_nat (unat a) + 2 ^ 32"
    by (simp add: of_nat_diff)
  then show ?thesis
    unfolding u by (auto simp: rangeWidth_def push_bit_eq_mult word_le_nat_alt of_nat_diff)
qed

lemma midpoint_word:
  fixes a :: "32 word" and w :: nat
  assumes "w \<le> 2 ^ 32"
  shows "unat (ucast ((ucast a + (of_nat w :: 64 word) div 2) mod push_bit 32 1) :: 32 word) = (unat a + w div 2) mod 2 ^ 32"
    and "(of_nat w :: 64 word) < 2 \<longleftrightarrow> w < 2"
proof -
  have w: "unat (of_nat w :: 64 word) = w" using assms by (simp add: unsigned_of_nat take_bit_nat_eq_self)
  have ua: "unat (ucast a :: 64 word) = unat a" by (rule unat_ucast64)
  have half: "unat ((of_nat w :: 64 word) div 2) = w div 2" using w by (simp add: unat_div)
  have "unat a + w div 2 < 2 ^ 64" using unat32 [of a] assms by simp
  then have sum: "unat (ucast a + (of_nat w :: 64 word) div 2) = unat a + w div 2"
    using ua half by (simp add: unat_add_lem [THEN iffD1])
  have "unat ((ucast a + (of_nat w :: 64 word) div 2) mod push_bit 32 1) = (unat a + w div 2) mod 2 ^ 32"
    unfolding unat_mod sum by (simp add: push_bit_eq_mult)
  then show "unat (ucast ((ucast a + (of_nat w :: 64 word) div 2) mod push_bit 32 1) :: 32 word) = (unat a + w div 2) mod 2 ^ 32"
    by (simp add: unsigned_ucast_eq take_bit_eq_mod)
  show "(of_nat w :: 64 word) < 2 \<longleftrightarrow> w < 2" using w by (simp add: word_less_nat_alt)
qed

lemma midpoint_inside:
  fixes a b p :: "32 word"
  assumes w: "2 \<le> rangeWidth a b" and p: "unat p = (unat a + rangeWidth a b div 2) mod 2 ^ 32"
  shows "p \<noteq> a \<and> inRangeExclusive a b p"
proof -
  let ?w = "rangeWidth a b" and ?m = "unat a + rangeWidth a b div 2"
  have a: "unat a < 2 ^ 32" and b: "unat b < 2 ^ 32" by (rule unat32)+
  have half: "0 < ?w div 2" "?w div 2 < ?w" "?w div 2 \<le> 2 ^ 31" using w rangeWidth_bound [of a b] by auto
  show ?thesis
  proof (cases "?m < 2 ^ 32")
    case True
    then have "unat p = ?m" using p by simp
    then have gt: "a < p" "a < b \<Longrightarrow> p < b"
      using half a b by (auto simp: word_less_nat_alt word_le_nat_alt rangeWidth_def split: if_splits)
    then show ?thesis by (auto simp: inRangeExclusive_def)
  next
    case False
    have "unat p = (?m - 2 ^ 32) mod 2 ^ 32" using p False by (simp add: le_mod_geq)
    moreover have "?m - 2 ^ 32 < 2 ^ 32" using a half(3) by simp
    ultimately have "unat p = ?m - 2 ^ 32" by simp
    moreover have wrap: "\<not> a < b"
      using half(2) b False by (auto simp: word_less_nat_alt rangeWidth_def word_le_nat_alt)
    then have "unat b + 2 ^ 32 = ?w + unat a"
      using a by (simp add: rangeWidth_def word_le_nat_alt word_less_nat_alt)
    moreover have "(2 :: nat) ^ 31 < 2 ^ 32" by simp
    ultimately have "unat p < unat b" "unat p < unat a" using half a False by linarith+
    then show ?thesis using wrap by (auto simp: inRangeExclusive_def word_less_nat_alt)
  qed
qed

lemma rangeWidth_one: "rangeWidth a b < 2 \<longleftrightarrow> b = a + 1"
proof -
  have "unat (a + 1) = (if unat a = 2 ^ 32 - 1 then 0 else unat a + 1)"
    using unat32 [of a] by (simp add: unat_word_ariths(1))
  then have "b = a + 1 \<longleftrightarrow> unat b = (if unat a = 2 ^ 32 - 1 then 0 else unat a + 1)"
    by (metis word_unat_eq_iff)
  then show ?thesis
    using unat32 [of a] unat32 [of b] by (auto simp: rangeWidth_def word_le_nat_alt split: if_splits)
qed

lemma Midpoint_eq:
  assumes "findShard (Entries r) s = Some i"
  shows "Midpoint r s =
    (if rangeEnd r i = Start (Entries r ! i) + 1 then Inl (Error ''hotshard: the range is too narrow to split'')
     else Inr (ucast ((ucast (Start (Entries r ! i)) +
        (of_nat (rangeWidth (Start (Entries r ! i)) (rangeEnd r i)) :: 64 word) div 2) mod push_bit 32 1)))"
  using assms rangeWidth_one [of "Start (Entries r ! i)" "rangeEnd r i"]
    midpoint_word(2) [OF rangeWidth_bound, of "Start (Entries r ! i)" "rangeEnd r i"]
  unfolding Midpoint_def Let_def width_word by simp

lemma Midpoint_spec:
  assumes "findShard (Entries r) s = Some i"
  shows "if rangeEnd r i = Start (Entries r ! i) + 1 then \<exists>msg. Midpoint r s = Inl (Error msg)
     else \<exists>p r' new. Midpoint r s = Inr p \<and> Split r s p = Inr (r', new)"
proof (cases "rangeEnd r i = Start (Entries r ! i) + 1")
  case True
  then show ?thesis using Midpoint_eq [OF assms] by simp
next
  case False
  let ?a = "Start (Entries r ! i)" and ?b = "rangeEnd r i"
  obtain p where p: "Midpoint r s = Inr p" "unat p = (unat ?a + rangeWidth ?a ?b div 2) mod 2 ^ 32"
    using Midpoint_eq [OF assms] False midpoint_word(1) [OF rangeWidth_bound, of ?a ?a ?b] by auto
  have "2 \<le> rangeWidth ?a ?b" using rangeWidth_one [of ?a ?b] False by auto
  from midpoint_inside [OF this p(2)] have "\<exists>r' new. Split r s p = Inr (r', new)"
    using assms by (simp add: Split_def Let_def)
  with p False show ?thesis by auto
qed

text \<open>
  Halving a range: on a valid ring \<open>Midpoint\<close> fails exactly when the shard's range is a single
  point, and otherwise the point it computes on 64-bit words, also across the top of the hash space
  and for a ring with one shard, is one at which \<open>Split\<close> succeeds.
\<close>

theorem Midpoint_splits:
  assumes "findShard (Entries r) s = Some i"
  shows "if rangeEnd r i = Start (Entries r ! i) + 1 then \<exists>msg. Midpoint r s = Inl (Error msg)
     else \<exists>p r' new. Midpoint r s = Inr p \<and> Split r s p = Inr (r', new)"
  by (rule Midpoint_spec [OF assms])

theorem Midpoint_splits_witness: "\<exists>p r' new. Midpoint exRing 2 = Inr p \<and> Split exRing 2 p = Inr (r', new)"
proof -
  have i: "findShard (Entries exRing) 2 = Some 1" by (simp add: exRing_def)
  have "rangeEnd exRing 1 \<noteq> Start (Entries exRing ! 1) + 1" by (simp add: exRing_def rangeEnd_def)
  with Midpoint_splits [OF i] show ?thesis by simp
qed

lemma NewRing_starts:
  assumes "0 < n" "n \<le> 2 ^ 32" "i < nat n"
  shows "unat (ucast (of_nat i * (push_bit 32 (1 :: 64 word) div of_int n)) :: 32 word) = i * (2 ^ 32 div nat n)"
proof -
  let ?w = "2 ^ 32 div nat n"
  have n: "unat (of_int n :: 64 word) = nat n"
  proof -
    have "(of_int n :: 64 word) = of_nat (nat n)" using assms(1) by (metis of_int_of_nat_eq of_nat_nat order_less_imp_le)
    moreover have "nat n < 2 ^ 64" using assms(2) by (simp add: nat_less_iff)
    ultimately show ?thesis by (simp add: unsigned_of_nat take_bit_nat_eq_self)
  qed
  then have w: "unat (push_bit 32 (1 :: 64 word) div of_int n) = ?w"
    by (simp add: unat_div push_bit_eq_mult)
  have "i * ?w < nat n * ?w" using assms by (simp add: div_greater_zero_iff nat_le_iff)
  also have "\<dots> \<le> 2 ^ 32" by simp
  finally have lt: "i * ?w < 2 ^ 32" .
  have "i < 2 ^ 64" using assms by (simp add: zless_nat_conj)
  then have "unat (of_nat i :: 64 word) = i"
    by (simp add: unsigned_of_nat take_bit_nat_eq_self)
  then have "unat (of_nat i * (push_bit 32 (1 :: 64 word) div of_int n)) = i * ?w"
    using w lt by (simp add: unat_word_ariths(2))
  then show ?thesis using lt by (simp add: unsigned_ucast_eq take_bit_nat_eq_self)
qed

lemma NewRing_ok:
  assumes "0 < n" "n \<le> 2 ^ 32"
  shows "\<exists>r. NewRing n = Inr r \<and> ringValidate r = None \<and> map Shard (Entries r) = [1..n] \<and>
     (\<forall>i < nat n. unat (Start (Entries r ! i)) = i * (2 ^ 32 div nat n))"
proof -
  let ?st = "\<lambda>i :: nat. ucast (of_nat i * (push_bit 32 (1 :: 64 word) div of_int n)) :: 32 word"
  let ?r = "\<lparr>Entries = map (\<lambda>i. \<lparr>Start = ?st i, Shard = int i + 1\<rparr>) [0..<nat n]\<rparr>"
  have run: "NewRing n = Inr ?r" using assms(1) by (simp add: NewRing_def)
  have st: "unat (?st i) = i * (2 ^ 32 div nat n)" if "i < nat n" for i by (rule NewRing_starts [OF assms that])
  have "0 < 2 ^ 32 div nat n" using assms by (simp add: div_greater_zero_iff nat_le_iff)
  then have "?st i < ?st j" if "i < j" "j < nat n" for i j
    using st [of i] st [of j] that by (simp add: word_less_nat_alt)
  then have "sorted_wrt (<) (map ?st [0..<nat n])" by (simp add: sorted_wrt_iff_nth_less)
  moreover have "map (\<lambda>i. int i + 1) [0..<nat n] = [1..n]"
    using assms by (intro nth_equalityI) auto
  ultimately have "ring_ok ?r" and "map Shard (Entries ?r) = [1..n]"
    using assms by (simp_all add: ring_ok_def starts_def comp_def)
  then show ?thesis using run st by (auto simp: ringValidate_iff)
qed

section \<open>Configurations of a ring\<close>

record RingConfig =
  rcNum :: int
  rcRing :: Ring
  Owners :: "(int \<times> int) list"
  rcGroups :: goGroups

definition zeroRingConfig :: RingConfig where
  "zeroRingConfig = \<lparr>rcNum = 0, rcRing = \<lparr>Entries = []\<rparr>, Owners = [], rcGroups = []\<rparr>"

fun checkOwners :: "(int \<times> int) list \<Rightarrow> goGroups \<Rightarrow> RingEntry list \<Rightarrow> go_error option" where
  "checkOwners owners groups [] = None"
| "checkOwners owners groups (e # es) =
     (case map_of owners (Shard e) of
        None \<Rightarrow> Some (Error ''hotshard: shard has no owner'')
      | Some gid \<Rightarrow>
         (if (case map_of groups gid of None \<Rightarrow> True | Some addrs \<Rightarrow> addrs = [])
          then Some (Error ''hotshard: the owner is unknown or has no addresses'')
          else checkOwners owners groups es))"

definition ringConfigValidate :: "RingConfig \<Rightarrow> go_error option" where
  "ringConfigValidate c =
     (case ringValidate (rcRing c) of
        Some err \<Rightarrow> Some err
      | None \<Rightarrow>
         (if length (Owners c) \<noteq> length (Entries (rcRing c))
          then Some (Error ''hotshard: wrong number of owners'')
          else checkOwners (Owners c) (rcGroups c) (Entries (rcRing c))))"

definition dealOwners :: "int list \<Rightarrow> RingEntry list \<Rightarrow> (int \<times> int) list" where
  "dealOwners gids es =
     fold (\<lambda>(i, e) m. AList.update (Shard e) (gids ! (i mod length gids)) m) (zip [0..<length es] es) []"

definition NewRingConfig :: "Ring \<Rightarrow> goGroups \<Rightarrow> RingConfig res" where
  "NewRingConfig ring groups =
     (let gids = sortedGids groups
      in if gids = [] then Inl (Error ''hotshard: NewRingConfig needs at least one group'')
         else let cfg = \<lparr>rcNum = 1, rcRing = ring, Owners = dealOwners gids (Entries ring), rcGroups = groups\<rparr>
              in case ringConfigValidate cfg of Some err \<Rightarrow> Inl err | None \<Rightarrow> Inr cfg)"

definition SplitConfig :: "RingConfig \<Rightarrow> int \<Rightarrow> 32 word \<Rightarrow> (RingConfig \<times> int) res" where
  "SplitConfig cfg shard splitPoint =
     (case map_of (Owners cfg) shard of
        None \<Rightarrow> Inl (Error ''hotshard: shard has no owner in config'')
      | Some owner \<Rightarrow>
         bind_res (Split (rcRing cfg) shard splitPoint) (\<lambda>(ring, newID).
           Inr (\<lparr>rcNum = rcNum cfg + 1, rcRing = ring, Owners = AList.update newID owner (Owners cfg),
                 rcGroups = rcGroups cfg\<rparr>, newID)))"

definition MoveRingShard :: "RingConfig \<Rightarrow> int \<Rightarrow> int \<Rightarrow> RingConfig res" where
  "MoveRingShard cfg shard gid =
     (if map_of (Owners cfg) shard = None then Inl (Error ''hotshard: shard not in config'')
      else if map_of (rcGroups cfg) gid = None then Inl (Error ''hotshard: group not in config'')
      else Inr \<lparr>rcNum = rcNum cfg + 1, rcRing = rcRing cfg, Owners = AList.update shard gid (Owners cfg),
               rcGroups = rcGroups cfg\<rparr>)"

definition Lookup :: "RingConfig \<Rightarrow> string \<Rightarrow> int res" where
  "Lookup c key = bind_res (RingAssign (rcRing c) key) (\<lambda>s. Inr (get0 (map_of (Owners c)) s))"

text \<open>
  What every version of the history satisfies: the ring is valid, exactly its shards have an owner, and
  every owner is a group of the configuration.
\<close>

definition ringcfg_ok :: "RingConfig \<Rightarrow> bool" where
  "ringcfg_ok c \<longleftrightarrow> ring_ok (rcRing c) \<and> distinct (map fst (Owners c)) \<and>
     fst ` set (Owners c) = Shard ` set (Entries (rcRing c)) \<and> snd ` set (Owners c) \<subseteq> fst ` set (rcGroups c)"

lemma checkOwners_None:
  "checkOwners owners groups es = None \<longleftrightarrow>
     (\<forall>e \<in> set es. \<exists>gid addrs. map_of owners (Shard e) = Some gid \<and> map_of groups gid = Some addrs \<and> addrs \<noteq> [])"
  by (induction es) (auto split: option.splits)

lemma dealOwners_keys: "distinct (map fst (dealOwners gids es)) \<and> set (map fst (dealOwners gids es)) = Shard ` set es"
proof -
  have "distinct (map fst (fold (\<lambda>(i, e) m. AList.update (Shard e) (g i) m) xs m)) \<and>
      set (map fst (fold (\<lambda>(i, e) m. AList.update (Shard e) (g i) m) xs m)) = set (map fst m) \<union> Shard ` snd ` set xs"
    if "distinct (map fst m)" for xs :: "(nat \<times> RingEntry) list" and m :: "(int \<times> int) list" and g
    using that
  proof (induction xs arbitrary: m)
    case (Cons x xs)
    have "distinct (map fst (AList.update (Shard (snd x)) (g (fst x)) m))" using Cons.prems by (rule distinct_update)
    from Cons.IH [OF this] show ?case by (auto simp: split_beta dom_update)
  qed simp
  moreover have "snd ` set (zip [0..<length es] es) = set es"
    using map_snd_zip [of "[0..<length es]" es] set_map [of snd "zip [0..<length es] es"] by simp
  ultimately show ?thesis unfolding dealOwners_def by fastforce
qed

lemma ringValidated_ok:
  assumes "ringConfigValidate c = None" "distinct (map fst (Owners c))" "fst ` set (Owners c) = Shard ` set (Entries (rcRing c))"
  shows "ringcfg_ok c"
proof -
  have ok: "ring_ok (rcRing c)" and all: "checkOwners (Owners c) (rcGroups c) (Entries (rcRing c)) = None"
    using assms(1) by (auto simp: ringConfigValidate_def ringValidate_iff split: option.splits if_splits)
  have "g \<in> fst ` set (rcGroups c)" if "(s, g) \<in> set (Owners c)" for s g
  proof -
    have "map_of (Owners c) s = Some g" using that assms(2) by (rule map_of_is_SomeI [rotated])
    moreover have "s \<in> Shard ` set (Entries (rcRing c))" using that assms(3) by force
    ultimately obtain addrs where "map_of (rcGroups c) g = Some addrs" using all by (force simp: checkOwners_None)
    then show ?thesis by (force dest: map_of_SomeD)
  qed
  then show ?thesis using assms(2,3) ok by (auto simp: ringcfg_ok_def)
qed

lemma NewRingConfig_ok:
  assumes "NewRingConfig ring groups = Inr c"
  shows "ringcfg_ok c" "rcNum c = 1" "rcRing c = ring" "rcGroups c = groups" "ringConfigValidate c = None"
proof -
  have v: "ringConfigValidate c = None" "rcNum c = 1" "rcRing c = ring" "rcGroups c = groups"
    "Owners c = dealOwners (sortedGids groups) (Entries ring)"
    using assms by (auto simp: NewRingConfig_def Let_def split: if_splits option.splits)
  moreover have "ringcfg_ok c"
    using dealOwners_keys [of "sortedGids groups" "Entries ring"] v by (intro ringValidated_ok) auto
  ultimately show "ringcfg_ok c" "rcNum c = 1" "rcRing c = ring" "rcGroups c = groups" "ringConfigValidate c = None" by auto
qed

lemma snd_update: "snd ` set (AList.update k v m) \<subseteq> insert v (snd ` set m)"
  by (induction m) auto

lemma Lookup_slot:
  assumes "ring_ok (rcRing c)"
  shows "Lookup c key = Inr (get0 (map_of (Owners c)) (Shard (Entries (rcRing c) ! slot (rcRing c) (HashKey key))))"
  by (simp add: Lookup_def RingAssign_def ringAssignPoint_slot [OF assms])

lemma SplitConfig_ok:
  assumes ok: "ringcfg_ok c" and run: "SplitConfig c shard p = Inr (c', new)"
  shows "ringcfg_ok c'" "rcNum c' = rcNum c + 1" "rcGroups c' = rcGroups c" "Lookup c' key = Lookup c key"
    "Split (rcRing c) shard p = Inr (rcRing c', new)" "map_of (Owners c') new = map_of (Owners c) shard"
    "\<And>s. s \<noteq> new \<Longrightarrow> map_of (Owners c') s = map_of (Owners c) s"
proof -
  from run obtain owner ring where owner: "map_of (Owners c) shard = Some owner"
    and split: "Split (rcRing c) shard p = Inr (ring, new)"
    and c': "c' = \<lparr>rcNum = rcNum c + 1, rcRing = ring, Owners = AList.update new owner (Owners c), rcGroups = rcGroups c\<rparr>"
    by (auto simp: SplitConfig_def split: option.splits)
  have rok: "ring_ok (rcRing c)" using ok by (simp add: ringcfg_ok_def)
  note eff = Split_effect [OF rok split]
  have valid: "ringValidate (rcRing c) = None" using rok by (simp add: ringValidate_iff)
  obtain idx where idx: "findShard (Entries (rcRing c)) shard = Some idx" using eff(4) by blast
  have "set (Entries ring) = insert \<lparr>Start = p, Shard = new\<rparr> (set (Entries (rcRing c)))"
    using eff(3) by (metis set_mset_add_mset_insert set_mset_mset add.commute add_mset_add_single)
  moreover have "owner \<in> snd ` set (Owners c)" using owner by (force dest: map_of_SomeD)
  moreover from this have "snd ` set (AList.update new owner (Owners c)) \<subseteq> fst ` set (rcGroups c)"
    using ok snd_update [of new owner "Owners c"] unfolding ringcfg_ok_def by blast
  ultimately show "ringcfg_ok c'"
    using ok eff(1) unfolding c' ringcfg_ok_def by (simp add: distinct_update dom_update)
  show "rcNum c' = rcNum c + 1" "rcGroups c' = rcGroups c" "Split (rcRing c) shard p = Inr (rcRing c', new)"
    "map_of (Owners c') new = map_of (Owners c) shard" "\<And>s. s \<noteq> new \<Longrightarrow> map_of (Owners c') s = map_of (Owners c) s"
    using split owner by (simp_all add: c' update_conv')
  have "new \<noteq> s" if "ringAssignPoint (rcRing c) h = Inr s" for h s
    using that NextShardID_fresh [of "Entries (rcRing c) ! slot (rcRing c) h" "rcRing c"] slot_bound [OF rok, of h]
      ringAssignPoint_slot [OF rok, of h] eff(2) by auto
  moreover have "ringAssignPoint (rcRing c) h = Inr shard" if "inRangeExclusive p (rangeEnd (rcRing c) idx) h" for h
    using Split_spec [OF valid split idx] that by blast
  ultimately show "Lookup c' key = Lookup c key"
    using Split_spec [OF valid split idx] ringAssignPoint_slot [OF rok, of "HashKey key"] owner
    by (auto simp: Lookup_def RingAssign_def c' update_conv' get0_def)
qed

lemma MoveRingShard_ok:
  assumes ok: "ringcfg_ok c" and run: "MoveRingShard c shard gid = Inr c'"
  shows "ringcfg_ok c'" "rcNum c' = rcNum c + 1" "rcRing c' = rcRing c" "rcGroups c' = rcGroups c"
    "map_of (Owners c') = (map_of (Owners c))(shard \<mapsto> gid)"
    "Lookup c' key = (if RingAssign (rcRing c) key = Inr shard then Inr gid else Lookup c key)"
proof -
  have has: "map_of (Owners c) shard \<noteq> None" "map_of (rcGroups c) gid \<noteq> None"
    and c': "c' = \<lparr>rcNum = rcNum c + 1, rcRing = rcRing c, Owners = AList.update shard gid (Owners c), rcGroups = rcGroups c\<rparr>"
    using run by (auto simp: MoveRingShard_def split: if_splits)
  have "shard \<in> fst ` set (Owners c)" "gid \<in> fst ` set (rcGroups c)"
    using has by (auto simp: map_of_eq_None_iff)
  moreover from this have "snd ` set (AList.update shard gid (Owners c)) \<subseteq> fst ` set (rcGroups c)"
    using ok snd_update [of shard gid "Owners c"] unfolding ringcfg_ok_def by blast
  ultimately show "ringcfg_ok c'"
    using ok unfolding c' ringcfg_ok_def by (auto simp: distinct_update dom_update)
  show "rcNum c' = rcNum c + 1" "rcRing c' = rcRing c" "rcGroups c' = rcGroups c"
    "map_of (Owners c') = (map_of (Owners c))(shard \<mapsto> gid)"
    by (simp_all add: c' update_conv')
  have "ring_ok (rcRing c)" using ok by (simp add: ringcfg_ok_def)
  then show "Lookup c' key = (if RingAssign (rcRing c) key = Inr shard then Inr gid else Lookup c key)"
    by (simp add: c' Lookup_def RingAssign_def ringAssignPoint_slot update_conv' get0_def)
qed

end
