(* ===== verification/Ring_Ctrler.thy ===== *)
theory Ring_Ctrler
  imports Ctrler Ring
begin

text \<open>
  The controller of a ring (\<open>src/06-hot-shard-splitting/ring_ctrler.go\<close>): a replicated history of ring
  configurations with \<open>Init\<close>, \<open>Split\<close> and \<open>Move\<close> validated when they are applied, and a table that
  keeps per client the last sequence number and its verdict.
\<close>

section \<open>State\<close>

record ringOp =
  roType :: string
  roInitRing :: Ring
  roInitGroups :: goGroups
  roShard :: int
  roSplitPoint :: "32 word"
  roMoveGID :: int
  roClientID :: int
  roSeqNum :: int

record applyResult =
  raClientID :: int
  raSeqNum :: int
  raErr :: CtrlerErr

record dedupEntry =
  deSeq :: int
  deErr :: CtrlerErr

record RingQueryReply =
  rqErr :: CtrlerErr
  rqConfig :: RingConfig

record RingCtrler =
  rrf :: "(ringOp, unit) Raft"
  rConfigs :: "RingConfig list"
  rNotifyChans :: "int \<rightharpoonup> nat"
  rChans :: "nat \<rightharpoonup> applyResult"
  rNextChan :: nat
  rDuplicateTable :: "int \<rightharpoonup> dedupEntry"
  rNoopAppliedTerm :: int

definition NewRingCtrler :: "(ringOp, unit) Raft \<Rightarrow> RingCtrler" where
  "NewRingCtrler r = \<lparr>rrf = r, rConfigs = [zeroRingConfig], rNotifyChans = Map.empty, rChans = Map.empty,
     rNextChan = 0, rDuplicateTable = Map.empty, rNoopAppliedTerm = 0\<rparr>"

definition ringLatestLocked :: "RingCtrler \<Rightarrow> RingConfig res" where
  "ringLatestLocked c = index_at (rConfigs c) (int (length (rConfigs c)) - 1)"

section \<open>The state machine\<close>

definition ringNext :: "ringOp \<Rightarrow> RingConfig \<Rightarrow> RingConfig res" where
  "ringNext op cur =
     (if roType op = ''Init'' then NewRingConfig (roInitRing op) (roInitGroups op)
      else if roType op = ''Split'' then map_sum id fst (SplitConfig cur (roShard op) (roSplitPoint op))
      else MoveRingShard cur (roShard op) (roMoveGID op))"

definition ringApplyOp :: "ringOp \<Rightarrow> RingCtrler \<Rightarrow> (CtrlerErr \<times> RingCtrler) res" where
  "ringApplyOp op c =
     bind_res (ringLatestLocked c) (\<lambda>cur.
       if roType op = ''Noop'' then Inr (CtrlerOK, c)
       else if roType op \<in> {''Init'', ''Split'', ''Move''} then
         if roType op = ''Init'' \<and> rcNum cur \<noteq> 0 then Inr (CtrlerErrInvalidArgs, c)
         else (case ringNext op cur of
                 Inl _ \<Rightarrow> Inr (CtrlerErrInvalidArgs, c)
               | Inr nxt \<Rightarrow> Inr (CtrlerOK, c\<lparr>rConfigs := rConfigs c @ [nxt]\<rparr>))
       else Inl (Panic ''hotshard: ring ctrler got unknown op type''))"

definition lastVerdict :: "RingCtrler \<Rightarrow> int \<Rightarrow> dedupEntry" where
  "lastVerdict c client =
     (case rDuplicateTable c client of None \<Rightarrow> \<lparr>deSeq = 0, deErr = CtrlerOK\<rparr> | Some d \<Rightarrow> d)"

definition ringApply :: "ringOp \<Rightarrow> RingCtrler \<Rightarrow> (CtrlerErr \<times> RingCtrler) res" where
  "ringApply op c =
     (let d = lastVerdict c (roClientID op)
      in if roType op \<noteq> ''Noop'' \<and> roSeqNum op \<le> deSeq d then Inr (deErr d, c)
         else bind_res (ringApplyOp op c) (\<lambda>(err, c1).
                Inr (err, if roType op \<noteq> ''Noop''
                          then c1\<lparr>rDuplicateTable := (rDuplicateTable c1)(roClientID op \<mapsto> \<lparr>deSeq = roSeqNum op, deErr = err\<rparr>)\<rparr>
                          else c1)))"

definition ringNotify :: "int \<Rightarrow> applyResult \<Rightarrow> RingCtrler \<Rightarrow> RingCtrler" where
  "ringNotify index result c =
     (case rNotifyChans c index of
        None \<Rightarrow> c
      | Some ch \<Rightarrow> c\<lparr>rNotifyChans := (rNotifyChans c)(index := None), rChans := (rChans c)(ch \<mapsto> result)\<rparr>)"

definition ringApplyLoop_step :: "(ringOp, unit) ApplyMsg \<Rightarrow> RingCtrler \<Rightarrow> RingCtrler res" where
  "ringApplyLoop_step msg c =
     (case msg of
        SnapshotMsg _ _ _ \<Rightarrow> Inl (Panic ''hotshard: ring ctrler applyLoop got a non-ringOp command'')
      | CommandMsg index t op \<Rightarrow>
          bind_res (ringApply op (if roType op = ''Noop'' then c\<lparr>rNoopAppliedTerm := t\<rparr> else c)) (\<lambda>(err, c1).
            Inr (ringNotify index \<lparr>raClientID = roClientID op, raSeqNum = roSeqNum op, raErr = err\<rparr> c1)))"

definition emptyRingOp :: ringOp where
  "emptyRingOp = \<lparr>roType = '''', roInitRing = \<lparr>Entries = []\<rparr>, roInitGroups = [], roShard = 0, roSplitPoint = 0,
     roMoveGID = 0, roClientID = 0, roSeqNum = 0\<rparr>"

definition ringNoopLoop_tick :: "int \<Rightarrow> RingCtrler \<Rightarrow> int \<times> RingCtrler" where
  "ringNoopLoop_tick lastNoopTerm c =
     (if state (rrf c) \<noteq> Leader then (lastNoopTerm, c)
      else let t = currentTerm (rrf c)
           in if t = lastNoopTerm then (lastNoopTerm, c)
              else (case Propose (emptyRingOp\<lparr>roType := ''Noop''\<rparr>) (rrf c) of
                      ((_, _, isLeader), r) \<Rightarrow> (if isLeader then t else lastNoopTerm, c\<lparr>rrf := r\<rparr>)))"

section \<open>Handlers\<close>

record ringWait =
  rwOp :: ringOp
  rwIndex :: int
  rwTerm :: int
  rwChan :: nat

definition ringPropose :: "ringOp \<Rightarrow> RingCtrler \<Rightarrow> (int \<times> int) option \<times> RingCtrler" where
  "ringPropose op c =
     (case Propose op (rrf c) of
        ((index, t, isLeader), r) \<Rightarrow> (if isLeader then Some (index, t) else None, c\<lparr>rrf := r\<rparr>))"

definition ringRegister :: "ringOp \<Rightarrow> int \<Rightarrow> int \<Rightarrow> RingCtrler \<Rightarrow> ringWait \<times> RingCtrler" where
  "ringRegister op index t c =
     (\<lparr>rwOp = op, rwIndex = index, rwTerm = t, rwChan = rNextChan c\<rparr>,
      c\<lparr>rNotifyChans := (rNotifyChans c)(index \<mapsto> rNextChan c), rNextChan := rNextChan c + 1\<rparr>)"

definition ringAwait :: "ringWait \<Rightarrow> waitEvent \<Rightarrow> RingCtrler \<Rightarrow> CtrlerErr option" where
  "ringAwait w ev c =
     (case ev of
        WChanReady \<Rightarrow>
          (case rChans c (rwChan w) of
             None \<Rightarrow> None
           | Some applied \<Rightarrow>
               Some (if raClientID applied \<noteq> roClientID (rwOp w) \<or> raSeqNum applied \<noteq> roSeqNum (rwOp w)
                     then CtrlerErrWrongLeader else raErr applied))
      | WDeadline \<Rightarrow> Some CtrlerErrTimeout
      | WLeaderCheck \<Rightarrow>
          (if currentTerm (rrf c) \<noteq> rwTerm w \<or> state (rrf c) \<noteq> Leader
           then Some CtrlerErrWrongLeader else None))"

definition ringReturn :: "ringWait \<Rightarrow> RingCtrler \<Rightarrow> RingCtrler" where
  "ringReturn w c = c\<lparr>rNotifyChans := (rNotifyChans c)(rwIndex w := None)\<rparr>"

definition initRingOp :: "Ring \<Rightarrow> goGroups \<Rightarrow> int \<Rightarrow> int \<Rightarrow> ringOp" where
  "initRingOp ring groups clid sn =
     emptyRingOp\<lparr>roType := ''Init'', roInitRing := ring, roInitGroups := groups, roClientID := clid, roSeqNum := sn\<rparr>"

definition splitRingOp :: "int \<Rightarrow> 32 word \<Rightarrow> int \<Rightarrow> int \<Rightarrow> ringOp" where
  "splitRingOp shard point clid sn =
     emptyRingOp\<lparr>roType := ''Split'', roShard := shard, roSplitPoint := point, roClientID := clid, roSeqNum := sn\<rparr>"

definition moveRingOp :: "int \<Rightarrow> int \<Rightarrow> int \<Rightarrow> int \<Rightarrow> ringOp" where
  "moveRingOp shard g clid sn =
     emptyRingOp\<lparr>roType := ''Move'', roShard := shard, roMoveGID := g, roClientID := clid, roSeqNum := sn\<rparr>"

definition ringQuery :: "int \<Rightarrow> RingCtrler \<Rightarrow> RingQueryReply res" where
  "ringQuery num c =
     (if state (rrf c) \<noteq> Leader then Inr \<lparr>rqErr = CtrlerErrWrongLeader, rqConfig = zeroRingConfig\<rparr>
      else let t = currentTerm (rrf c)
           in if rNoopAppliedTerm c \<noteq> t then Inr \<lparr>rqErr = CtrlerErrWrongLeader, rqConfig = zeroRingConfig\<rparr>
              else let idx = (if num < 0 \<or> num \<ge> int (length (rConfigs c))
                              then int (length (rConfigs c)) - 1 else num)
                   in bind_res (index_at (rConfigs c) idx) (\<lambda>cfg. Inr \<lparr>rqErr = CtrlerOK, rqConfig = cfg\<rparr>))"

section \<open>The history of configurations\<close>

definition ringStep :: "ringOp \<Rightarrow> RingCtrler \<Rightarrow> RingCtrler res" where
  "ringStep op c = map_sum id snd (ringApply op c)"

text \<open>
  One version follows another by a split, which changes no key's group, or by a move, which changes
  the group of exactly the keys of one shard.
\<close>

definition evolves :: "RingConfig \<Rightarrow> RingConfig \<Rightarrow> bool" where
  "evolves c c' \<longleftrightarrow> rcGroups c' = rcGroups c \<and>
     (length (Entries (rcRing c')) = length (Entries (rcRing c)) + 1 \<and> (\<forall>key. Lookup c' key = Lookup c key) \<or>
      rcRing c' = rcRing c \<and>
        (\<exists>shard g. \<forall>key. Lookup c' key = (if RingAssign (rcRing c) key = Inr shard then Inr g else Lookup c key)))"

definition ring_history :: "RingConfig list \<Rightarrow> bool" where
  "ring_history cs \<longleftrightarrow> cs \<noteq> [] \<and> hd cs = zeroRingConfig \<and>
     (\<forall>i < length cs. rcNum (cs ! i) = int i \<and> (0 < i \<longrightarrow> ringcfg_ok (cs ! i)) \<and>
        (0 < i \<and> i + 1 < length cs \<longrightarrow> evolves (cs ! i) (cs ! (i + 1))))"

lemma ring_history_snoc:
  assumes "ring_history cs" "rcNum new = int (length cs)" "ringcfg_ok new" "length cs = 1 \<or> evolves (last cs) new"
  shows "ring_history (cs @ [new])"
proof -
  have ne: "cs \<noteq> []" using assms(1) by (simp add: ring_history_def)
  have last: "last cs = cs ! (length cs - 1)" using ne by (rule last_conv_nth)
  have "rcNum ((cs @ [new]) ! i) = int i \<and> (0 < i \<longrightarrow> ringcfg_ok ((cs @ [new]) ! i)) \<and>
        (0 < i \<and> i + 1 < length (cs @ [new]) \<longrightarrow> evolves ((cs @ [new]) ! i) ((cs @ [new]) ! (i + 1)))"
    if "i < length (cs @ [new])" for i
  proof (cases "i < length cs")
    case True
    then have "i + 1 < length cs \<or> i = length cs - 1" by auto
    then show ?thesis using True assms(1,4) last unfolding ring_history_def by (auto simp: nth_append)
  next
    case False
    then have "i = length cs" using that by simp
    then show ?thesis using assms(2,3) by simp
  qed
  then show ?thesis using ne assms(1) by (simp add: ring_history_def)
qed

lemma zero_no_owner: "SplitConfig zeroRingConfig s p \<noteq> Inr x" "MoveRingShard zeroRingConfig s g \<noteq> Inr y"
  by (simp_all add: SplitConfig_def MoveRingShard_def zeroRingConfig_def)

lemma ringNext_extends:
  assumes hist: "ring_history cs" and op: "roType op \<in> {''Init'', ''Split'', ''Move''}"
    and init: "\<not> (roType op = ''Init'' \<and> rcNum (last cs) \<noteq> 0)" and nxt: "ringNext op (last cs) = Inr new"
  shows "ring_history (cs @ [new])"
proof -
  have ne: "cs \<noteq> []" "hd cs = zeroRingConfig" using hist by (simp_all add: ring_history_def)
  have num: "rcNum (last cs) = int (length cs) - 1"
    using hist ne by (simp add: ring_history_def last_conv_nth of_nat_diff Suc_leI)
  have one: "length cs = 1 \<Longrightarrow> last cs = zeroRingConfig" using ne by (cases cs) auto
  have ok: "length cs \<noteq> 1 \<Longrightarrow> ringcfg_ok (last cs)"
    using hist ne by (cases cs) (auto simp: ring_history_def last_conv_nth)
  show ?thesis
  proof (cases "roType op = ''Init''")
    case True
    then have "length cs = 1" using init num ne by (cases cs) auto
    then show ?thesis using True nxt NewRingConfig_ok [of "roInitRing op" "roInitGroups op" new] hist
      by (intro ring_history_snoc) (auto simp: ringNext_def)
  next
    case False
    show ?thesis
    proof (cases "roType op = ''Split''")
      case True
      then obtain newID where s: "SplitConfig (last cs) (roShard op) (roSplitPoint op) = Inr (new, newID)"
        using nxt False by (auto simp: ringNext_def)
      then have "length cs \<noteq> 1" using one zero_no_owner by metis
      note eff = SplitConfig_ok [OF ok [OF this] s]
      have rok: "ring_ok (rcRing (last cs))" using ok [OF \<open>length cs \<noteq> 1\<close>] by (simp add: ringcfg_ok_def)
      have "length (Entries (rcRing new)) = length (Entries (rcRing (last cs))) + 1"
        using Split_effect(3) [OF rok eff(5)] by (metis size_mset size_union size_single)
      then have "evolves (last cs) new" using eff(3,4) by (simp add: evolves_def)
      then show ?thesis using eff(1,2) num by (intro ring_history_snoc [OF hist]) auto
    next
      case F: False
      then have m: "MoveRingShard (last cs) (roShard op) (roMoveGID op) = Inr new"
        using nxt False by (simp add: ringNext_def)
      then have "length cs \<noteq> 1" using one zero_no_owner by metis
      note eff = MoveRingShard_ok [OF ok [OF this] m]
      have "evolves (last cs) new" using eff(3,4,6) unfolding evolves_def by blast
      then show ?thesis using eff(1,2) num by (intro ring_history_snoc [OF hist]) auto
    qed
  qed
qed

lemma ringStep_history:
  assumes hist: "ring_history (rConfigs c)" and step: "ringStep op c = Inr c'"
  shows "ring_history (rConfigs c') \<and> (\<exists>more. rConfigs c' = rConfigs c @ more)"
proof -
  have ne: "rConfigs c \<noteq> []" using hist by (simp add: ring_history_def)
  moreover have "nat (int (length (rConfigs c)) - 1) = length (rConfigs c) - 1" by arith
  ultimately have latest: "ringLatestLocked c = Inr (last (rConfigs c))"
    by (simp add: ringLatestLocked_def index_at_def last_conv_nth)
  from step obtain err where app: "ringApply op c = Inr (err, c')" by (auto simp: ringStep_def)
  show ?thesis
  proof (cases "rConfigs c' = rConfigs c")
    case False
    then have "roType op \<in> {''Init'', ''Split'', ''Move''}"
      "\<not> (roType op = ''Init'' \<and> rcNum (last (rConfigs c)) \<noteq> 0)"
      "\<exists>new. ringNext op (last (rConfigs c)) = Inr new \<and> rConfigs c' = rConfigs c @ [new]"
      using app latest by (auto simp: ringApply_def ringApplyOp_def Let_def split: if_splits sum.splits)
    then obtain new where "ring_history (rConfigs c @ [new])" "rConfigs c' = rConfigs c @ [new]"
      using ringNext_extends [OF hist, of op] by blast
    then show ?thesis by simp
  qed (use hist in simp)
qed

text \<open>
  The controller's history: whatever log it applies, it only appends; version \<open>i\<close> carries the number
  \<open>i\<close>; every version after the empty one has a valid ring whose shards are exactly the ones with an
  owner, all owners being known groups; and from one version to the next either a shard was split and
  no key changed its group, or the keys of one shard went to one group and no other key moved.
\<close>

theorem ring_ctrler_history:
  assumes "ring_history (rConfigs c)" "run_log ringStep ops c = Inr c'"
  shows "ring_history (rConfigs c') \<and> (\<exists>more. rConfigs c' = rConfigs c @ more)"
  using assms
proof (induction ops arbitrary: c)
  case (Cons op ops)
  then obtain c1 where c1: "ringStep op c = Inr c1" "run_log ringStep ops c1 = Inr c'" by auto
  from ringStep_history [OF Cons.prems(1) c1(1)] Cons.IH [OF _ c1(2)] show ?case by auto
qed simp

definition exRingCtrler :: RingCtrler where
  "exRingCtrler = NewRingCtrler (NewRaft 1 [2, 3])"

definition exRingGroups :: goGroups where
  "exRingGroups = [(1, [''a:1'']), (2, [''b:1''])]"

lemma exRing_start: "ring_history (rConfigs exRingCtrler)"
  by (simp add: exRingCtrler_def NewRingCtrler_def ring_history_def zeroRingConfig_def)

definition exInit :: ringOp where
  "exInit = initRingOp exRing exRingGroups 5 1"

definition exRingConfig :: RingConfig where
  "exRingConfig = \<lparr>rcNum = 1, rcRing = exRing, Owners = [(1, 1), (2, 2)], rcGroups = exRingGroups\<rparr>"

lemma exInit_config: "NewRingConfig exRing exRingGroups = Inr exRingConfig"
proof -
  have "dealOwners [1, 2] (Entries exRing) = [(1, 1), (2, 2)]" by (simp add: dealOwners_def exRing_def)
  moreover have "sortedGids exRingGroups = [1, 2]" by (simp add: sortedGids_def exRingGroups_def)
  moreover have "ringConfigValidate exRingConfig = None"
    using exRing_ok(1) by (simp add: ringConfigValidate_def exRingConfig_def exRingGroups_def exRing_def)
  ultimately show ?thesis by (simp add: NewRingConfig_def exRingConfig_def)
qed

definition exRunning :: RingCtrler where
  "exRunning = exRingCtrler\<lparr>rConfigs := [zeroRingConfig, exRingConfig],
     rDuplicateTable := [5 \<mapsto> \<lparr>deSeq = 1, deErr = CtrlerOK\<rparr>]\<rparr>"

lemma exInit_step: "ringStep exInit exRingCtrler = Inr exRunning"
  using exInit_config
  by (simp add: ringStep_def ringApply_def ringApplyOp_def exInit_def initRingOp_def emptyRingOp_def exRingCtrler_def
      NewRingCtrler_def lastVerdict_def ringLatestLocked_def index_at_def zeroRingConfig_def ringNext_def exRunning_def)

lemma exMove_step:
  "ringApply (moveRingOp 1 2 5 sn) exRunning =
     (if sn \<le> 1 then Inr (CtrlerOK, exRunning)
      else Inr (CtrlerOK, exRunning\<lparr>rConfigs := [zeroRingConfig, exRingConfig,
             exRingConfig\<lparr>rcNum := 2, Owners := [(1, 2), (2, 2)]\<rparr>],
             rDuplicateTable := [5 \<mapsto> \<lparr>deSeq = sn, deErr = CtrlerOK\<rparr>]\<rparr>))"
  by (simp add: ringApply_def ringApplyOp_def moveRingOp_def emptyRingOp_def exRunning_def lastVerdict_def
      ringLatestLocked_def index_at_def ringNext_def MoveRingShard_def exRingConfig_def exRingGroups_def exRingCtrler_def)

theorem ring_ctrler_history_witness:
  "\<exists>c'. run_log ringStep [exInit, moveRingOp 1 2 5 2] exRingCtrler = Inr c' \<and> length (rConfigs c') = 3 \<and>
     ring_history (rConfigs c')"
proof -
  obtain c' where run: "run_log ringStep [exInit, moveRingOp 1 2 5 2] exRingCtrler = Inr c'" "length (rConfigs c') = 3"
    using exInit_step exMove_step [of 2] by (auto simp: ringStep_def)
  with ring_ctrler_history [OF exRing_start run(1)] show ?thesis by blast
qed

section \<open>Retries\<close>

lemma ringApplyOp_table: "ringApplyOp op c = Inr (err, c1) \<Longrightarrow> rDuplicateTable c1 = rDuplicateTable c"
  by (auto simp: ringApplyOp_def split: if_splits sum.splits)

lemma ringApply_verdict:
  assumes "ringApply op c = Inr (err, c')" "roType op' \<noteq> ''Noop''"
    and "roClientID op \<noteq> roClientID op' \<or> roType op = ''Noop''"
  shows "lastVerdict c' (roClientID op') = lastVerdict c (roClientID op')"
proof (cases "roType op \<noteq> ''Noop'' \<and> roSeqNum op \<le> deSeq (lastVerdict c (roClientID op))")
  case True
  then show ?thesis using assms(1) by (simp add: ringApply_def)
next
  case False
  then obtain c1 where c1: "ringApplyOp op c = Inr (err, c1)"
    and c': "c' = (if roType op \<noteq> ''Noop''
        then c1\<lparr>rDuplicateTable := (rDuplicateTable c1)(roClientID op \<mapsto> \<lparr>deSeq = roSeqNum op, deErr = err\<rparr>)\<rparr> else c1)"
    using assms(1) unfolding ringApply_def Let_def if_not_P [OF False] by auto
  show ?thesis using assms(3) ringApplyOp_table [OF c1] by (simp add: c' lastVerdict_def)
qed

lemma ringRun_verdict:
  assumes "run_log ringStep ops c = Inr c'" "roType op' \<noteq> ''Noop''"
    and "\<forall>op \<in> set ops. roClientID op \<noteq> roClientID op' \<or> roType op = ''Noop''"
  shows "lastVerdict c' (roClientID op') = lastVerdict c (roClientID op')"
  using assms
proof (induction ops arbitrary: c)
  case (Cons op ops)
  then obtain c1 where c1: "ringStep op c = Inr c1" "run_log ringStep ops c1 = Inr c'" by auto
  then obtain err where "ringApply op c = Inr (err, c1)" by (auto simp: ringStep_def)
  from ringApply_verdict [OF this Cons.prems(2)] Cons.IH [OF c1(2)] Cons.prems show ?case by auto
qed simp

text \<open>
  A retry gets the same verdict: after a request was applied, and as long as its client issues no
  other one, a repetition of it anywhere later in the log changes nothing and reports the same
  outcome, also when that outcome was a rejection.
\<close>

theorem ring_retry_same_verdict:
  assumes "ringApply op c = Inr (err, c1)" "roType op \<noteq> ''Noop''" "deSeq (lastVerdict c (roClientID op)) < roSeqNum op"
    and "run_log ringStep ops c1 = Inr c2" "\<forall>x \<in> set ops. roClientID x \<noteq> roClientID op \<or> roType x = ''Noop''"
  shows "ringApply op c2 = Inr (err, c2)"
proof -
  have "lastVerdict c1 (roClientID op) = \<lparr>deSeq = roSeqNum op, deErr = err\<rparr>"
    using assms(1-3) by (auto simp: ringApply_def lastVerdict_def Let_def split: if_splits)
  then have "lastVerdict c2 (roClientID op) = \<lparr>deSeq = roSeqNum op, deErr = err\<rparr>"
    using ringRun_verdict [OF assms(4,2,5)] by simp
  then show ?thesis using assms(2) by (simp add: ringApply_def)
qed

theorem ring_retry_same_verdict_witness: "ringApply exInit exRunning = Inr (CtrlerOK, exRunning)"
proof -
  have "ringApply exInit exRingCtrler = Inr (CtrlerOK, exRunning)"
    using exInit_config
    by (simp add: ringApply_def ringApplyOp_def exInit_def initRingOp_def emptyRingOp_def exRingCtrler_def
      NewRingCtrler_def lastVerdict_def ringLatestLocked_def index_at_def zeroRingConfig_def ringNext_def exRunning_def)
  then show ?thesis
    by (rule ring_retry_same_verdict [where ops = "[]"])
       (simp_all add: exInit_def initRingOp_def emptyRingOp_def exRingCtrler_def NewRingCtrler_def lastVerdict_def)
qed


end
