(* ===== verification/Auto_Split.thy ===== *)
theory Auto_Split
  imports Complex_Main Ring_Ctrler "HOL-Library.Product_Lexorder"
begin

text \<open>
  Load tracking, detection and the automatic splitter (\<open>src/06-hot-shard-splitting/load.go\<close>, \<open>detect.go\<close>,
  \<open>ring_clerk.go\<close>, \<open>autosplit.go\<close>). A map from shards to counts is an association list. The mean and the
  threshold of \<open>DetectHot\<close> are \<open>float64\<close> in the code: every IEEE operation is the exact rational result
  rounded, so the rounding is the parameter \<open>rnd\<close> and the values are rationals. The deadline of
  \<open>retry\<close> is the number of rounds made before it. The interface \<open>RingAPI\<close> is a record of functions on
  a world \<open>'w\<close>, its contract the locale \<open>ring_api\<close>.
\<close>

section \<open>Load\<close>

type_synonym loadMap = "(int \<times> int) list"

record LoadTracker =
  ltCounts :: loadMap

definition NewLoadTracker :: LoadTracker where
  "NewLoadTracker = \<lparr>ltCounts = []\<rparr>"

definition addLoad :: "int \<Rightarrow> int \<Rightarrow> loadMap \<Rightarrow> loadMap" where
  "addLoad s n m = AList.update s (get0 (map_of m) s + n) m"

definition Record :: "int \<Rightarrow> LoadTracker \<Rightarrow> LoadTracker" where
  "Record shard lt = lt\<lparr>ltCounts := addLoad shard 1 (ltCounts lt)\<rparr>"

definition loadSnapshot :: "LoadTracker \<Rightarrow> loadMap \<times> LoadTracker" where
  "loadSnapshot lt = (ltCounts lt, lt\<lparr>ltCounts := []\<rparr>)"

definition MergeLoads :: "loadMap list \<Rightarrow> loadMap" where
  "MergeLoads reports = fold (\<lambda>r acc. fold (\<lambda>(s, n) t. addLoad s n t) r acc) reports []"

lemma get0_addLoad [simp]: "get0 (map_of (addLoad s n m)) k = (if k = s then get0 (map_of m) s + n else get0 (map_of m) k)"
  by (simp add: addLoad_def update_conv' get0_def)

lemma distinct_addLoad: "distinct (map fst m) \<Longrightarrow> distinct (map fst (addLoad s n m))"
  by (simp add: addLoad_def distinct_update)

lemma get0_map_of_sum: "distinct (map fst r) \<Longrightarrow> get0 (map_of r) k = sum_list (map (\<lambda>(s, n). if s = k then n else 0) r)"
proof (induction r)
  case (Cons x r)
  have "sum_list (map (\<lambda>(s, n). if s = fst x then n else 0) r) = 0"
    using Cons.prems by (induction r) (auto split: prod.splits)
  with Cons show ?case by (cases x) (auto simp: get0_def)
qed (simp add: get0_def)

lemma get0_foldLoads:
  "get0 (map_of (fold (\<lambda>(s, n) t. addLoad s n t) r acc)) k =
     get0 (map_of acc) k + sum_list (map (\<lambda>(s, n). if s = k then n else 0) r)"
  by (induction r arbitrary: acc) (auto split: prod.splits)

lemma get0_MergeLoads:
  assumes "\<forall>r \<in> set reports. distinct (map fst r)"
  shows "get0 (map_of (MergeLoads reports)) k = (\<Sum>r \<leftarrow> reports. get0 (map_of r) k)"
proof -
  have "get0 (map_of (fold (\<lambda>r acc. fold (\<lambda>(s, n) t. addLoad s n t) r acc) reports acc)) k =
      get0 (map_of acc) k + (\<Sum>r \<leftarrow> reports. get0 (map_of r) k)" for acc
    using assms by (induction reports arbitrary: acc) (simp_all add: get0_foldLoads get0_map_of_sum)
  from this [of "[]"] show ?thesis by (simp add: MergeLoads_def)
qed

text \<open>The trackers of several groups, with the requests they serve and the polls of the splitter.\<close>

datatype loadEvent = Served nat int | Polled

fun loadRun :: "loadEvent list \<Rightarrow> LoadTracker list \<Rightarrow> loadMap list \<times> LoadTracker list" where
  "loadRun [] lts = ([], lts)"
| "loadRun (Served g s # evs) lts = loadRun evs (if g < length lts then lts[g := Record s (lts ! g)] else lts)"
| "loadRun (Polled # evs) lts =
     (case loadRun evs (map (snd \<circ> loadSnapshot) lts) of
        (windows, lts') \<Rightarrow> (MergeLoads (map (fst \<circ> loadSnapshot) lts) # windows, lts'))"

definition requestsFor :: "int \<Rightarrow> nat \<Rightarrow> loadEvent list \<Rightarrow> int" where
  "requestsFor k n evs = int (length (filter (\<lambda>ev. case ev of Served g s \<Rightarrow> g < n \<and> s = k | Polled \<Rightarrow> False) evs))"

definition pendingLoad :: "int \<Rightarrow> LoadTracker list \<Rightarrow> int" where
  "pendingLoad k lts = (\<Sum>lt \<leftarrow> lts. get0 (map_of (ltCounts lt)) k)"

lemma pendingLoad_Record:
  "g < length lts \<Longrightarrow> pendingLoad k (lts[g := Record s (lts ! g)]) = pendingLoad k lts + (if s = k then 1 else 0)"
proof (induction lts arbitrary: g)
  case (Cons lt lts)
  then show ?case by (cases g) (auto simp: pendingLoad_def Record_def)
qed simp

text \<open>
  No request is lost or counted twice: over any sequence of served requests and polls, the loads of a
  shard reported by all polls, plus what the trackers still hold, add up to the requests served for it.
\<close>

theorem load_conserved:
  assumes "loadRun evs lts = (windows, lts')" "\<forall>lt \<in> set lts. distinct (map fst (ltCounts lt))"
  shows "(\<Sum>w \<leftarrow> windows. get0 (map_of w) k) + pendingLoad k lts' = pendingLoad k lts + requestsFor k (length lts) evs"
  using assms
proof (induction evs lts arbitrary: windows rule: loadRun.induct)
  case (1 lts)
  then show ?case by (auto simp: requestsFor_def)
next
  case (2 g s evs lts)
  let ?lts = "if g < length lts then lts[g := Record s (lts ! g)] else lts"
  have dist: "\<forall>lt \<in> set ?lts. distinct (map fst (ltCounts lt))"
  proof
    fix lt
    assume "lt \<in> set ?lts"
    then have "lt \<in> set lts \<or> g < length lts \<and> lt = Record s (lts ! g)" using set_update_subset_insert by (force split: if_splits)
    then show "distinct (map fst (ltCounts lt))" using "2.prems"(2) by (auto simp: Record_def distinct_addLoad)
  qed
  have run: "loadRun evs ?lts = (windows, lts')" using "2.prems"(1) by simp
  have len: "length ?lts = length lts" by simp
  have "pendingLoad k ?lts = pendingLoad k lts + (if g < length lts \<and> s = k then 1 else 0)"
    using pendingLoad_Record [of g lts k s] by auto
  moreover have "requestsFor k (length lts) (Served g s # evs) =
      requestsFor k (length lts) evs + (if g < length lts \<and> s = k then 1 else 0)" by (simp add: requestsFor_def)
  ultimately show ?case using "2.IH" [OF run dist] unfolding len by simp
next
  case (3 evs lts)
  let ?lts = "map (snd \<circ> loadSnapshot) lts"
  from "3.prems"(1) obtain ws where run: "loadRun evs ?lts = (ws, lts')"
    and ws: "windows = MergeLoads (map (fst \<circ> loadSnapshot) lts) # ws" by (auto split: prod.splits)
  have "\<forall>lt \<in> set ?lts. distinct (map fst (ltCounts lt))" by (auto simp: loadSnapshot_def)
  from "3.IH" [OF run this] have "(\<Sum>w \<leftarrow> ws. get0 (map_of w) k) + pendingLoad k lts' = requestsFor k (length lts) evs"
    by (simp add: pendingLoad_def loadSnapshot_def comp_def)
  moreover have "get0 (map_of (MergeLoads (map (fst \<circ> loadSnapshot) lts))) k = pendingLoad k lts"
    using "3.prems"(2) by (subst get0_MergeLoads) (auto simp: loadSnapshot_def pendingLoad_def comp_def)
  ultimately show ?case by (simp add: ws requestsFor_def)
qed

theorem load_conserved_witness:
  "\<exists>w lts'. loadRun [Served 0 7, Served 1 7, Served 0 3, Polled] [NewLoadTracker, NewLoadTracker] = ([w], lts') \<and>
     get0 (map_of w) 7 = 2"
proof -
  obtain w lts' where run: "loadRun [Served 0 7, Served 1 7, Served 0 3, Polled] [NewLoadTracker, NewLoadTracker] = ([w], lts')"
      "pendingLoad 7 lts' = 0"
    by (simp add: loadSnapshot_def pendingLoad_def)
  have "(\<Sum>w \<leftarrow> [w]. get0 (map_of w) 7) + pendingLoad 7 lts' = pendingLoad 7 [NewLoadTracker, NewLoadTracker] +
      requestsFor 7 (length [NewLoadTracker, NewLoadTracker]) [Served 0 7, Served 1 7, Served 0 3, Polled]"
    by (rule load_conserved [OF run(1)]) (simp add: NewLoadTracker_def)
  then show ?thesis using run by (simp add: pendingLoad_def NewLoadTracker_def requestsFor_def)
qed

section \<open>Detection\<close>

record HotPolicy =
  Factor :: rat
  MinLoad :: int

definition hotThreshold :: "(rat \<Rightarrow> rat) \<Rightarrow> int \<Rightarrow> nat \<Rightarrow> HotPolicy \<Rightarrow> rat" where
  "hotThreshold rnd tot n policy =
     (let mean = rnd (rnd (of_int tot) / rnd (of_nat n)) in rnd (Factor policy * mean))"

definition DetectHot :: "(rat \<Rightarrow> rat) \<Rightarrow> loadMap \<Rightarrow> int list \<Rightarrow> HotPolicy \<Rightarrow> int list" where
  "DetectHot rnd loads shards policy =
     (if shards = [] then []
      else let load = (\<lambda>s. get0 (map_of loads) s);
               tot = fold (\<lambda>s t. t + load s) shards 0;
               threshold = hotThreshold rnd tot (length shards) policy;
               hot = filter (\<lambda>s. load s \<ge> MinLoad policy \<and> rnd (of_int (load s)) > threshold \<and> load s > 0) shards
           in sort_key (\<lambda>s. (- load s, s)) hot)"

lemma fold_plus: "fold (\<lambda>s t. t + f s) xs (a :: int) = a + (\<Sum>x \<leftarrow> xs. f x)"
  by (induction xs arbitrary: a) simp_all

lemma set_DetectHot:
  "set (DetectHot rnd loads shards policy) =
     {s \<in> set shards. get0 (map_of loads) s \<ge> MinLoad policy \<and> get0 (map_of loads) s > 0 \<and>
        rnd (of_int (get0 (map_of loads) s)) >
          hotThreshold rnd (\<Sum>s \<leftarrow> shards. get0 (map_of loads) s) (length shards) policy}"
  by (auto simp: DetectHot_def Let_def fold_plus)

lemma DetectHot_hottest_first:
  "sorted_wrt (\<lambda>s t. get0 (map_of loads) t < get0 (map_of loads) s \<or> get0 (map_of loads) t = get0 (map_of loads) s \<and> s \<le> t)
     (DetectHot rnd loads shards policy)"
proof -
  have "sorted (map (\<lambda>s. (- get0 (map_of loads) s, s)) (DetectHot rnd loads shards policy))"
    by (simp add: DetectHot_def Let_def)
  then show ?thesis by (simp add: sorted_wrt_map) (erule sorted_wrt_mono_rel [rotated], auto)
qed

lemma sum_list_strict_mono:
  fixes f g :: "'a \<Rightarrow> rat"
  assumes "xs \<noteq> []" "\<And>x. x \<in> set xs \<Longrightarrow> f x < g x"
  shows "(\<Sum>x \<leftarrow> xs. f x) < (\<Sum>x \<leftarrow> xs. g x)"
  using assms
proof (induction xs)
  case (Cons x xs)
  then show ?case by (cases "xs = []") (simp_all add: add_strict_mono)
qed simp

lemma of_int_sum_list: "of_int (\<Sum>x \<leftarrow> xs. f x) = (\<Sum>x \<leftarrow> xs. of_int (f x) :: rat)"
  by (induction xs) simp_all

text \<open>
  Detection, for any rounding that is monotone, idempotent and exact on the counts at hand: the
  result lists shards of the ring, hottest first with ties by id; a shard at least as loaded as a hot
  one is hot; and with a factor of at least one some shard is always cool, so a uniformly loaded ring is
  never split, however busy it is.
\<close>

theorem DetectHot_sound:
  assumes mono: "\<And>x y. x \<le> y \<Longrightarrow> rnd x \<le> rnd y" and idem: "\<And>x. rnd (rnd x) = rnd x"
    and exact: "rnd (of_int (\<Sum>s \<leftarrow> shards. get0 (map_of loads) s)) = of_int (\<Sum>s \<leftarrow> shards. get0 (map_of loads) s)"
      "rnd (of_nat (length shards)) = of_nat (length shards)"
    and "shards \<noteq> []" "1 \<le> Factor policy" "\<forall>s \<in> set shards. 0 \<le> get0 (map_of loads) s" "rnd 0 = 0"
  shows "set (DetectHot rnd loads shards policy) \<subset> set shards \<and>
     sorted_wrt (\<lambda>s t. get0 (map_of loads) t < get0 (map_of loads) s \<or> get0 (map_of loads) t = get0 (map_of loads) s \<and> s \<le> t)
       (DetectHot rnd loads shards policy) \<and>
     (\<forall>s \<in> set (DetectHot rnd loads shards policy). \<forall>t \<in> set shards.
        get0 (map_of loads) s \<le> get0 (map_of loads) t \<longrightarrow> t \<in> set (DetectHot rnd loads shards policy))"
proof (intro conjI)
  let ?load = "\<lambda>s. get0 (map_of loads) s" and ?n = "of_nat (length shards) :: rat"
  let ?tot = "\<Sum>s \<leftarrow> shards. ?load s" and ?T = "hotThreshold rnd (\<Sum>s \<leftarrow> shards. get0 (map_of loads) s) (length shards) policy"
  let ?mean = "of_int ?tot / ?n :: rat"
  show "sorted_wrt (\<lambda>s t. ?load t < ?load s \<or> ?load t = ?load s \<and> s \<le> t) (DetectHot rnd loads shards policy)"
    by (rule DetectHot_hottest_first)
  show "\<forall>s \<in> set (DetectHot rnd loads shards policy). \<forall>t \<in> set shards. ?load s \<le> ?load t \<longrightarrow>
      t \<in> set (DetectHot rnd loads shards policy)"
    unfolding set_DetectHot using mono by (fastforce intro: less_le_trans)
  have "0 \<le> ?tot" using assms(7) by (intro sum_list_nonneg) auto
  then have m0: "0 \<le> ?mean" by simp
  then have r0: "0 \<le> rnd ?mean" using mono [OF m0] assms(8) by simp
  have "rnd ?mean \<le> Factor policy * rnd ?mean" using mult_right_mono [OF assms(6) r0] by simp
  then have T: "rnd ?mean \<le> ?T"
    using mono [of "rnd ?mean" "Factor policy * rnd ?mean"] idem exact by (simp add: hotThreshold_def Let_def)
  have "\<exists>s \<in> set shards. s \<notin> set (DetectHot rnd loads shards policy)"
  proof (rule ccontr)
    assume "\<not> ?thesis"
    then have "?T < rnd (of_int (?load s))" if "s \<in> set shards" for s using that unfolding set_DetectHot by auto
    then have lt: "?mean < of_int (?load s)" if "s \<in> set shards" for s
      using T mono [of "of_int (?load s)" ?mean] that by (meson le_less_trans not_le order_trans)
    have "(\<Sum>s \<leftarrow> shards. ?mean) < (\<Sum>s \<leftarrow> shards. of_int (?load s))"
      by (rule sum_list_strict_mono [OF assms(5)]) (rule lt)
    moreover have "(\<Sum>s \<leftarrow> shards. ?mean) = of_int ?tot" using assms(5) by (simp add: sum_list_triv)
    ultimately show False by (simp add: of_int_sum_list)
  qed
  then show "set (DetectHot rnd loads shards policy) \<subset> set shards" by (auto simp: set_DetectHot)
qed

theorem DetectHot_sound_witness:
  "set (DetectHot (\<lambda>x. x) [(1, 90), (2, 10)] [1, 2] \<lparr>Factor = 3 / 2, MinLoad = 5\<rparr>) \<subset> {1, 2} \<and>
   1 \<in> set (DetectHot (\<lambda>x. x) [(1, 90), (2, 10)] [1, 2] \<lparr>Factor = 3 / 2, MinLoad = 5\<rparr>)"
proof -
  have "set (DetectHot (\<lambda>x. x) [(1, 90), (2, 10)] [1, 2] \<lparr>Factor = 3 / 2, MinLoad = 5\<rparr>) \<subset> set [1, 2]"
    by (rule DetectHot_sound [where rnd = "\<lambda>x. x", THEN conjunct1]) (simp_all add: get0_def)
  moreover have "1 \<in> set (DetectHot (\<lambda>x. x) [(1, 90), (2, 10)] [1, 2] \<lparr>Factor = 3 / 2, MinLoad = 5\<rparr>)"
    by (simp add: set_DetectHot get0_def hotThreshold_def)
  ultimately show ?thesis by simp
qed

section \<open>The interface of the controller\<close>

record 'w RingAPI =
  apiQuery :: "'w \<Rightarrow> RingConfig res \<times> 'w"
  apiSplit :: "int \<Rightarrow> 32 word \<Rightarrow> 'w \<Rightarrow> unit res \<times> 'w"
  apiMove :: "int \<Rightarrow> int \<Rightarrow> 'w \<Rightarrow> unit res \<times> 'w"

text \<open>
  \<open>RingClerk\<close>: the replicas are numbered, and a call on one of them answers with a verdict. \<open>retry\<close> makes
  \<open>rounds\<close> rounds over the replicas before its deadline passes.
\<close>

record RingClerk =
  rkServers :: nat
  rkClientID :: int
  rkSeq :: int

definition NewRingClerk :: "nat \<Rightarrow> int \<Rightarrow> RingClerk" where
  "NewRingClerk n clid = \<lparr>rkServers = n, rkClientID = clid, rkSeq = 0\<rparr>"

definition nextSeq :: "RingClerk \<Rightarrow> int \<times> RingClerk" where
  "nextSeq ck = (rkSeq ck + 1, ck\<lparr>rkSeq := rkSeq ck + 1\<rparr>)"

fun retryRound :: "(nat \<Rightarrow> 'w \<Rightarrow> CtrlerErr \<times> 'w) \<Rightarrow> nat list \<Rightarrow> 'w \<Rightarrow> unit res option \<times> 'w" where
  "retryRound call [] w = (None, w)"
| "retryRound call (i # is) w =
     (case call i w of
        (CtrlerOK, w1) \<Rightarrow> (Some (Inr ()), w1)
      | (CtrlerErrWrongLeader, w1) \<Rightarrow> retryRound call is w1
      | (CtrlerErrTimeout, w1) \<Rightarrow> retryRound call is w1
      | (CtrlerErrInvalidArgs, w1) \<Rightarrow> (Some (Inl (Error ''hotshard: controller rejected request'')), w1))"

fun retry :: "nat \<Rightarrow> (nat \<Rightarrow> 'w \<Rightarrow> CtrlerErr \<times> 'w) \<Rightarrow> RingClerk \<Rightarrow> 'w \<Rightarrow> unit res \<times> 'w" where
  "retry 0 call ck w = (Inl (Error ''hotshard: no controller leader answered''), w)"
| "retry (Suc rounds) call ck w =
     (case retryRound call [0..<rkServers ck] w of
        (Some r, w1) \<Rightarrow> (r, w1)
      | (None, w1) \<Rightarrow> retry rounds call ck w1)"

text \<open>The calls of the clerk, on replicas whose handlers are \<open>srvQuery\<close> and \<open>srvOp\<close>.\<close>

definition rkQuery :: "nat \<Rightarrow> (nat \<Rightarrow> 's \<Rightarrow> RingQueryReply \<times> 's) \<Rightarrow> RingClerk \<times> 's \<Rightarrow> RingConfig res \<times> RingClerk \<times> 's" where
  "rkQuery rounds srvQuery = (\<lambda>(ck, s).
     case retry rounds (\<lambda>i (cfg, s). case srvQuery i s of (r, s1) \<Rightarrow> (rqErr r, (rqConfig r, s1))) ck (zeroRingConfig, s) of
       (Inl e, (_, s1)) \<Rightarrow> (Inl e, ck, s1)
     | (Inr _, (cfg, s1)) \<Rightarrow> (Inr cfg, ck, s1))"

definition rkSplit :: "nat \<Rightarrow> (nat \<Rightarrow> ringOp \<Rightarrow> 's \<Rightarrow> CtrlerErr \<times> 's) \<Rightarrow> int \<Rightarrow> 32 word \<Rightarrow>
    RingClerk \<times> 's \<Rightarrow> unit res \<times> RingClerk \<times> 's" where
  "rkSplit rounds srvOp shard point = (\<lambda>(ck, s).
     case nextSeq ck of (sn, ck1) \<Rightarrow>
     case retry rounds (\<lambda>i. srvOp i (splitRingOp shard point (rkClientID ck1) sn)) ck1 s of (r, s1) \<Rightarrow> (r, ck1, s1))"

definition rkMove :: "nat \<Rightarrow> (nat \<Rightarrow> ringOp \<Rightarrow> 's \<Rightarrow> CtrlerErr \<times> 's) \<Rightarrow> int \<Rightarrow> int \<Rightarrow>
    RingClerk \<times> 's \<Rightarrow> unit res \<times> RingClerk \<times> 's" where
  "rkMove rounds srvOp shard g = (\<lambda>(ck, s).
     case nextSeq ck of (sn, ck1) \<Rightarrow>
     case retry rounds (\<lambda>i. srvOp i (moveRingOp shard g (rkClientID ck1) sn)) ck1 s of (r, s1) \<Rightarrow> (r, ck1, s1))"

section \<open>The splitter\<close>

record 'w AutoSplitter =
  Ctrl :: "'w RingAPI"
  Policy :: HotPolicy
  Loads :: "'w \<Rightarrow> loadMap \<times> 'w"
  MaxShards :: int

record StepResult =
  srSplit :: int
  srNewShard :: int
  srMovedTo :: int

definition noStep :: StepResult where
  "noStep = \<lparr>srSplit = 0, srNewShard = 0, srMovedTo = 0\<rparr>"

fun ringStart :: "RingEntry list \<Rightarrow> int \<Rightarrow> 32 word" where
  "ringStart [] s = 0"
| "ringStart (e # es) s = (if Shard e = s then Start e else ringStart es s)"

definition groupLoads :: "RingConfig \<Rightarrow> loadMap \<Rightarrow> loadMap" where
  "groupLoads cfg loads =
     fold (\<lambda>(s, g) m. addLoad g (get0 (map_of loads) s) m) (Owners cfg)
       (fold (\<lambda>g m. AList.update g 0 m) (map fst (rcGroups cfg)) [])"

definition coolestGroup :: "RingConfig \<Rightarrow> loadMap \<Rightarrow> int" where
  "coolestGroup cfg loads =
     (let byGroup = groupLoads cfg loads
      in fold (\<lambda>g best. if best = 0 \<or> get0 (map_of byGroup) g < get0 (map_of byGroup) best then g else best)
           (sort (map fst byGroup)) 0)"

definition Step_move :: "'w AutoSplitter \<Rightarrow> RingConfig \<Rightarrow> loadMap \<Rightarrow> int \<Rightarrow> int \<Rightarrow> StepResult \<Rightarrow> 'w \<Rightarrow>
    (StepResult \<times> go_error option) \<times> 'w" where
  "Step_move a cfg loads newID owner res w =
     (let target = coolestGroup cfg loads
      in if target = owner \<or> target = 0 then ((res, None), w)
         else (case apiMove (Ctrl a) newID target w of
                 (Inl e, w1) \<Rightarrow> ((res, Some e), w1)
               | (Inr _, w1) \<Rightarrow> ((res\<lparr>srMovedTo := target\<rparr>, None), w1)))"

definition Step :: "(rat \<Rightarrow> rat) \<Rightarrow> 'w AutoSplitter \<Rightarrow> 'w \<Rightarrow> (StepResult \<times> go_error option) \<times> 'w" where
  "Step rnd a w =
     (case apiQuery (Ctrl a) w of
        (Inl e, w1) \<Rightarrow> ((noStep, Some e), w1)
      | (Inr cfg, w1) \<Rightarrow>
         (let shards = map Shard (Entries (rcRing cfg))
          in case Loads a w1 of (loads, w2) \<Rightarrow>
             let hot = DetectHot rnd loads shards (Policy a)
             in if hot = [] \<or> MaxShards a > 0 \<and> int (length shards) \<ge> MaxShards a then ((noStep, None), w2)
                else let victim = hd hot
                     in case Midpoint (rcRing cfg) victim of
                          Inl _ \<Rightarrow> ((noStep, None), w2)
                        | Inr point \<Rightarrow>
                           (let newID = NextShardID (rcRing cfg); owner = get0 (map_of (Owners cfg)) victim
                            in case apiSplit (Ctrl a) victim point w2 of
                                 (Inl e, w3) \<Rightarrow> ((noStep, Some e), w3)
                               | (Inr _, w3) \<Rightarrow>
                                  (let res = noStep\<lparr>srSplit := victim, srNewShard := newID\<rparr>
                                   in case apiQuery (Ctrl a) w3 of
                                        (Inl e, w4) \<Rightarrow> ((res, Some e), w4)
                                      | (Inr after, w4) \<Rightarrow>
                                         (if get0 (map_of (Owners after)) newID \<noteq> owner \<or>
                                             ringStart (Entries (rcRing after)) newID \<noteq> point
                                          then ((res, None), w4)
                                          else Step_move a cfg loads newID owner res w4)))))"

section \<open>The contract the splitter relies on\<close>

text \<open>
  A controller that answers: a query returns the current configuration, a split or a move takes effect
  exactly when the pure function on configurations succeeds, and is refused otherwise.
\<close>

locale ring_api =
  fixes api :: "'w RingAPI"
    and cur :: "'w \<Rightarrow> RingConfig"
    and inv :: "'w \<Rightarrow> bool"
  assumes inv_ok: "inv w \<Longrightarrow> ringcfg_ok (cur w)"
    and query: "inv w \<Longrightarrow> apiQuery api w = (Inr (cur w), w)"
    and split_ok: "inv w \<Longrightarrow> SplitConfig (cur w) s p = Inr (c, n) \<Longrightarrow>
      \<exists>w'. apiSplit api s p w = (Inr (), w') \<and> inv w' \<and> cur w' = c"
    and move_ok: "inv w \<Longrightarrow> MoveRingShard (cur w) s g = Inr c \<Longrightarrow>
      \<exists>w'. apiMove api s g w = (Inr (), w') \<and> inv w' \<and> cur w' = c"

lemma ringStart_unique: "distinct (map Shard es) \<Longrightarrow> e \<in> set es \<Longrightarrow> ringStart es (Shard e) = Start e"
  by (induction es) (auto simp: image_iff)

lemma groupLoads_keys: "set (map fst (groupLoads cfg loads)) = fst ` set (rcGroups cfg) \<union> snd ` set (Owners cfg)"
proof -
  have "set (map fst (fold (\<lambda>g m. AList.update g 0 m) gs m)) = set gs \<union> set (map fst m)" for gs and m :: loadMap
    by (induction gs arbitrary: m) (auto simp: dom_update)
  moreover have "set (map fst (fold (\<lambda>(s, g) m. addLoad g (get0 (map_of loads) s) m) os m)) = snd ` set os \<union> set (map fst m)"
    for os :: loadMap and m
  proof (induction os arbitrary: m)
    case (Cons x os)
    have "fst ` set (addLoad (snd x) n m) = insert (snd x) (fst ` set m)" for n by (simp add: addLoad_def dom_update)
    then show ?case using Cons.IH by (cases x) simp
  qed simp
  ultimately show ?thesis unfolding groupLoads_def by auto
qed

lemma coolest_fold_mem: "fold (\<lambda>g best. if best = 0 \<or> f g < f best then g else best) gs b \<in> insert b (set gs)"
  for f :: "int \<Rightarrow> int" and b :: int
proof (induction gs arbitrary: b)
  case (Cons g gs)
  from Cons.IH [of "if b = 0 \<or> f g < f b then g else b"] show ?case by (auto split: if_splits)
qed simp

lemma coolest_fold_min:
  fixes f :: "int \<Rightarrow> int"
  assumes "0 \<notin> set gs" "b \<noteq> 0 \<or> gs \<noteq> []"
  defines "r \<equiv> fold (\<lambda>g best. if best = 0 \<or> f g < f best then g else best) gs b"
  shows "(\<forall>g \<in> set gs. f r \<le> f g) \<and> (b \<noteq> 0 \<longrightarrow> f r \<le> f b) \<and> r \<noteq> 0"
  using assms(1,2) unfolding r_def
proof (induction gs arbitrary: b)
  case (Cons g gs)
  let ?b = "if b = 0 \<or> f g < f b then g else b"
  have "?b \<noteq> 0" using Cons.prems(1) by auto
  from Cons.IH [of ?b] this Cons.prems(1) show ?case by (auto split: if_splits intro: order_trans less_imp_le)
qed simp

text \<open>The group the splitter picks carries the least load, group id 0 being reserved for ``none''.\<close>

lemma coolestGroup_known: "ringcfg_ok cfg \<Longrightarrow> coolestGroup cfg loads = 0 \<or> coolestGroup cfg loads \<in> fst ` set (rcGroups cfg)"
  using coolest_fold_mem [of "\<lambda>g. get0 (map_of (groupLoads cfg loads)) g" "sort (map fst (groupLoads cfg loads))" 0]
    groupLoads_keys [of cfg loads] unfolding coolestGroup_def Let_def ringcfg_ok_def by auto

lemma coolestGroup_least:
  assumes "rcGroups cfg \<noteq> []" "0 \<notin> fst ` set (rcGroups cfg) \<union> snd ` set (Owners cfg)" "g \<in> fst ` set (rcGroups cfg)"
  shows "get0 (map_of (groupLoads cfg loads)) (coolestGroup cfg loads) \<le> get0 (map_of (groupLoads cfg loads)) g"
    "coolestGroup cfg loads \<noteq> 0"
proof -
  have k: "set (map fst (groupLoads cfg loads)) = fst ` set (rcGroups cfg) \<union> snd ` set (Owners cfg)"
    by (rule groupLoads_keys)
  moreover have "sort (map fst (groupLoads cfg loads)) \<noteq> []" using assms(1) k by (metis Un_empty empty_set image_is_empty set_empty set_sort)
  ultimately show "get0 (map_of (groupLoads cfg loads)) (coolestGroup cfg loads) \<le> get0 (map_of (groupLoads cfg loads)) g"
    "coolestGroup cfg loads \<noteq> 0"
    using coolest_fold_min [of "sort (map fst (groupLoads cfg loads))" 0 "\<lambda>g. get0 (map_of (groupLoads cfg loads)) g"] assms
    unfolding coolestGroup_def Let_def by auto
qed

lemma SplitConfig_Midpoint:
  assumes ok: "ringcfg_ok cfg" and s: "s \<in> Shard ` set (Entries (rcRing cfg))" and mid: "Midpoint (rcRing cfg) s = Inr p"
  obtains c where "SplitConfig cfg s p = Inr (c, NextShardID (rcRing cfg))" "ringcfg_ok c"
    "get0 (map_of (Owners c)) (NextShardID (rcRing cfg)) = get0 (map_of (Owners cfg)) s"
    "ringStart (Entries (rcRing c)) (NextShardID (rcRing cfg)) = p"
    "map_of (Owners c) (NextShardID (rcRing cfg)) \<noteq> None" "rcGroups c = rcGroups cfg"
proof -
  obtain i where i: "findShard (Entries (rcRing cfg)) s = Some i" using s findShard_None by (metis not_None_eq)
  have "rangeEnd (rcRing cfg) i \<noteq> Start (Entries (rcRing cfg) ! i) + 1" using mid Midpoint_eq [OF i] by auto
  then obtain r new where split: "Split (rcRing cfg) s p = Inr (r, new)" using Midpoint_spec [OF i] mid by auto
  have rok: "ring_ok (rcRing cfg)" using ok by (simp add: ringcfg_ok_def)
  note eff = Split_effect [OF rok split]
  obtain g where g: "map_of (Owners cfg) s = Some g"
    using ok s unfolding ringcfg_ok_def by (metis map_of_eq_None_iff not_None_eq)
  then obtain c where c: "SplitConfig cfg s p = Inr (c, NextShardID (rcRing cfg))"
    using split eff(2) by (simp add: SplitConfig_def)
  note ok' = SplitConfig_ok [OF ok c]
  have "\<lparr>Start = p, Shard = NextShardID (rcRing cfg)\<rparr> \<in> set (Entries (rcRing c))"
    using Split_effect(3) [OF rok ok'(5)] by (metis insert_iff set_mset_add_mset_insert set_mset_mset add.commute add_mset_add_single)
  moreover have "distinct (map Shard (Entries (rcRing c)))" using ok'(1) by (simp add: ringcfg_ok_def ring_ok_def)
  ultimately have "ringStart (Entries (rcRing c)) (NextShardID (rcRing cfg)) = p" using ringStart_unique by fastforce
  then show ?thesis using that [OF c] ok'(1,3,6) g by (simp add: get0_def)
qed

context ring_api
begin

text \<open>What one step does when the load callback leaves the configuration alone.\<close>

lemma step_effect:
  assumes inv: "inv w" and api: "Ctrl a = api" and loads: "Loads a w = (ls, w1)" "inv w1" "cur w1 = cur w"
    and run: "Step rnd a w = ((res, err), w')"
  shows "err = None \<and> inv w' \<and>
    (res = noStep \<and> cur w' = cur w \<or>
     (\<exists>p c. srSplit res \<in> set (DetectHot rnd ls (map Shard (Entries (rcRing (cur w)))) (Policy a)) \<and>
        \<not> (MaxShards a > 0 \<and> int (length (Entries (rcRing (cur w)))) \<ge> MaxShards a) \<and>
        Midpoint (rcRing (cur w)) (srSplit res) = Inr p \<and> SplitConfig (cur w) (srSplit res) p = Inr (c, srNewShard res) \<and>
        (srMovedTo res = 0 \<and> cur w' = c \<or>
         srMovedTo res \<noteq> 0 \<and> srMovedTo res = coolestGroup (cur w) ls \<and>
           MoveRingShard c (srNewShard res) (srMovedTo res) = Inr (cur w'))))"
proof -
  let ?cfg = "cur w" and ?hot = "DetectHot rnd ls (map Shard (Entries (rcRing (cur w)))) (Policy a)"
  let ?new = "NextShardID (rcRing (cur w))"
  show ?thesis
  proof (cases "?hot = [] \<or> (MaxShards a > 0 \<and> int (length (Entries (rcRing ?cfg))) \<ge> MaxShards a) \<or>
      (\<exists>e. Midpoint (rcRing ?cfg) (hd ?hot) = Inl e)")
    case True
    then have "Step rnd a w = ((noStep, None), w1)"
      using query [OF inv] loads(1) by (auto simp: Step_def api Let_def)
    then show ?thesis using loads run by simp
  next
    case False
    then obtain p where mid: "Midpoint (rcRing ?cfg) (hd ?hot) = Inr p" by (cases "Midpoint (rcRing ?cfg) (hd ?hot)") auto
    have vic: "hd ?hot \<in> set ?hot" using False by simp
    then have "hd ?hot \<in> Shard ` set (Entries (rcRing ?cfg))" by (simp add: set_DetectHot)
    from SplitConfig_Midpoint [OF inv_ok [OF inv] this mid] obtain c
      where c: "SplitConfig ?cfg (hd ?hot) p = Inr (c, ?new)" "ringcfg_ok c"
        "get0 (map_of (Owners c)) ?new = get0 (map_of (Owners ?cfg)) (hd ?hot)"
        "ringStart (Entries (rcRing c)) ?new = p" "map_of (Owners c) ?new \<noteq> None" "rcGroups c = rcGroups ?cfg"
      by metis
    obtain w3 where w3: "apiSplit api (hd ?hot) p w1 = (Inr (), w3)" "inv w3" "cur w3 = c"
      using split_ok [OF loads(2)] c(1) loads(3) by metis
    let ?res = "noStep\<lparr>srSplit := hd ?hot, srNewShard := ?new\<rparr>"
    have "Step rnd a w = Step_move a ?cfg ls ?new (get0 (map_of (Owners ?cfg)) (hd ?hot)) ?res w3"
      using False query [OF inv] query [OF w3(2)] loads(1) w3(1,3) mid c(3,4) by (auto simp: Step_def api Let_def)
    then have mv: "Step_move a ?cfg ls ?new (get0 (map_of (Owners ?cfg)) (hd ?hot)) ?res w3 = ((res, err), w')"
      using run by simp
    let ?t = "coolestGroup ?cfg ls"
    show ?thesis
    proof (cases "?t = get0 (map_of (Owners ?cfg)) (hd ?hot) \<or> ?t = 0")
      case True
      then have "res = ?res" "err = None" "w' = w3" using mv by (auto simp: Step_move_def Let_def)
      then show ?thesis using w3 c(1) mid vic False by (auto simp: noStep_def)
    next
      case F: False
      then have "?t \<in> fst ` set (rcGroups c)" using coolestGroup_known [OF inv_ok [OF inv], of ls] c(6) by simp
      then have "map_of (rcGroups c) ?t \<noteq> None" by (simp add: map_of_eq_None_iff)
      then obtain c2 where c2: "MoveRingShard c ?new ?t = Inr c2" using c(5) by (simp add: MoveRingShard_def)
      obtain w4 where "apiMove api ?new ?t w3 = (Inr (), w4)" "inv w4" "cur w4 = c2"
        using move_ok [OF w3(2)] c2 w3(3) by metis
      then show ?thesis using mv F c(1) mid vic False c2 by (auto simp: Step_move_def Let_def api noStep_def)
    qed
  qed
qed

end

section \<open>The clerk over a leader that commits at once\<close>

text \<open>
  The contract holds for \<open>RingClerk\<close> on a \<open>RingCtrler\<close> that leads, has applied its no-op and commits a
  proposal at once, the clerk being the only client with its id. A replica that panicked no longer answers.
\<close>

definition loneQuery :: "nat \<Rightarrow> RingCtrler \<Rightarrow> RingQueryReply \<times> RingCtrler" where
  "loneQuery i c = (case ringQuery (-1) c of
     Inr r \<Rightarrow> (r, c) | Inl _ \<Rightarrow> (\<lparr>rqErr = CtrlerErrTimeout, rqConfig = zeroRingConfig\<rparr>, c))"

definition loneOp :: "nat \<Rightarrow> ringOp \<Rightarrow> RingCtrler \<Rightarrow> CtrlerErr \<times> RingCtrler" where
  "loneOp i op c = (case ringApply op c of Inr r \<Rightarrow> r | Inl _ \<Rightarrow> (CtrlerErrTimeout, c))"

definition loneAPI :: "(RingClerk \<times> RingCtrler) RingAPI" where
  "loneAPI = \<lparr>apiQuery = rkQuery 1 loneQuery, apiSplit = rkSplit 1 loneOp, apiMove = rkMove 1 loneOp\<rparr>"

definition loneCur :: "RingClerk \<times> RingCtrler \<Rightarrow> RingConfig" where
  "loneCur = (\<lambda>(ck, c). last (rConfigs c))"

definition loneInv :: "RingClerk \<times> RingCtrler \<Rightarrow> bool" where
  "loneInv = (\<lambda>(ck, c). rkServers ck = 1 \<and> state (rrf c) = Leader \<and> rNoopAppliedTerm c = currentTerm (rrf c) \<and>
     ring_history (rConfigs c) \<and> 1 < length (rConfigs c) \<and> deSeq (lastVerdict c (rkClientID ck)) \<le> rkSeq ck)"

lemma latest_last:
  assumes "rConfigs c \<noteq> []"
  shows "index_at (rConfigs c) (int (length (rConfigs c)) - 1) = Inr (last (rConfigs c))"
proof -
  have "nat (int (length (rConfigs c)) - 1) = length (rConfigs c) - 1" by arith
  then show ?thesis using assms by (simp add: index_at_def last_conv_nth)
qed

lemma lone_current:
  assumes "loneInv (ck, c)"
  shows "ringcfg_ok (last (rConfigs c))" "0 < rcNum (last (rConfigs c))" "ringLatestLocked c = Inr (last (rConfigs c))"
proof -
  let ?i = "length (rConfigs c) - 1"
  have "rConfigs c \<noteq> []" "0 < ?i" "?i < length (rConfigs c)" "ring_history (rConfigs c)" using assms by (auto simp: loneInv_def)
  then show "ringcfg_ok (last (rConfigs c))" "0 < rcNum (last (rConfigs c))"
    unfolding ring_history_def by (simp_all add: last_conv_nth)
  show "ringLatestLocked c = Inr (last (rConfigs c))"
    unfolding ringLatestLocked_def by (rule latest_last [OF \<open>rConfigs c \<noteq> []\<close>])
qed

lemma lone_apply:
  assumes inv: "loneInv (ck, c)" and op: "roType op \<in> {''Split'', ''Move''}" "roClientID op = rkClientID ck" "roSeqNum op = rkSeq ck + 1"
    and nxt: "ringNext op (last (rConfigs c)) = Inr new"
  shows "\<exists>c'. loneOp 0 op c = (CtrlerOK, c') \<and> loneInv (ck\<lparr>rkSeq := rkSeq ck + 1\<rparr>, c') \<and> last (rConfigs c') = new"
proof -
  note cur = lone_current [OF inv]
  let ?c1 = "c\<lparr>rConfigs := rConfigs c @ [new]\<rparr>"
  let ?c2 = "?c1\<lparr>rDuplicateTable := (rDuplicateTable c)(roClientID op \<mapsto> \<lparr>deSeq = roSeqNum op, deErr = CtrlerOK\<rparr>)\<rparr>"
  have "ringApplyOp op c = Inr (CtrlerOK, ?c1)"
    using op(1) nxt cur(3) by (elim insertE emptyE) (simp_all add: ringApplyOp_def)
  moreover have "roType op \<noteq> ''Noop''" using op(1) by auto
  moreover have "\<not> roSeqNum op \<le> deSeq (lastVerdict c (roClientID op))" using inv op by (simp add: loneInv_def)
  ultimately have app: "ringApply op c = Inr (CtrlerOK, ?c2)" by (simp add: ringApply_def Let_def)
  have "ring_history (rConfigs c @ [new])"
    by (rule ringNext_extends [of _ op]) (use inv op(1) nxt in \<open>auto simp: loneInv_def\<close>)
  moreover have "rConfigs c \<noteq> []" using inv by (auto simp: loneInv_def)
  ultimately have "loneInv (ck\<lparr>rkSeq := rkSeq ck + 1\<rparr>, ?c2)" using inv op by (simp add: loneInv_def lastVerdict_def)
  then show ?thesis using app by (simp add: loneOp_def)
qed

lemma lone_split:
  assumes "loneInv w" "SplitConfig (loneCur w) s p = Inr (c, n)"
  shows "\<exists>w'. apiSplit loneAPI s p w = (Inr (), w') \<and> loneInv w' \<and> loneCur w' = c"
proof -
  obtain ck st where w: "w = (ck, st)" by fastforce
  let ?op = "splitRingOp s p (rkClientID ck) (rkSeq ck + 1)"
  have "ringNext ?op (last (rConfigs st)) = Inr c" using assms(2) by (simp add: w loneCur_def ringNext_def splitRingOp_def emptyRingOp_def)
  from lone_apply [OF assms(1) [unfolded w] _ _ _ this]
  obtain st' where "loneOp 0 ?op st = (CtrlerOK, st')" "loneInv (ck\<lparr>rkSeq := rkSeq ck + 1\<rparr>, st')" "last (rConfigs st') = c"
    by (auto simp: splitRingOp_def emptyRingOp_def)
  moreover have "rkServers ck = 1" using assms(1) by (simp add: w loneInv_def)
  ultimately show ?thesis by (simp add: w loneAPI_def rkSplit_def nextSeq_def loneCur_def)
qed

lemma lone_move:
  assumes "loneInv w" "MoveRingShard (loneCur w) s g = Inr c"
  shows "\<exists>w'. apiMove loneAPI s g w = (Inr (), w') \<and> loneInv w' \<and> loneCur w' = c"
proof -
  obtain ck st where w: "w = (ck, st)" by fastforce
  let ?op = "moveRingOp s g (rkClientID ck) (rkSeq ck + 1)"
  have "ringNext ?op (last (rConfigs st)) = Inr c" using assms(2) by (simp add: w loneCur_def ringNext_def moveRingOp_def emptyRingOp_def)
  from lone_apply [OF assms(1) [unfolded w] _ _ _ this]
  obtain st' where "loneOp 0 ?op st = (CtrlerOK, st')" "loneInv (ck\<lparr>rkSeq := rkSeq ck + 1\<rparr>, st')" "last (rConfigs st') = c"
    by (auto simp: moveRingOp_def emptyRingOp_def)
  moreover have "rkServers ck = 1" using assms(1) by (simp add: w loneInv_def)
  ultimately show ?thesis by (simp add: w loneAPI_def rkMove_def nextSeq_def loneCur_def)
qed

lemma lone_query:
  assumes "loneInv w"
  shows "apiQuery loneAPI w = (Inr (loneCur w), w)"
proof -
  obtain ck c where w: "w = (ck, c)" by fastforce
  have inv: "state (rrf c) = Leader" "rNoopAppliedTerm c = currentTerm (rrf c)" "rConfigs c \<noteq> []" "rkServers ck = 1"
    using assms by (auto simp: w loneInv_def)
  have "ringQuery (-1) c = Inr \<lparr>rqErr = CtrlerOK, rqConfig = last (rConfigs c)\<rparr>"
    using inv latest_last [OF inv(3)] by (simp add: ringQuery_def Let_def)
  then have "loneQuery 0 c = (\<lparr>rqErr = CtrlerOK, rqConfig = last (rConfigs c)\<rparr>, c)" by (simp add: loneQuery_def)
  then show ?thesis using inv(4) by (simp add: w loneAPI_def rkQuery_def loneCur_def)
qed

interpretation lone: ring_api loneAPI loneCur loneInv
proof unfold_locales
  show "ringcfg_ok (loneCur w)" if "loneInv w" for w using lone_current(1) that by (cases w) (simp add: loneCur_def)
qed (fact lone_query lone_split lone_move)+


definition exClerk :: RingClerk where
  "exClerk = NewRingClerk 1 5"

definition exLeadingCtrler :: RingCtrler where
  "exLeadingCtrler = exRingCtrler\<lparr>rConfigs := [zeroRingConfig, exRingConfig], rrf := (rrf exRingCtrler)\<lparr>state := Leader\<rparr>\<rparr>"

definition exSplitter :: "(RingClerk \<times> RingCtrler) AutoSplitter" where
  "exSplitter = \<lparr>Ctrl = loneAPI, Policy = \<lparr>Factor = 3 / 2, MinLoad = 5\<rparr>, Loads = (\<lambda>w. ([(1, 90), (2, 10)], w)), MaxShards = 8\<rparr>"

lemma exLone: "loneInv (exClerk, exLeadingCtrler)"
proof -
  have "ring_history [zeroRingConfig, exRingConfig]"
    using ringStep_history [OF exRing_start exInit_step] by (simp add: exRunning_def)
  moreover have "currentTerm (NewRaft 1 [2, 3] :: (ringOp, unit) Raft) = 0"
    by (simp add: NewRaft_def newRaft_def restoreLocked_def)
  ultimately show ?thesis
    by (simp add: loneInv_def exClerk_def NewRingClerk_def exLeadingCtrler_def exRingCtrler_def NewRingCtrler_def lastVerdict_def)
qed


end
