(* ===== verification/Cache.thy ===== *)
theory Cache
  imports Prelude
begin

text \<open>
  The read cache (\<open>src/04-caching/cache.go\<close>). The doubly linked list and the map from keys to its nodes are
  kept apart as in the code: \<open>nodes\<close> is the heap of list elements, \<open>order\<close> the list of their addresses from
  the most to the least recently used, \<open>entries\<close> the map into it. Fetches in flight live on a heap of
  their own, so that a fetch that a write detached still reaches the callers that joined it. Every
  critical section of the code is one definition; the section on interleavings composes them into the
  steps of concurrent readers and writers. Instants are integers; the zero value of \<open>time.Time\<close> is 0.
\<close>

section \<open>State\<close>

record Stats =
  Hits :: int
  Misses :: int
  Evictions :: int
  Expirations :: int
  Invalidations :: int
  Coalesced :: int
  StaleFillsDiscarded :: int

datatype WritePolicy = WriteInvalidate | WriteThrough | UnknownPolicy int

record Options =
  optCapacity :: int
  optTTL :: int
  optWritePolicy :: WritePolicy

record cacheEntry =
  ceKey :: string
  ceValue :: string
  ceExpires :: int

record flight =
  fDone :: bool
  fValue :: string
  fOk :: bool
  fStale :: bool

record Cache =
  capacity :: int
  ttl :: int
  policy :: WritePolicy
  entries :: "string \<rightharpoonup> nat"
  nodes :: "nat \<Rightarrow> cacheEntry"
  order :: "nat list"
  nextNode :: nat
  inflight :: "string \<rightharpoonup> nat"
  flights :: "nat \<Rightarrow> flight"
  nextFlight :: nat
  stats :: Stats

definition zeroStats :: Stats where
  "zeroStats = \<lparr>Hits = 0, Misses = 0, Evictions = 0, Expirations = 0, Invalidations = 0, Coalesced = 0,
     StaleFillsDiscarded = 0\<rparr>"

definition newFlight :: flight where
  "newFlight = \<lparr>fDone = False, fValue = '''', fOk = False, fStale = False\<rparr>"

definition NewCache :: "Options \<Rightarrow> Cache res" where
  "NewCache opts =
     (if optCapacity opts < 1 then Inl (Panic ''cache: Options.Capacity must be at least 1'')
      else if optTTL opts < 0 then Inl (Panic ''cache: Options.TTL must not be negative'')
      else if optWritePolicy opts \<noteq> WriteInvalidate \<and> optWritePolicy opts \<noteq> WriteThrough
      then Inl (Panic ''cache: unknown Options.WritePolicy'')
      else Inr \<lparr>capacity = optCapacity opts, ttl = optTTL opts, policy = optWritePolicy opts, entries = Map.empty,
             nodes = (\<lambda>_. \<lparr>ceKey = '''', ceValue = '''', ceExpires = 0\<rparr>), order = [], nextNode = 0,
             inflight = Map.empty, flights = (\<lambda>_. newFlight), nextFlight = 0, stats = zeroStats\<rparr>)"

section \<open>Critical sections\<close>

definition cacheNow :: "int \<Rightarrow> Cache \<Rightarrow> int" where
  "cacheNow clock c = (if ttl c = 0 then 0 else clock)"

definition expiredLocked :: "int \<Rightarrow> cacheEntry \<Rightarrow> Cache \<Rightarrow> bool" where
  "expiredLocked clock e c = (if ttl c = 0 then False else \<not> clock < ceExpires e)"

definition moveToFront :: "nat \<Rightarrow> Cache \<Rightarrow> Cache" where
  "moveToFront el c = c\<lparr>order := el # removeAll el (order c)\<rparr>"

definition removeNode :: "nat \<Rightarrow> string \<Rightarrow> Cache \<Rightarrow> Cache" where
  "removeNode el key c = c\<lparr>order := removeAll el (order c), entries := (entries c)(key := None)\<rparr>"

definition evictOldest :: "Cache \<Rightarrow> Cache" where
  "evictOldest c =
     (if int (length (order c)) > capacity c
      then let oldest = last (order c); c1 = removeNode oldest (ceKey (nodes c oldest)) c
           in c1\<lparr>stats := (stats c1)\<lparr>Evictions := Evictions (stats c1) + 1\<rparr>\<rparr>
      else c)"

definition insertLocked :: "string \<Rightarrow> string \<Rightarrow> int \<Rightarrow> Cache \<Rightarrow> Cache" where
  "insertLocked key value fetchStart c =
     (let expires = (if ttl c > 0 then fetchStart + ttl c else 0)
      in case entries c key of
           Some el \<Rightarrow> moveToFront el (c\<lparr>nodes := (nodes c)(el := (nodes c el)\<lparr>ceValue := value, ceExpires := expires\<rparr>)\<rparr>)
         | None \<Rightarrow>
            (let el = nextNode c
             in evictOldest (c\<lparr>nodes := (nodes c)(el := \<lparr>ceKey = key, ceValue = value, ceExpires = expires\<rparr>),
                  order := el # order c, entries := (entries c)(key \<mapsto> el), nextNode := el + 1\<rparr>)))"

definition markStaleLocked :: "string \<Rightarrow> Cache \<Rightarrow> Cache" where
  "markStaleLocked key c =
     (case inflight c key of
        None \<Rightarrow> c
      | Some f \<Rightarrow> c\<lparr>flights := (flights c)(f := (flights c f)\<lparr>fStale := True\<rparr>), inflight := (inflight c)(key := None)\<rparr>)"

definition invalidateLocked :: "string \<Rightarrow> Cache \<Rightarrow> Cache" where
  "invalidateLocked key c =
     (case entries c key of
        None \<Rightarrow> c
      | Some el \<Rightarrow>
         (let c1 = removeNode el key c in c1\<lparr>stats := (stats c1)\<lparr>Invalidations := Invalidations (stats c1) + 1\<rparr>\<rparr>))"

text \<open>
  The first critical section of \<open>Get\<close> ends in one of three ways: a hit with its value, a fetch to wait for,
  or a fetch to lead, with the instant it starts. The clock is read twice, first to check the deadline and then
  for the start of a fetch; \<open>clock\<close> and \<open>clock'\<close> are the two readings.
\<close>

datatype getOutcome = Hit string | Join nat | Lead nat int

definition dropExpired :: "string \<Rightarrow> nat \<Rightarrow> Cache \<Rightarrow> Cache" where
  "dropExpired key el c =
     (let c1 = removeNode el key c in c1\<lparr>stats := (stats c1)\<lparr>Expirations := Expirations (stats c1) + 1\<rparr>\<rparr>)"

definition cacheMiss :: "string \<Rightarrow> int \<Rightarrow> Cache \<Rightarrow> getOutcome \<times> Cache" where
  "cacheMiss key clock c =
     (let c1 = c\<lparr>stats := (stats c)\<lparr>Misses := Misses (stats c) + 1\<rparr>\<rparr>
      in case inflight c1 key of
           Some f \<Rightarrow> (Join f, c1\<lparr>stats := (stats c1)\<lparr>Coalesced := Coalesced (stats c1) + 1\<rparr>\<rparr>)
         | None \<Rightarrow>
            (let f = nextFlight c1
             in (Lead f (cacheNow clock c1),
                 c1\<lparr>flights := (flights c1)(f := newFlight), nextFlight := f + 1, inflight := (inflight c1)(key \<mapsto> f)\<rparr>)))"

definition Get_begin :: "string \<Rightarrow> int \<Rightarrow> int \<Rightarrow> Cache \<Rightarrow> getOutcome \<times> Cache" where
  "Get_begin key clock clock' c =
     (case entries c key of
        None \<Rightarrow> cacheMiss key clock' c
      | Some el \<Rightarrow>
         (if \<not> expiredLocked clock (nodes c el) c
          then (Hit (ceValue (nodes c el)),
                (let c1 = moveToFront el c in c1\<lparr>stats := (stats c1)\<lparr>Hits := Hits (stats c1) + 1\<rparr>\<rparr>))
          else cacheMiss key clock' (dropExpired key el c)))"

definition lead_fill :: "string \<Rightarrow> nat \<Rightarrow> int \<Rightarrow> string \<Rightarrow> Cache \<Rightarrow> Cache" where
  "lead_fill key f start v c =
     (let c1 = c\<lparr>flights := (flights c)(f := (flights c f)\<lparr>fValue := v, fOk := True\<rparr>)\<rparr>
      in if fStale (flights c1 f)
         then c1\<lparr>stats := (stats c1)\<lparr>StaleFillsDiscarded := StaleFillsDiscarded (stats c1) + 1\<rparr>\<rparr>
         else insertLocked key v start c1)"

text \<open>The deferred function of \<open>lead\<close>: its critical section, and the closing of the channel after it.\<close>

definition lead_detach :: "string \<Rightarrow> nat \<Rightarrow> Cache \<Rightarrow> Cache" where
  "lead_detach key f c =
     (if inflight c key = Some f then c\<lparr>inflight := (inflight c)(key := None)\<rparr> else c)"

definition lead_close :: "nat \<Rightarrow> Cache \<Rightarrow> Cache" where
  "lead_close f c = c\<lparr>flights := (flights c)(f := (flights c f)\<lparr>fDone := True\<rparr>)\<rparr>"

definition Put_finish :: "string \<Rightarrow> string \<Rightarrow> int \<Rightarrow> Cache \<Rightarrow> Cache" where
  "Put_finish key value start c =
     (let c1 = markStaleLocked key c
      in if policy c1 = WriteThrough then insertLocked key value start c1 else invalidateLocked key c1)"

definition Append_finish :: "string \<Rightarrow> Cache \<Rightarrow> Cache" where
  "Append_finish key c = invalidateLocked key (markStaleLocked key c)"

definition Len :: "Cache \<Rightarrow> nat" where
  "Len c = length (order c)"

section \<open>The list and the map agree\<close>

text \<open>
  The type invariant: the addresses in \<open>order\<close> are distinct and allocated, the map sends a key to exactly
  the node in the list that holds it, and the list is within the capacity.
\<close>

definition lru_ok :: "Cache \<Rightarrow> bool" where
  "lru_ok c \<longleftrightarrow> distinct (order c) \<and> (\<forall>n \<in> set (order c). n < nextNode c) \<and>
     (\<forall>k n. entries c k = Some n \<longleftrightarrow> n \<in> set (order c) \<and> ceKey (nodes c n) = k) \<and>
     int (length (order c)) \<le> capacity c \<and> 1 \<le> capacity c"

text \<open>What the cache holds, most recently used first.\<close>

definition contents :: "Cache \<Rightarrow> cacheEntry list" where
  "contents c = map (nodes c) (order c)"

definition without :: "string \<Rightarrow> cacheEntry list \<Rightarrow> cacheEntry list" where
  "without k es = filter (\<lambda>e. ceKey e \<noteq> k) es"

lemma lru_entries: "lru_ok c \<Longrightarrow> entries c k = Some n \<longleftrightarrow> n \<in> set (order c) \<and> ceKey (nodes c n) = k"
  by (simp add: lru_ok_def)

lemma lru_length: "lru_ok c \<Longrightarrow> length (contents c) \<le> nat (capacity c)"
  unfolding lru_ok_def contents_def length_map by linarith

lemma lru_key_unique:
  assumes "lru_ok c" "m \<in> set (order c)" "n \<in> set (order c)" "ceKey (nodes c m) = ceKey (nodes c n)"
  shows "m = n"
proof -
  have "entries c (ceKey (nodes c n)) = Some m" "entries c (ceKey (nodes c n)) = Some n"
    using lru_entries [OF assms(1)] assms(2-4) by metis+
  then show ?thesis by simp
qed

lemma removeAll_key:
  assumes "lru_ok c" "entries c k = Some el"
  shows "removeAll el (order c) = filter (\<lambda>n. ceKey (nodes c n) \<noteq> k) (order c)"
proof -
  have el: "el \<in> set (order c)" "ceKey (nodes c el) = k" using assms lru_entries by auto
  have "n = el \<longleftrightarrow> ceKey (nodes c n) = k" if "n \<in> set (order c)" for n
    using lru_key_unique [OF assms(1) that el(1)] el(2) by auto
  then show ?thesis unfolding removeAll_filter_not_eq by (intro filter_cong) auto
qed

lemma entries_None:
  assumes "lru_ok c"
  shows "entries c k = None \<longleftrightarrow> k \<notin> ceKey ` set (contents c)"
proof
  assume none: "entries c k = None"
  show "k \<notin> ceKey ` set (contents c)"
  proof
    assume "k \<in> ceKey ` set (contents c)"
    then obtain n where "n \<in> set (order c)" "ceKey (nodes c n) = k" by (auto simp: contents_def)
    then have "entries c k = Some n" by (simp add: lru_entries [OF assms])
    with none show False by simp
  qed
next
  assume "k \<notin> ceKey ` set (contents c)"
  then have "entries c k \<noteq> Some n" for n using lru_entries [OF assms, of k n] by (auto simp: contents_def)
  then show "entries c k = None" by (cases "entries c k") auto
qed

text \<open>Removing and moving nodes, as operations on the contents.\<close>

lemma removeNode_lru:
  assumes ok: "lru_ok c" and el: "entries c k = Some el"
  shows "lru_ok (removeNode el k c)" "contents (removeNode el k c) = without k (contents c)"
proof -
  have "set (removeAll el (order c)) = {n \<in> set (order c). ceKey (nodes c n) \<noteq> k}"
    unfolding removeAll_key [OF ok el] by simp
  moreover have "int (length (removeAll el (order c))) \<le> capacity c"
    using ok unfolding lru_ok_def removeAll_filter_not_eq by (meson length_filter_le of_nat_mono order_trans)
  ultimately show "lru_ok (removeNode el k c)"
    using ok lru_entries [OF ok] unfolding lru_ok_def removeNode_def by (simp add: distinct_removeAll) blast
  show "contents (removeNode el k c) = without k (contents c)"
    by (simp add: contents_def without_def removeNode_def removeAll_key [OF ok el] filter_map comp_def)
qed

lemma moveToFront_lru:
  assumes ok: "lru_ok c" and el: "entries c k = Some el"
  shows "lru_ok (moveToFront el c)" "contents (moveToFront el c) = nodes c el # without k (contents c)"
proof -
  have mem: "el \<in> set (order c)" using el lru_entries [OF ok] by simp
  then have "length (el # removeAll el (order c)) = length (order c)"
    using ok by (simp add: lru_ok_def distinct_remove1_removeAll [symmetric] length_remove1)
      (metis One_nat_def Suc_pred length_pos_if_in_set)
  moreover have "set (el # removeAll el (order c)) = set (order c)" using mem by auto
  ultimately show "lru_ok (moveToFront el c)"
    using ok unfolding lru_ok_def moveToFront_def by (simp add: distinct_removeAll)
  show "contents (moveToFront el c) = nodes c el # without k (contents c)"
    by (simp add: contents_def without_def moveToFront_def removeAll_key [OF ok el] filter_map comp_def)
qed

lemma evictOldest_lru:
  assumes dist: "distinct (order c)" "\<forall>n \<in> set (order c). n < nextNode c" "1 \<le> capacity c"
    and ent: "\<And>k n. entries c k = Some n \<longleftrightarrow> n \<in> set (order c) \<and> ceKey (nodes c n) = k"
    and len: "int (length (order c)) \<le> capacity c + 1"
  shows "lru_ok (evictOldest c)" "contents (evictOldest c) = take (nat (capacity c)) (contents c)"
proof -
  show "lru_ok (evictOldest c)" "contents (evictOldest c) = take (nat (capacity c)) (contents c)"
  proof (atomize (full), cases "int (length (order c)) > capacity c")
    case False
    then have "evictOldest c = c" by (simp add: evictOldest_def)
    then show "lru_ok (evictOldest c) \<and> contents (evictOldest c) = take (nat (capacity c)) (contents c)"
      using False assms by (auto simp: lru_ok_def contents_def)
  next
    case True
    then obtain xs x where xs: "order c = xs @ [x]" using dist(3) by (cases "order c" rule: rev_cases) auto
    have lx: "int (length xs) = capacity c" using True len by (simp add: xs)
    have rm: "removeAll x (xs @ [x]) = xs" using dist(1) by (simp add: xs)
    have uniq: "ceKey (nodes c n) \<noteq> ceKey (nodes c x)" if "n \<in> set xs" for n
      using ent [of "ceKey (nodes c x)" n] ent [of "ceKey (nodes c x)" x] that dist(1) by (auto simp: xs)
    have ev: "evictOldest c = (removeNode x (ceKey (nodes c x)) c)
        \<lparr>stats := (stats c)\<lparr>Evictions := Evictions (stats c) + 1\<rparr>\<rparr>"
      using True by (simp add: evictOldest_def xs Let_def removeNode_def)
    have "lru_ok (evictOldest c)"
      unfolding ev lru_ok_def removeNode_def using dist lx rm ent uniq by (auto simp: xs)
    moreover have "contents (evictOldest c) = take (nat (capacity c)) (contents c)"
      unfolding ev using lx rm by (simp add: contents_def removeNode_def xs)
    ultimately show "lru_ok (evictOldest c) \<and> contents (evictOldest c) = take (nat (capacity c)) (contents c)" ..
  qed
qed

lemma lru_ok_frame [simp]:
  "lru_ok (c\<lparr>stats := s\<rparr>) = lru_ok c" "lru_ok (c\<lparr>flights := fs\<rparr>) = lru_ok c" "lru_ok (c\<lparr>inflight := i\<rparr>) = lru_ok c"
  "lru_ok (c\<lparr>nextFlight := n\<rparr>) = lru_ok c"
  "contents (c\<lparr>stats := s\<rparr>) = contents c" "contents (c\<lparr>flights := fs\<rparr>) = contents c"
  "contents (c\<lparr>inflight := i\<rparr>) = contents c" "contents (c\<lparr>nextFlight := n\<rparr>) = contents c"
  by (simp_all add: lru_ok_def contents_def)

definition entryFor :: "string \<Rightarrow> string \<Rightarrow> int \<Rightarrow> Cache \<Rightarrow> cacheEntry" where
  "entryFor key value fetchStart c =
     \<lparr>ceKey = key, ceValue = value, ceExpires = (if ttl c > 0 then fetchStart + ttl c else 0)\<rparr>"

lemma insertLocked_lru:
  assumes ok: "lru_ok c"
  shows "lru_ok (insertLocked key value st c)"
    "contents (insertLocked key value st c) = take (nat (capacity c)) (entryFor key value st c # without key (contents c))"
proof -
  have "lru_ok (insertLocked key value st c) \<and>
    contents (insertLocked key value st c) = take (nat (capacity c)) (entryFor key value st c # without key (contents c))"
  proof (cases "entries c key")
    case (Some el)
    let ?e = "(nodes c el)\<lparr>ceValue := value, ceExpires := if ttl c > 0 then st + ttl c else 0\<rparr>"
    let ?c = "c\<lparr>nodes := (nodes c)(el := ?e)\<rparr>"
    have el: "el \<in> set (order c)" "ceKey (nodes c el) = key" using lru_entries [OF ok] Some by auto
    have keys: "ceKey (nodes ?c n) = ceKey (nodes c n)" for n by simp
    have ok': "lru_ok ?c" using ok unfolding lru_ok_def keys by simp
    have ins: "insertLocked key value st c = moveToFront el ?c" using Some by (simp add: insertLocked_def)
    have e: "nodes ?c el = entryFor key value st c" using el(2) by (simp add: entryFor_def)
    have "map (nodes ?c) (filter (\<lambda>n. ceKey (nodes c n) \<noteq> key) (order c)) = map (nodes c) (filter (\<lambda>n. ceKey (nodes c n) \<noteq> key) (order c))"
      using el(2) by (intro map_cong) auto
    then have wo: "without key (contents ?c) = without key (contents c)"
      unfolding without_def contents_def filter_map comp_def keys by simp
    have ent: "entries ?c key = Some el" using Some by simp
    have eq: "contents (moveToFront el ?c) = entryFor key value st c # without key (contents c)"
      using moveToFront_lru(2) [OF ok' ent] unfolding e wo .
    have "length (contents (moveToFront el ?c)) \<le> nat (capacity c)"
      using lru_length [OF moveToFront_lru(1) [OF ok' ent]] by (simp add: moveToFront_def)
    then have "take (nat (capacity c)) (contents (moveToFront el ?c)) = contents (moveToFront el ?c)" by (rule take_all)
    with moveToFront_lru(1) [OF ok' ent] show ?thesis unfolding ins eq by (intro conjI) (assumption, rule sym)
  next
    case None
    let ?el = "nextNode c"
    let ?c = "c\<lparr>nodes := (nodes c)(?el := entryFor key value st c), order := ?el # order c,
        entries := (entries c)(key \<mapsto> ?el), nextNode := ?el + 1\<rparr>"
    have fresh: "?el \<notin> set (order c)" using ok by (auto simp: lru_ok_def)
    have "key \<notin> ceKey ` set (contents c)" using None entries_None [OF ok] by simp
    then have nokey: "ceKey (nodes c n) \<noteq> key" if "n \<in> set (order c)" for n using that by (auto simp: contents_def)
    have ent: "entries ?c k = Some n \<longleftrightarrow> n \<in> set (order ?c) \<and> ceKey (nodes ?c n) = k" for k n
      using lru_entries [OF ok, of k n] fresh nokey by (auto simp: entryFor_def)
    have ins: "insertLocked key value st c = evictOldest ?c" using None by (simp add: insertLocked_def entryFor_def Let_def)
    have pre: "distinct (order ?c)" "\<forall>n \<in> set (order ?c). n < nextNode ?c" "1 \<le> capacity ?c"
      "int (length (order ?c)) \<le> capacity ?c + 1" using ok fresh by (auto simp: lru_ok_def less_Suc_eq)
    have "contents ?c = entryFor key value st c # without key (contents c)"
      using fresh nokey by (auto simp: contents_def without_def filter_map comp_def filter_id_conv)
    with evictOldest_lru [OF pre(1-3) ent pre(4)] show ?thesis using ins by simp
  qed
  then show "lru_ok (insertLocked key value st c)"
    "contents (insertLocked key value st c) = take (nat (capacity c)) (entryFor key value st c # without key (contents c))"
    by auto
qed

lemma without_absent: "k \<notin> ceKey ` set es \<Longrightarrow> without k es = es"
  by (auto simp: without_def filter_id_conv)

lemma invalidateLocked_lru:
  assumes ok: "lru_ok c"
  shows "lru_ok (invalidateLocked key c)" "contents (invalidateLocked key c) = without key (contents c)"
  using removeNode_lru [OF ok] entries_None [OF ok, of key] ok
  by (auto simp: invalidateLocked_def Let_def without_absent split: option.split)

lemma markStaleLocked_lru [simp]:
  "lru_ok (markStaleLocked key c) = lru_ok c" "contents (markStaleLocked key c) = contents c"
  "capacity (markStaleLocked key c) = capacity c" "ttl (markStaleLocked key c) = ttl c"
  "policy (markStaleLocked key c) = policy c" "entries (markStaleLocked key c) = entries c"
  by (simp_all add: markStaleLocked_def lru_ok_def contents_def split: option.split)

section \<open>Refinement of an abstract LRU list\<close>

definition entryOf :: "string \<Rightarrow> Cache \<Rightarrow> cacheEntry option" where
  "entryOf key c = find (\<lambda>e. ceKey e = key) (contents c)"

definition isHit :: "getOutcome \<Rightarrow> bool" where
  "isHit r = (case r of Hit _ \<Rightarrow> True | _ \<Rightarrow> False)"

lemma entryOf_entries:
  assumes ok: "lru_ok c"
  shows "entryOf key c = map_option (nodes c) (entries c key)"
proof (cases "entries c key")
  case None
  then have "key \<notin> ceKey ` set (contents c)" using entries_None [OF ok] by simp
  then have "find (\<lambda>e. ceKey e = key) (contents c) = None" by (auto simp: find_None_iff)
  then show ?thesis using None by (simp add: entryOf_def)
next
  case (Some el)
  have el: "el \<in> set (order c)" "ceKey (nodes c el) = key" using Some lru_entries [OF ok, of key el] by simp_all
  then have "find (\<lambda>e. ceKey e = key) (contents c) \<noteq> None" by (auto simp: find_None_iff contents_def)
  then obtain e where e: "find (\<lambda>e. ceKey e = key) (contents c) = Some e" by blast
  then have "e \<in> set (contents c)" "ceKey e = key" by (auto simp: find_Some_iff)
  then obtain n where n: "n \<in> set (order c)" "e = nodes c n" "ceKey (nodes c n) = key" by (auto simp: contents_def)
  then have "n = el" using lru_key_unique [OF ok n(1) el(1)] el(2) by simp
  then show ?thesis using e n Some by (simp add: entryOf_def)
qed

lemma contents_keys_distinct:
  assumes ok: "lru_ok c"
  shows "distinct (map ceKey (contents c))"
proof -
  have "inj_on (\<lambda>n. ceKey (nodes c n)) (set (order c))" by (rule inj_onI) (rule lru_key_unique [OF ok])
  then show ?thesis using ok by (simp add: contents_def lru_ok_def distinct_map comp_def)
qed

lemma cacheMiss_frame [simp]:
  "lru_ok (snd (cacheMiss key t c)) = lru_ok c" "contents (snd (cacheMiss key t c)) = contents c"
  "\<not> isHit (fst (cacheMiss key t c))"
  by (simp_all add: cacheMiss_def lru_ok_def contents_def isHit_def Let_def split: option.split)

lemma Get_begin_lru:
  assumes ok: "lru_ok c"
  shows "lru_ok (snd (Get_begin key t t' c)) \<and>
    (case entryOf key c of
       None \<Rightarrow> \<not> isHit (fst (Get_begin key t t' c)) \<and> contents (snd (Get_begin key t t' c)) = contents c
     | Some e \<Rightarrow>
        if expiredLocked t e c
        then \<not> isHit (fst (Get_begin key t t' c)) \<and> contents (snd (Get_begin key t t' c)) = without key (contents c)
        else fst (Get_begin key t t' c) = Hit (ceValue e) \<and>
             contents (snd (Get_begin key t t' c)) = e # without key (contents c))"
proof (cases "entries c key")
  case None
  then show ?thesis using ok by (simp add: entryOf_entries Get_begin_def)
next
  case (Some el)
  show ?thesis
    using removeNode_lru [OF ok Some] moveToFront_lru [OF ok Some] ok
    by (simp add: entryOf_entries Some Get_begin_def dropExpired_def Let_def)
qed

lemma Put_finish_lru:
  assumes ok: "lru_ok c"
  shows "lru_ok (Put_finish key v st c) \<and> contents (Put_finish key v st c) =
    (if policy c = WriteThrough then take (nat (capacity c)) (entryFor key v st c # without key (contents c))
     else without key (contents c))"
  using insertLocked_lru [of "markStaleLocked key c" key v st] invalidateLocked_lru [of "markStaleLocked key c" key] ok
  by (simp add: Put_finish_def Let_def entryFor_def)

lemma Append_finish_lru:
  assumes ok: "lru_ok c"
  shows "lru_ok (Append_finish key c) \<and> contents (Append_finish key c) = without key (contents c)"
  using invalidateLocked_lru [of "markStaleLocked key c" key] ok by (simp add: Append_finish_def)

lemma lead_fill_lru:
  assumes ok: "lru_ok c"
  shows "lru_ok (lead_fill key f st v c) \<and> contents (lead_fill key f st v c) =
    (if fStale (flights c f) then contents c
     else take (nat (capacity c)) (entryFor key v st c # without key (contents c)))"
  using insertLocked_lru [of "c\<lparr>flights := (flights c)(f := (flights c f)\<lparr>fValue := v, fOk := True\<rparr>)\<rparr>" key v st] ok
  by (simp add: lead_fill_def Let_def entryFor_def)

text \<open>
  (C35) The linked list and the map implement a bounded LRU list. On a consistent cache, with its contents read as a
  list of entries from the most to the least recently used: a \<open>Get\<close> hits exactly when the key has an
  entry that is not expired, returns its value and moves it to the front; an expired entry is dropped and an
  absent key changes nothing. A fill puts its entry in front of the others and keeps the first
  \<open>capacity\<close> of them, unless a write marked its fetch stale, when it changes nothing. \<open>Put\<close> does the same
  under write-through and removes the key under write-invalidate; \<open>Append\<close> always removes it. Every one of them
  keeps the cache consistent, and a consistent cache holds at most \<open>capacity\<close> entries with distinct keys.
\<close>
theorem cache_is_lru:
  assumes "lru_ok c"
  shows "(lru_ok (snd (Get_begin key t t' c)) \<and>
      (case entryOf key c of
         None \<Rightarrow> \<not> isHit (fst (Get_begin key t t' c)) \<and> contents (snd (Get_begin key t t' c)) = contents c
       | Some e \<Rightarrow>
          if expiredLocked t e c
          then \<not> isHit (fst (Get_begin key t t' c)) \<and> contents (snd (Get_begin key t t' c)) = without key (contents c)
          else fst (Get_begin key t t' c) = Hit (ceValue e) \<and>
               contents (snd (Get_begin key t t' c)) = e # without key (contents c))) \<and>
    (lru_ok (lead_fill key f st v c) \<and> contents (lead_fill key f st v c) =
      (if fStale (flights c f) then contents c
       else take (nat (capacity c)) (entryFor key v st c # without key (contents c)))) \<and>
    (lru_ok (Put_finish key v st c) \<and> contents (Put_finish key v st c) =
      (if policy c = WriteThrough then take (nat (capacity c)) (entryFor key v st c # without key (contents c))
       else without key (contents c))) \<and>
    (lru_ok (Append_finish key c) \<and> contents (Append_finish key c) = without key (contents c)) \<and>
    int (Len c) \<le> capacity c \<and> Len c = length (contents c) \<and> distinct (map ceKey (contents c))"
  using Get_begin_lru [OF assms] lead_fill_lru [OF assms] Put_finish_lru [OF assms] Append_finish_lru [OF assms]
    contents_keys_distinct [OF assms] assms
  by (intro conjI) (simp_all add: Len_def contents_def lru_ok_def)

definition twoSlots :: Cache where
  "twoSlots = \<lparr>capacity = 2, ttl = 10, policy = WriteThrough, entries = [''a'' \<mapsto> 0, ''b'' \<mapsto> 1],
     nodes = (\<lambda>n. if n = 0 then \<lparr>ceKey = ''a'', ceValue = ''1'', ceExpires = 12\<rparr>
                  else \<lparr>ceKey = ''b'', ceValue = ''2'', ceExpires = 15\<rparr>),
     order = [1, 0], nextNode = 2, inflight = Map.empty, flights = (\<lambda>_. newFlight), nextFlight = 0, stats = zeroStats\<rparr>"

lemma twoSlots_lru: "lru_ok twoSlots"
  by (auto simp: lru_ok_def twoSlots_def)

lemma twoSlots_is_filled:
  "NewCache \<lparr>optCapacity = 2, optTTL = 10, optWritePolicy = WriteThrough\<rparr> = Inr c0 \<Longrightarrow>
   entries (insertLocked ''b'' ''2'' 5 (insertLocked ''a'' ''1'' 2 c0)) = entries twoSlots \<and>
   contents (insertLocked ''b'' ''2'' 5 (insertLocked ''a'' ''1'' 2 c0)) = contents twoSlots"
  by (auto simp: NewCache_def insertLocked_def evictOldest_def contents_def twoSlots_def Let_def)

theorem cache_is_lru_witness:
  "lru_ok twoSlots \<and> fst (Get_begin ''a'' 11 11 twoSlots) = Hit ''1'' \<and>
   map ceKey (contents (snd (Get_begin ''a'' 11 11 twoSlots))) = [''a'', ''b''] \<and>
   map ceKey (contents (Put_finish ''c'' ''3'' 11 twoSlots)) = [''c'', ''b'']"
  using cache_is_lru [OF twoSlots_lru, of "''a''" 11 11 0 0 "[]"] cache_is_lru [OF twoSlots_lru, of "''c''" 11 11 0 11 "''3''"] twoSlots_lru
  by (simp add: entryOf_def contents_def twoSlots_def expiredLocked_def without_def entryFor_def eval_nat_numeral)

end
