(* ===== verification/Cache_Concurrency.thy ===== *)
theory Cache_Concurrency
  imports Cache
begin

text \<open>
  Concurrent readers and writers of one cache (\<open>Get\<close>, \<open>lead\<close>, \<open>Put\<close> and \<open>Append\<close> of \<open>src/04-caching/cache.go\<close>) in front
  of a store that other clients write as well. Each step is one critical section of the code, one call into the
  store, or the closing of a channel; any interleaving of them is a run. The store keeps, per key, the values it
  has held with the instant each was written, so that how old a value is can be stated. A call of \<open>Get\<close>
  remembers as \<open>need\<close> the version of the last write to its key that this cache had acknowledged when it began.
\<close>

section \<open>Calls in progress\<close>

text \<open>
  A call of \<open>Get\<close>: leading a fetch before and after the store answered, in the deferred function before
  its critical section and before the close of the channel (with the value, or none when the store panicked),
  waiting for another call's fetch, or over.
\<close>

datatype reader =
    RIdle
  | RLead string nat int nat
  | RFetched string nat int nat string
  | RDefer string nat nat "string option"
  | RClose string nat nat "string option"
  | RJoin string nat nat
  | RDone string nat string
  | RPanicked

text \<open>The write that holds \<open>writeMu\<close>: before its call into the store and after the store answered.\<close>

datatype writer =
    WIdle
  | WPut string string int
  | WPutLanded string string int nat
  | WAppend string string
  | WAppendLanded string nat

type_synonym versions = "(string \<times> int) list"

record csys =
  cch :: Cache
  hist :: "string \<Rightarrow> versions"
  clk :: int
  acked :: "string \<Rightarrow> nat"
  wr :: writer
  rds :: "nat \<Rightarrow> reader"
  flKey :: "nat \<Rightarrow> string"
  flFloor :: "nat \<Rightarrow> nat"

definition current :: "versions \<Rightarrow> string" where
  "current h = fst (last h)"

definition landed :: "string \<Rightarrow> string \<Rightarrow> csys \<Rightarrow> csys" where
  "landed key v S = S\<lparr>hist := (hist S)(key := hist S key @ [(v, clk S)])\<rparr>"

text \<open>
  One round of the loop in \<open>Get\<close>. \<open>flKey\<close> and \<open>flFloor\<close> record for each fetch its key and the last acknowledged
  write when it was registered; no step reads them.
\<close>

definition cacheGetRound :: "nat \<Rightarrow> string \<Rightarrow> nat \<Rightarrow> int \<Rightarrow> csys \<Rightarrow> csys" where
  "cacheGetRound i key need t S =
     (case Get_begin key (clk S) t (cch S) of
        (Hit v, c) \<Rightarrow> S\<lparr>cch := c, clk := t, rds := (rds S)(i := RDone key need v)\<rparr>
      | (Join f, c) \<Rightarrow> S\<lparr>cch := c, clk := t, rds := (rds S)(i := RJoin key f need)\<rparr>
      | (Lead f start, c) \<Rightarrow>
          S\<lparr>cch := c, clk := t, flKey := (flKey S)(f := key), flFloor := (flFloor S)(f := acked S key),
            rds := (rds S)(i := RLead key f start need)\<rparr>)"

definition afterClose :: "string \<Rightarrow> nat \<Rightarrow> string option \<Rightarrow> reader" where
  "afterClose key need r = (case r of Some v \<Rightarrow> RDone key need v | None \<Rightarrow> RPanicked)"

inductive cacheStep :: "csys \<Rightarrow> csys \<Rightarrow> bool" where
  get: "rds S i = RIdle \<Longrightarrow> clk S \<le> t \<Longrightarrow> cacheStep S (cacheGetRound i key (acked S key) t S)"
| fetch: "rds S i = RLead key f start need \<Longrightarrow>
    cacheStep S (S\<lparr>rds := (rds S)(i := RFetched key f start need (current (hist S key)))\<rparr>)"
| fetch_panic: "rds S i = RLead key f start need \<Longrightarrow> cacheStep S (S\<lparr>rds := (rds S)(i := RDefer key f need None)\<rparr>)"
| fill: "rds S i = RFetched key f start need v \<Longrightarrow>
    cacheStep S (S\<lparr>cch := lead_fill key f start v (cch S), rds := (rds S)(i := RDefer key f need (Some v))\<rparr>)"
| detach: "rds S i = RDefer key f need r \<Longrightarrow>
    cacheStep S (S\<lparr>cch := lead_detach key f (cch S), rds := (rds S)(i := RClose key f need r)\<rparr>)"
| close: "rds S i = RClose key f need r \<Longrightarrow>
    cacheStep S (S\<lparr>cch := lead_close f (cch S), rds := (rds S)(i := afterClose key need r)\<rparr>)"
| wake: "rds S i = RJoin key f need \<Longrightarrow> fDone (flights (cch S) f) \<Longrightarrow> fOk (flights (cch S) f) \<Longrightarrow>
    cacheStep S (S\<lparr>rds := (rds S)(i := RDone key need (fValue (flights (cch S) f)))\<rparr>)"
| retry: "rds S i = RJoin key f need \<Longrightarrow> fDone (flights (cch S) f) \<Longrightarrow> \<not> fOk (flights (cch S) f) \<Longrightarrow> clk S \<le> t \<Longrightarrow>
    cacheStep S (cacheGetRound i key need t S)"
| put_start: "wr S = WIdle \<Longrightarrow> cacheStep S (S\<lparr>wr := WPut key v (cacheNow (clk S) (cch S))\<rparr>)"
| put_land: "wr S = WPut key v start \<Longrightarrow>
    cacheStep S ((landed key v S)\<lparr>wr := WPutLanded key v start (length (hist S key))\<rparr>)"
| put_finish: "wr S = WPutLanded key v start m \<Longrightarrow>
    cacheStep S (S\<lparr>cch := Put_finish key v start (cch S), acked := (acked S)(key := m), wr := WIdle\<rparr>)"
| append_start: "wr S = WIdle \<Longrightarrow> cacheStep S (S\<lparr>wr := WAppend key v\<rparr>)"
| append_land: "wr S = WAppend key v \<Longrightarrow>
    cacheStep S ((landed key (current (hist S key) @ v) S)\<lparr>wr := WAppendLanded key (length (hist S key))\<rparr>)"
| append_finish: "wr S = WAppendLanded key m \<Longrightarrow>
    cacheStep S (S\<lparr>cch := Append_finish key (cch S), acked := (acked S)(key := m), wr := WIdle\<rparr>)"
| write_panic: "cacheStep S (S\<lparr>wr := WIdle\<rparr>)"
| other_write: "cacheStep S (landed key v S)"
| tick: "clk S \<le> t \<Longrightarrow> cacheStep S (S\<lparr>clk := t\<rparr>)"

definition cinit :: "Options \<Rightarrow> (string \<Rightarrow> string) \<Rightarrow> csys \<Rightarrow> bool" where
  "cinit opts vals S \<longleftrightarrow> NewCache opts = Inr (cch S) \<and> hist S = (\<lambda>k. [(vals k, 0)]) \<and> 0 \<le> clk S \<and>
     acked S = (\<lambda>_. 0) \<and> wr S = WIdle \<and> rds S = (\<lambda>_. RIdle)"

section \<open>How fresh a value is\<close>

text \<open>
  \<open>fresh h now n s v\<close>: \<open>v\<close> is a version of the key not older than version \<open>n\<close>, and it was still the current one at some
  instant from \<open>s\<close> on.
\<close>

definition fresh :: "versions \<Rightarrow> int \<Rightarrow> nat \<Rightarrow> int \<Rightarrow> string \<Rightarrow> bool" where
  "fresh h now n s v \<longleftrightarrow>
     s \<le> now \<and> (\<exists>m \<in> {n..<length h}. fst (h ! m) = v \<and> (Suc m < length h \<longrightarrow> s \<le> snd (h ! Suc m)))"

lemma fresh_mono:
  assumes "fresh h now n s v" "n' \<le> n" "s' \<le> s" "now \<le> now'"
  shows "fresh h now' n' s' v"
proof -
  obtain m where "s \<le> now" "m \<in> {n..<length h}" "fst (h ! m) = v" "Suc m < length h \<longrightarrow> s \<le> snd (h ! Suc m)"
    using assms(1) by (auto simp: fresh_def)
  then show ?thesis using assms(2-4) unfolding fresh_def by (intro conjI bexI [of _ m]) auto
qed

lemma fresh_landed:
  assumes "fresh h now n s v" "s \<le> t"
  shows "fresh (h @ [(w, t)]) now n s v"
proof -
  obtain m where m: "s \<le> now" "m \<in> {n..<length h}" "fst (h ! m) = v" "Suc m < length h \<longrightarrow> s \<le> snd (h ! Suc m)"
    using assms(1) by (auto simp: fresh_def)
  then show ?thesis using assms(2) unfolding fresh_def
    by (intro conjI bexI [of _ m]) (auto simp: nth_append less_Suc_eq)
qed

lemma fresh_current: "h \<noteq> [] \<Longrightarrow> n < length h \<Longrightarrow> s \<le> now \<Longrightarrow> fresh h now n s (current h)"
  unfolding fresh_def current_def by (intro conjI bexI [of _ "length h - 1"]) (auto simp: last_conv_nth)

lemma fresh_last: "s \<le> t \<Longrightarrow> s \<le> now \<Longrightarrow> fresh (h @ [(v, t)]) now (length h) s v"
  unfolding fresh_def by (intro conjI bexI [of _ "length h"]) auto

lemma fresh_append:
  assumes "fresh h now n s v" "\<forall>x \<in> set ext. s \<le> snd x"
  shows "fresh (h @ ext) now n s v"
  using assms
proof (induction ext rule: rev_induct)
  case (snoc x ext)
  then show ?case using fresh_landed [of "h @ ext" now n s v "snd x" "fst x"] by simp
qed simp

definition newer :: "versions \<Rightarrow> nat \<Rightarrow> string \<Rightarrow> bool" where
  "newer h n v \<longleftrightarrow> v \<in> fst ` set (drop n h)"

lemma fresh_newer: "fresh h now n s v \<Longrightarrow> newer h n v"
proof -
  assume "fresh h now n s v"
  then obtain m where m: "n \<le> m" "m < length h" "fst (h ! m) = v" by (auto simp: fresh_def)
  then have "drop n h ! (m - n) = h ! m" "m - n < length (drop n h)" by simp_all
  then have "h ! m \<in> set (drop n h)" by (metis nth_mem)
  then show "newer h n v" using m(3) by (auto simp: newer_def)
qed

lemma newer_mono: "newer h n v \<Longrightarrow> n' \<le> n \<Longrightarrow> newer (h @ ext) n' v"
  unfolding newer_def using set_drop_subset_set_drop [of n' n h] by auto

section \<open>What each critical section leaves of the fetches\<close>

lemma insertLocked_frame [simp]:
  "flights (insertLocked key v st c) = flights c" "inflight (insertLocked key v st c) = inflight c"
  "nextFlight (insertLocked key v st c) = nextFlight c" "ttl (insertLocked key v st c) = ttl c"
  by (simp_all add: insertLocked_def evictOldest_def moveToFront_def removeNode_def Let_def split: option.split)

lemma invalidateLocked_frame [simp]:
  "flights (invalidateLocked key c) = flights c" "inflight (invalidateLocked key c) = inflight c"
  "nextFlight (invalidateLocked key c) = nextFlight c" "ttl (invalidateLocked key c) = ttl c"
  by (simp_all add: invalidateLocked_def removeNode_def Let_def split: option.split)

lemma lead_fill_frame [simp]:
  "flights (lead_fill key f st v c) = (flights c)(f := (flights c f)\<lparr>fValue := v, fOk := True\<rparr>)"
  "inflight (lead_fill key f st v c) = inflight c" "nextFlight (lead_fill key f st v c) = nextFlight c"
  "ttl (lead_fill key f st v c) = ttl c"
  by (simp_all add: lead_fill_def Let_def)

lemma finish_frame [simp]:
  "flights (Put_finish key v st c) = flights (markStaleLocked key c)"
  "inflight (Put_finish key v st c) = (inflight c)(key := None)"
  "nextFlight (Put_finish key v st c) = nextFlight c" "ttl (Put_finish key v st c) = ttl c"
  "flights (Append_finish key c) = flights (markStaleLocked key c)"
  "inflight (Append_finish key c) = (inflight c)(key := None)"
  "nextFlight (Append_finish key c) = nextFlight c" "ttl (Append_finish key c) = ttl c"
  by (auto simp: Put_finish_def Append_finish_def Let_def markStaleLocked_def split: option.split)

lemma marked_stale:
  "flights (markStaleLocked key c) = (\<lambda>f. if inflight c key = Some f then (flights c f)\<lparr>fStale := True\<rparr> else flights c f)"
  by (auto simp: markStaleLocked_def split: option.split)

lemma detach_close_frame [simp]:
  "lru_ok (lead_detach key f c) = lru_ok c" "contents (lead_detach key f c) = contents c"
  "flights (lead_detach key f c) = flights c" "nextFlight (lead_detach key f c) = nextFlight c"
  "ttl (lead_detach key f c) = ttl c"
  "inflight (lead_detach key f c) = (if inflight c key = Some f then (inflight c)(key := None) else inflight c)"
  "lru_ok (lead_close f c) = lru_ok c" "contents (lead_close f c) = contents c"
  "flights (lead_close f c) = (flights c)(f := (flights c f)\<lparr>fDone := True\<rparr>)" "nextFlight (lead_close f c) = nextFlight c"
  "ttl (lead_close f c) = ttl c" "inflight (lead_close f c) = inflight c"
  by (simp_all add: lead_detach_def lead_close_def)

lemma Get_begin_cases:
  assumes ok: "lru_ok c" and g: "Get_begin key t t' c = (r, c')"
  shows "lru_ok c' \<and> set (contents c') \<subseteq> set (contents c) \<and> ttl c' = ttl c \<and>
    (case r of
       Hit v \<Rightarrow> flights c' = flights c \<and> inflight c' = inflight c \<and> nextFlight c' = nextFlight c \<and>
         (\<exists>e \<in> set (contents c). ceKey e = key \<and> ceValue e = v \<and> \<not> expiredLocked t e c)
     | Join f \<Rightarrow> flights c' = flights c \<and> inflight c' = inflight c \<and> nextFlight c' = nextFlight c \<and> inflight c key = Some f
     | Lead f st \<Rightarrow> inflight c key = None \<and> f = nextFlight c \<and> st = cacheNow t' c \<and> nextFlight c' = Suc f \<and>
         flights c' = (flights c)(f := newFlight) \<and> inflight c' = (inflight c)(key \<mapsto> f))"
proof -
  have sub: "lru_ok c' \<and> set (contents c') \<subseteq> set (contents c)"
  proof (cases "entryOf key c")
    case None
    then show ?thesis using Get_begin_lru [OF ok, of key t t'] g by simp
  next
    case (Some e)
    then have "e \<in> set (contents c)" by (auto simp: entryOf_def find_Some_iff)
    then show ?thesis using Get_begin_lru [OF ok, of key t t'] g Some by (auto simp: without_def split: if_splits)
  qed
  have "nodes c el \<in> set (contents c) \<and> ceKey (nodes c el) = key" if "entries c key = Some el" for el
    using that lru_entries [OF ok, of key el] by (simp add: contents_def)
  with sub show ?thesis using g
    by (auto simp: Get_begin_def cacheMiss_def dropExpired_def moveToFront_def removeNode_def cacheNow_def Let_def
        split: option.splits if_splits)
qed

section \<open>The invariant of a run\<close>

definition leads :: "reader \<Rightarrow> nat option" where
  "leads r = (case r of RLead _ f _ _ \<Rightarrow> Some f | RFetched _ f _ _ _ \<Rightarrow> Some f | RDefer _ f _ _ \<Rightarrow> Some f
     | RClose _ f _ _ \<Rightarrow> Some f | _ \<Rightarrow> None)"

definition mayFill :: "reader \<Rightarrow> nat option" where
  "mayFill r = (case r of RLead _ f _ _ \<Rightarrow> Some f | RFetched _ f _ _ _ \<Rightarrow> Some f | _ \<Rightarrow> None)"

text \<open>The fetch a call is about, and that it may still be attached: no acknowledged write came in between.\<close>

definition fetchOk :: "csys \<Rightarrow> string \<Rightarrow> nat \<Rightarrow> nat \<Rightarrow> bool" where
  "fetchOk S k f n \<longleftrightarrow> f < nextFlight (cch S) \<and> flKey S f = k \<and> n \<le> flFloor S f \<and> flFloor S f \<le> acked S k"

definition openOk :: "csys \<Rightarrow> string \<Rightarrow> nat \<Rightarrow> int \<Rightarrow> bool" where
  "openOk S k f st \<longleftrightarrow> 0 \<le> st \<and> st \<le> clk S \<and> (fStale (flights (cch S) f) \<or> inflight (cch S) k = Some f)"

fun readerOk :: "csys \<Rightarrow> reader \<Rightarrow> bool" where
  "readerOk S (RLead k f st n) = (fetchOk S k f n \<and> openOk S k f st)"
| "readerOk S (RFetched k f st n v) = (fetchOk S k f n \<and> openOk S k f st \<and> fresh (hist S k) (clk S) (flFloor S f) st v)"
| "readerOk S (RDefer k f n r) = (fetchOk S k f n \<and> (\<forall>v. r = Some v \<longrightarrow> newer (hist S k) n v))"
| "readerOk S (RClose k f n r) = (fetchOk S k f n \<and> (\<forall>v. r = Some v \<longrightarrow> newer (hist S k) n v))"
| "readerOk S (RJoin k f n) = fetchOk S k f n"
| "readerOk S (RDone k n v) = newer (hist S k) n v"
| "readerOk S RIdle = True"
| "readerOk S RPanicked = True"

fun writerOk :: "csys \<Rightarrow> writer \<Rightarrow> bool" where
  "writerOk S (WPut k v st) = (0 \<le> st \<and> st \<le> clk S)"
| "writerOk S (WPutLanded k v st m) = (0 \<le> st \<and> acked S k \<le> m \<and> m < length (hist S k) \<and> fresh (hist S k) (clk S) m st v)"
| "writerOk S (WAppendLanded k m) = (acked S k \<le> m \<and> m < length (hist S k))"
| "writerOk S (WAppend k v) = True"
| "writerOk S WIdle = True"

definition servedSince :: "Cache \<Rightarrow> cacheEntry \<Rightarrow> int" where
  "servedSince c e = (if ttl c > 0 then ceExpires e - ttl c else 0)"

definition entryOk :: "csys \<Rightarrow> cacheEntry \<Rightarrow> bool" where
  "entryOk S e \<longleftrightarrow> fresh (hist S (ceKey e)) (clk S) (acked S (ceKey e)) (servedSince (cch S) e) (ceValue e)"

definition attachedOk :: "csys \<Rightarrow> string \<Rightarrow> nat \<Rightarrow> bool" where
  "attachedOk S k f \<longleftrightarrow> f < nextFlight (cch S) \<and> flKey S f = k \<and> flFloor S f = acked S k \<and> \<not> fStale (flights (cch S) f)"

definition flightOk :: "csys \<Rightarrow> nat \<Rightarrow> bool" where
  "flightOk S f \<longleftrightarrow> (fOk (flights (cch S) f) \<longrightarrow> newer (hist S (flKey S f)) (flFloor S f) (fValue (flights (cch S) f)))"

definition cinv :: "csys \<Rightarrow> bool" where
  "cinv S \<longleftrightarrow> lru_ok (cch S) \<and> 0 \<le> ttl (cch S) \<and> 0 \<le> clk S \<and> (\<forall>k. acked S k < length (hist S k)) \<and>
     (\<forall>e \<in> set (contents (cch S)). entryOk S e) \<and>
     (\<forall>k f. inflight (cch S) k = Some f \<longrightarrow> attachedOk S k f) \<and>
     (\<forall>f < nextFlight (cch S). flightOk S f) \<and> (\<forall>i. readerOk S (rds S i)) \<and> writerOk S (wr S) \<and>
     (\<forall>i j f. leads (rds S i) = Some f \<longrightarrow> leads (rds S j) = Some f \<longrightarrow> i = j)"

text \<open>What a step never takes back: versions, acknowledged writes, the clock, and what is recorded of a fetch.\<close>

definition grows :: "csys \<Rightarrow> csys \<Rightarrow> bool" where
  "grows S S' \<longleftrightarrow> clk S \<le> clk S' \<and> (\<forall>k. acked S k \<le> acked S' k) \<and>
     (\<forall>k. \<exists>ext. hist S' k = hist S k @ ext \<and> (\<forall>x \<in> set ext. clk S \<le> snd x)) \<and>
     nextFlight (cch S) \<le> nextFlight (cch S') \<and>
     (\<forall>f < nextFlight (cch S). flKey S' f = flKey S f \<and> flFloor S' f = flFloor S f)"

lemma fresh_grows:
  assumes "grows S S'" "fresh (hist S k) (clk S) n s v"
  shows "fresh (hist S' k) (clk S') n s v"
proof -
  obtain ext where ext: "hist S' k = hist S k @ ext" "\<forall>x \<in> set ext. clk S \<le> snd x"
    using assms(1) unfolding grows_def by blast
  have "s \<le> clk S" using assms(2) by (simp add: fresh_def)
  then have "fresh (hist S k @ ext) (clk S) n s v" using fresh_append [OF assms(2)] ext(2) by (meson order_trans)
  then show ?thesis using assms(1) ext(1) fresh_mono by (simp add: grows_def)
qed

lemma newer_grows:
  assumes "grows S S'" "newer (hist S k) n v" "n' \<le> n"
  shows "newer (hist S' k) n' v"
proof -
  obtain ext where "hist S' k = hist S k @ ext" using assms(1) unfolding grows_def by blast
  then show ?thesis using newer_mono [OF assms(2,3)] by simp
qed

lemma fetchOk_grows: "grows S S' \<Longrightarrow> fetchOk S k f n \<Longrightarrow> fetchOk S' k f n"
  unfolding grows_def fetchOk_def by (metis order.strict_trans2 order.trans)

lemma readerOk_grows:
  assumes g: "grows S S'" and ok: "readerOk S r"
    and op: "\<And>f k. mayFill r = Some f \<Longrightarrow> fStale (flights (cch S) f) \<or> inflight (cch S) k = Some f \<Longrightarrow>
               fStale (flights (cch S') f) \<or> inflight (cch S') k = Some f"
  shows "readerOk S' r"
proof -
  have clk: "st \<le> clk S \<Longrightarrow> st \<le> clk S'" for st using g by (simp add: grows_def)
  show ?thesis
  proof (cases r)
    case (RLead k f st n)
    then show ?thesis using ok fetchOk_grows [OF g] clk op [of f k] by (auto simp: openOk_def mayFill_def)
  next
    case (RFetched k f st n v)
    then have "fresh (hist S' k) (clk S') (flFloor S' f) st v"
      using ok fresh_grows [OF g, of k "flFloor S f" st v] g by (simp add: fetchOk_def grows_def)
    then show ?thesis using RFetched ok fetchOk_grows [OF g] clk op [of f k] by (auto simp: openOk_def mayFill_def)
  qed (use ok fetchOk_grows [OF g] newer_grows [OF g] in auto)
qed

lemma ghost_free [simp]:
  "readerOk (S\<lparr>rds := x\<rparr>) r = readerOk S r" "readerOk (S\<lparr>wr := w\<rparr>) r = readerOk S r"
  "writerOk (S\<lparr>rds := x\<rparr>) u = writerOk S u" "writerOk (S\<lparr>wr := w\<rparr>) u = writerOk S u"
  "entryOk (S\<lparr>rds := x\<rparr>) e = entryOk S e" "entryOk (S\<lparr>wr := w\<rparr>) e = entryOk S e"
  "attachedOk (S\<lparr>rds := x\<rparr>) k f = attachedOk S k f" "attachedOk (S\<lparr>wr := w\<rparr>) k f = attachedOk S k f"
  "flightOk (S\<lparr>rds := x\<rparr>) f = flightOk S f" "flightOk (S\<lparr>wr := w\<rparr>) f = flightOk S f"
  by (cases r; cases u; simp add: fetchOk_def openOk_def entryOk_def attachedOk_def flightOk_def)+

lemma cinv_reader:
  assumes "cinv S" "readerOk S r" "leads r = None \<or> leads r = leads (rds S i) \<or> (\<forall>j. leads (rds S j) \<noteq> leads r)"
  shows "cinv (S\<lparr>rds := (rds S)(i := r)\<rparr>)"
proof -
  have "a = b" if "leads (((rds S)(i := r)) a) = Some f" "leads (((rds S)(i := r)) b) = Some f" for a b f
  proof -
    have u: "leads (rds S x) = Some f \<Longrightarrow> leads (rds S y) = Some f \<Longrightarrow> x = y" for x y
      using assms(1) by (simp add: cinv_def)
    show ?thesis using assms(3) that u [of a b] u [of i b] u [of a i] by (auto split: if_splits)
  qed
  moreover have "readerOk S (((rds S)(i := r)) j)" for j using assms(1,2) by (simp add: cinv_def)
  ultimately show ?thesis using assms(1) unfolding cinv_def ghost_free by (simp del: fun_upd_apply)
qed

lemma cinv_writer: "cinv S \<Longrightarrow> writerOk S w \<Longrightarrow> cinv (S\<lparr>wr := w\<rparr>)"
  unfolding cinv_def by simp

lemma entryOk_grows:
  "grows S S' \<Longrightarrow> entryOk S e \<Longrightarrow> ttl (cch S') = ttl (cch S) \<Longrightarrow> acked S' (ceKey e) = acked S (ceKey e) \<Longrightarrow> entryOk S' e"
  unfolding entryOk_def servedSince_def using fresh_grows [of S S' "ceKey e"] by auto

lemma attachedOk_grows:
  "grows S S' \<Longrightarrow> attachedOk S k f \<Longrightarrow> acked S' k = acked S k \<Longrightarrow> fStale (flights (cch S') f) = fStale (flights (cch S) f) \<Longrightarrow>
   attachedOk S' k f"
  unfolding attachedOk_def grows_def by (metis order.strict_trans2)

lemma flightOk_grows:
  assumes "grows S S'" "flightOk S f" "f < nextFlight (cch S)" "fOk (flights (cch S') f) \<longrightarrow> fOk (flights (cch S) f)"
    "fValue (flights (cch S') f) = fValue (flights (cch S) f)"
  shows "flightOk S' f"
  using assms newer_grows [OF assms(1), of "flKey S f" "flFloor S f" _ "flFloor S f"] unfolding flightOk_def grows_def by simp

lemma writerOk_grows:
  assumes "grows S S'" "writerOk S w" "acked S' = acked S"
  shows "writerOk S' w"
proof -
  have "length (hist S k) \<le> length (hist S' k)" for k
    using assms(1) unfolding grows_def by (metis length_append le_add1)
  then have "m < length (hist S k) \<Longrightarrow> m < length (hist S' k)" for m k by (meson order.strict_trans2)
  moreover have "st \<le> clk S \<Longrightarrow> st \<le> clk S'" for st using assms(1) by (simp add: grows_def)
  ultimately show ?thesis using assms(2,3) fresh_grows [OF assms(1)] by (cases w) auto
qed

text \<open>A change of the cache and of what is recorded beside it keeps the invariant if it accounts for what it touched.\<close>

lemma cinv_grows:
  assumes inv: "cinv S" and g: "grows S S'" and same: "rds S' = rds S" "ttl (cch S') = ttl (cch S)"
    and lru: "lru_ok (cch S')" and ack: "\<And>k. acked S' k < length (hist S' k)" and w: "writerOk S' (wr S')"
    and ent: "\<And>e. e \<in> set (contents (cch S')) \<Longrightarrow>
      e \<in> set (contents (cch S)) \<and> acked S' (ceKey e) = acked S (ceKey e) \<or> entryOk S' e"
    and att: "\<And>k f. inflight (cch S') k = Some f \<Longrightarrow>
      inflight (cch S) k = Some f \<and> acked S' k = acked S k \<and> fStale (flights (cch S') f) = fStale (flights (cch S) f) \<or>
      attachedOk S' k f"
    and fl: "\<And>f. f < nextFlight (cch S') \<Longrightarrow>
      f < nextFlight (cch S) \<and> (fOk (flights (cch S') f) \<longrightarrow> fOk (flights (cch S) f)) \<and>
        fValue (flights (cch S') f) = fValue (flights (cch S) f) \<or> flightOk S' f"
    and op: "\<And>j f k. mayFill (rds S j) = Some f \<Longrightarrow> f < nextFlight (cch S) \<Longrightarrow>
      fStale (flights (cch S) f) \<or> inflight (cch S) k = Some f \<Longrightarrow>
      fStale (flights (cch S') f) \<or> inflight (cch S') k = Some f"
  shows "cinv S'"
proof -
  have "entryOk S' e" if "e \<in> set (contents (cch S'))" for e
    using ent [OF that] entryOk_grows [OF g _ same(2)] inv unfolding cinv_def by blast
  moreover have "attachedOk S' k f" if "inflight (cch S') k = Some f" for k f
    using att [OF that] attachedOk_grows [OF g] inv unfolding cinv_def by blast
  moreover have "flightOk S' f" if "f < nextFlight (cch S')" for f
    using fl [OF that] flightOk_grows [OF g] inv unfolding cinv_def by blast
  moreover have "readerOk S' (rds S' i)" for i
  proof -
    have ri: "readerOk S (rds S i)" using inv by (simp add: cinv_def)
    then have lt: "f < nextFlight (cch S)" if "mayFill (rds S i) = Some f" for f
      using that by (cases "rds S i") (auto simp: mayFill_def fetchOk_def)
    show ?thesis unfolding same(1) using readerOk_grows [OF g ri] op lt by blast
  qed
  moreover have "0 \<le> clk S'" "0 \<le> ttl (cch S')" using inv g same(2) by (auto simp: cinv_def grows_def)
  moreover have "\<forall>i j f. leads (rds S' i) = Some f \<longrightarrow> leads (rds S' j) = Some f \<longrightarrow> i = j"
    using inv unfolding cinv_def same(1) by blast
  ultimately show ?thesis using lru ack w unfolding cinv_def by blast
qed

section \<open>Every step keeps the invariant\<close>

lemma grows_clock: "clk S \<le> t \<Longrightarrow> nextFlight c = nextFlight (cch S) \<Longrightarrow> grows S (S\<lparr>cch := c, clk := t\<rparr>)"
  by (simp add: grows_def)

lemma cacheNow_bounds: "0 \<le> t \<Longrightarrow> 0 \<le> cacheNow t c \<and> cacheNow t c \<le> t"
  by (simp add: cacheNow_def)

lemma cacheGetRound_cinv:
  assumes inv: "cinv S" and t: "clk S \<le> t" and need: "need \<le> acked S key" and idle: "leads (rds S i) = None"
  shows "cinv (cacheGetRound i key need t S)"
proof -
  obtain r c where g: "Get_begin key (clk S) t (cch S) = (r, c)" by (cases "Get_begin key (clk S) t (cch S)")
  have lru: "lru_ok (cch S)" using inv by (simp add: cinv_def)
  note b = Get_begin_cases [OF lru g]
  let ?S = "S\<lparr>cch := c, clk := t\<rparr>"
  show ?thesis
  proof (cases r)
    case (Lead f st)
    let ?T = "?S\<lparr>flKey := (flKey S)(f := key), flFloor := (flFloor S)(f := acked S key)\<rparr>"
    have gr: "grows S ?T" using b t Lead by (auto simp: grows_def)
    have inv': "cinv ?T"
    proof (rule cinv_grows [OF inv gr])
      show "writerOk ?T (wr ?T)" using writerOk_grows [OF gr] inv by (simp add: cinv_def)
      show "inflight (cch ?T) k = Some f' \<Longrightarrow>
        inflight (cch S) k = Some f' \<and> acked ?T k = acked S k \<and> fStale (flights (cch ?T) f') = fStale (flights (cch S) f') \<or>
        attachedOk ?T k f'" for k f'
        using b Lead inv by (auto simp: attachedOk_def newFlight_def cinv_def split: if_splits)
    qed (use b Lead inv in \<open>auto simp: cinv_def flightOk_def newFlight_def\<close>)
    have "leads (rds S j) \<noteq> Some f" for j
    proof
      assume a: "leads (rds S j) = Some f"
      have "readerOk S (rds S j)" using inv by (simp add: cinv_def)
      then have "f < nextFlight (cch S)" using a by (cases "rds S j") (auto simp: leads_def fetchOk_def)
      then show False using b Lead by simp
    qed
    moreover have "readerOk ?T (RLead key f st need)"
      using b Lead need cacheNow_bounds [of t "cch S"] t inv by (auto simp: fetchOk_def openOk_def cinv_def)
    ultimately have "cinv (?T\<lparr>rds := (rds ?T)(i := RLead key f st need)\<rparr>)"
      by (intro cinv_reader [OF inv']) (simp_all add: leads_def)
    then show ?thesis using g Lead by (simp add: cacheGetRound_def)
  next
    case (Hit v)
    have gr: "grows S ?S" using b t Hit grows_clock [of S t c] by simp
    have inv': "cinv ?S" by (rule cinv_grows [OF inv gr]) (use b Hit inv writerOk_grows [OF gr] in \<open>auto simp: cinv_def\<close>)
    obtain e where e: "e \<in> set (contents (cch S))" "ceKey e = key" "ceValue e = v" using b Hit by auto
    then have "entryOk S e" using inv by (simp add: cinv_def)
    then have "newer (hist S key) (acked S key) v" using e fresh_newer by (auto simp: entryOk_def)
    then have "newer (hist S key) need v" using newer_mono [of "hist S key" "acked S key" v need "[]"] need by simp
    then have "cinv (?S\<lparr>rds := (rds ?S)(i := RDone key need v)\<rparr>)"
      by (intro cinv_reader [OF inv']) (simp_all add: leads_def)
    then show ?thesis using g Hit by (simp add: cacheGetRound_def)
  next
    case (Join f)
    have gr: "grows S ?S" using b t Join grows_clock [of S t c] by simp
    have inv': "cinv ?S" by (rule cinv_grows [OF inv gr]) (use b Join inv writerOk_grows [OF gr] in \<open>auto simp: cinv_def\<close>)
    have "attachedOk S key f" using b Join inv by (simp add: cinv_def)
    then have "readerOk ?S (RJoin key f need)" using need b Join by (simp add: attachedOk_def fetchOk_def)
    then have "cinv (?S\<lparr>rds := (rds ?S)(i := RJoin key f need)\<rparr>)"
      by (intro cinv_reader [OF inv']) (simp_all add: leads_def)
    then show ?thesis using g Join by (simp add: cacheGetRound_def)
  qed
qed

lemma landed_cinv:
  assumes inv: "cinv S"
  shows "cinv (landed key v S)"
proof -
  have g: "grows S (landed key v S)" by (auto simp: grows_def landed_def)
  show ?thesis
    by (rule cinv_grows [OF inv g])
      (use inv writerOk_grows [OF g] in \<open>auto simp: cinv_def landed_def less_Suc_eq\<close>)
qed

lemma fill_cinv:
  assumes inv: "cinv S" and r: "rds S i = RFetched key f st need v"
  shows "cinv (S\<lparr>cch := lead_fill key f st v (cch S)\<rparr>)" (is "cinv ?S")
proof -
  have g: "grows S ?S" by (simp add: grows_def)
  have ok: "fetchOk S key f need" "openOk S key f st" "fresh (hist S key) (clk S) (flFloor S f) st v"
    using inv r unfolding cinv_def by (metis readerOk.simps(2))+
  have lru: "lru_ok (cch S)" "0 \<le> ttl (cch S)" "0 \<le> clk S" using inv by (simp_all add: cinv_def)
  note fill = lead_fill_lru [OF lru(1), of key f st v]
  have new: "entryOk ?S (entryFor key v st (cch S))" if "\<not> fStale (flights (cch S) f)"
  proof -
    have "attachedOk S key f" using ok(2) that inv by (simp add: openOk_def cinv_def)
    then have "fresh (hist S key) (clk S) (acked S key) st v" using ok(3) by (simp add: attachedOk_def)
    moreover have "0 \<le> st" using ok(2) by (simp add: openOk_def)
    ultimately have "fresh (hist S key) (clk S) (acked S key) (if 0 < ttl (cch S) then st else 0) v"
      using fresh_mono [of "hist S key" "clk S" "acked S key" st v "acked S key" 0 "clk S"] by simp
    then show ?thesis by (simp add: entryOk_def servedSince_def entryFor_def split: if_splits)
  qed
  have ent: "e \<in> set (contents (cch S)) \<or> entryOk ?S e" if "e \<in> set (contents (cch ?S))" for e
    using that fill new by (auto simp: without_def dest!: in_set_takeD split: if_splits)
  have "newer (hist S key) (flFloor S f) v" using fresh_newer [OF ok(3)] .
  then have "flightOk ?S f" using ok(1) by (simp add: flightOk_def fetchOk_def)
  then show ?thesis
    by (intro cinv_grows [OF inv g]) (use inv fill ent writerOk_grows [OF g] in \<open>auto simp: cinv_def\<close>)
qed

lemma detach_cinv:
  assumes inv: "cinv S" and r: "rds S i = RDefer key f need v"
  shows "cinv (S\<lparr>cch := lead_detach key f (cch S)\<rparr>)" (is "cinv ?S")
proof -
  have g: "grows S ?S" by (simp add: grows_def)
  have "fStale (flights (cch S) f') \<or> inflight (cch ?S) k = Some f'"
    if m: "mayFill (rds S j) = Some f'" and o: "fStale (flights (cch S) f') \<or> inflight (cch S) k = Some f'" for j f' k
  proof -
    have "leads (rds S j) = Some f'" using m by (cases "rds S j") (auto simp: leads_def mayFill_def)
    moreover have "leads (rds S i) = Some f" using r by (simp add: leads_def)
    moreover have "j \<noteq> i" using m r by (auto simp: mayFill_def)
    ultimately have "f' \<noteq> f" using inv unfolding cinv_def by blast
    then show ?thesis using o by auto
  qed
  then show ?thesis
    by (intro cinv_grows [OF inv g]) (use inv writerOk_grows [OF g] in \<open>auto simp: cinv_def split: if_splits\<close>)
qed

lemma close_cinv: "cinv S \<Longrightarrow> cinv (S\<lparr>cch := lead_close f (cch S)\<rparr>)" (is "_ \<Longrightarrow> cinv ?S")
proof -
  assume inv: "cinv S"
  have g: "grows S ?S" by (simp add: grows_def)
  show "cinv ?S"
    by (intro cinv_grows [OF inv g]) (use inv writerOk_grows [OF g] in \<open>auto simp: cinv_def split: if_splits\<close>)
qed

text \<open>The end of a write: the key's entry is replaced or gone, its fetch marked and detached.\<close>

lemma finish_cinv:
  assumes inv: "cinv S" and m: "acked S key \<le> m" "m < length (hist S key)"
    and c: "lru_ok c" "ttl c = ttl (cch S)" "nextFlight c = nextFlight (cch S)"
      "inflight c = (inflight (cch S))(key := None)" "flights c = flights (markStaleLocked key (cch S))"
    and con: "\<And>e. e \<in> set (contents c) \<Longrightarrow> e \<in> set (contents (cch S)) \<and> ceKey e \<noteq> key \<or>
      fresh (hist S key) (clk S) m (servedSince c e) (ceValue e) \<and> ceKey e = key"
  shows "cinv (S\<lparr>cch := c, acked := (acked S)(key := m), wr := WIdle\<rparr>)" (is "cinv ?S")
proof -
  have g: "grows S ?S" using m c by (auto simp: grows_def)
  have one: "k = key" if "inflight (cch S) k = Some f" "inflight (cch S) key = Some f" for k f
    using inv that unfolding cinv_def attachedOk_def by metis
  show ?thesis
  proof (rule cinv_grows [OF inv g])
    show "e \<in> set (contents (cch S)) \<and> acked ?S (ceKey e) = acked S (ceKey e) \<or> entryOk ?S e"
      if "e \<in> set (contents (cch ?S))" for e
      using con [of e] that by (auto simp: entryOk_def)
    show "inflight (cch S) k = Some f \<and> acked ?S k = acked S k \<and> fStale (flights (cch ?S) f) = fStale (flights (cch S) f) \<or>
      attachedOk ?S k f" if "inflight (cch ?S) k = Some f" for k f
      using that one c by (auto simp: marked_stale split: if_splits)
  qed (use inv m c in \<open>auto simp: cinv_def marked_stale split: if_splits\<close>)
qed

lemma Put_finish_cinv:
  assumes inv: "cinv S" and w: "wr S = WPutLanded key v st m"
  shows "cinv (S\<lparr>cch := Put_finish key v st (cch S), acked := (acked S)(key := m), wr := WIdle\<rparr>)"
proof -
  have lru: "lru_ok (cch S)" using inv by (simp add: cinv_def)
  have wok: "0 \<le> st" "acked S key \<le> m" "m < length (hist S key)" "fresh (hist S key) (clk S) m st v"
    using inv w unfolding cinv_def by (metis writerOk.simps(2))+
  have "fresh (hist S key) (clk S) m (if 0 < ttl (cch S) then st else 0) v"
    using wok(1,4) fresh_mono [of "hist S key" "clk S" m st v m 0 "clk S"] by simp
  then have new: "fresh (hist S key) (clk S) m (servedSince (Put_finish key v st (cch S)) (entryFor key v st (cch S))) v"
    by (simp add: servedSince_def entryFor_def split: if_splits)
  have val: "ceKey (entryFor key v st (cch S)) = key" "ceValue (entryFor key v st (cch S)) = v" by (simp_all add: entryFor_def)
  show ?thesis
  proof (rule finish_cinv [OF inv wok(2,3)])
    show "e \<in> set (contents (cch S)) \<and> ceKey e \<noteq> key \<or>
      fresh (hist S key) (clk S) m (servedSince (Put_finish key v st (cch S)) e) (ceValue e) \<and> ceKey e = key"
      if "e \<in> set (contents (Put_finish key v st (cch S)))" for e
      using that Put_finish_lru [OF lru, of key v st] new val
      by (auto simp: without_def dest!: in_set_takeD split: if_splits)
  qed (use Put_finish_lru [OF lru] in simp_all)
qed

lemma Append_finish_cinv:
  assumes inv: "cinv S" and w: "wr S = WAppendLanded key m"
  shows "cinv (S\<lparr>cch := Append_finish key (cch S), acked := (acked S)(key := m), wr := WIdle\<rparr>)"
proof -
  have lru: "lru_ok (cch S)" using inv by (simp add: cinv_def)
  have wok: "acked S key \<le> m" "m < length (hist S key)" using inv w unfolding cinv_def by (metis writerOk.simps(3))+
  show ?thesis
    by (rule finish_cinv [OF inv wok]) (use Append_finish_lru [OF lru] in \<open>auto simp: without_def\<close>)
qed

lemma cacheStep_cinv:
  assumes "cacheStep S S'" "cinv S"
  shows "cinv S'"
  using assms
proof cases
  case (get i t key)
  then show ?thesis using cacheGetRound_cinv [OF assms(2)] by (simp add: leads_def)
next
  case (fetch i key f start need)
  have r: "fetchOk S key f need" "openOk S key f start" using assms(2) fetch(2) unfolding cinv_def by (metis readerOk.simps(1))+
  have h: "acked S key < length (hist S key)" using assms(2) by (simp add: cinv_def)
  then have "fresh (hist S key) (clk S) (flFloor S f) start (current (hist S key))"
    using r by (intro fresh_current) (auto simp: fetchOk_def openOk_def)
  then show ?thesis using r fetch cinv_reader [OF assms(2), of "RFetched key f start need (current (hist S key))" i]
    by (simp add: leads_def)
next
  case (fetch_panic i key f start need)
  have "fetchOk S key f need" using assms(2) fetch_panic(2) unfolding cinv_def by (metis readerOk.simps(1))
  then show ?thesis using fetch_panic cinv_reader [OF assms(2), of "RDefer key f need None" i] by (simp add: leads_def)
next
  case (fill i key f start need v)
  let ?S = "S\<lparr>cch := lead_fill key f start v (cch S)\<rparr>"
  have r: "fetchOk S key f need" "fresh (hist S key) (clk S) (flFloor S f) start v"
    using assms(2) fill(2) unfolding cinv_def by (metis readerOk.simps(2))+
  then have "newer (hist S key) need v"
    using newer_mono [OF fresh_newer [OF r(2)], of need "[]"] by (simp add: fetchOk_def)
  then show ?thesis
    using r(1) fill cinv_reader [OF fill_cinv [OF assms(2) fill(2)], of "RDefer key f need (Some v)" i]
    by (simp add: leads_def fetchOk_def)
next
  case (detach i key f need r)
  have "readerOk S (RDefer key f need r)" using assms(2) detach(2) unfolding cinv_def by metis
  then show ?thesis
    using detach cinv_reader [OF detach_cinv [OF assms(2) detach(2)], of "RClose key f need r" i]
    by (simp add: leads_def fetchOk_def)
next
  case (close i key f need r)
  have "readerOk S (RClose key f need r)" using assms(2) close(2) unfolding cinv_def by metis
  then show ?thesis
    using close cinv_reader [OF close_cinv [OF assms(2), of f], of "afterClose key need r" i]
    by (simp add: leads_def fetchOk_def afterClose_def split: option.splits)
next
  case (wake i key f need)
  have r: "fetchOk S key f need" using assms(2) wake(2) unfolding cinv_def by (metis readerOk.simps(5))
  then have "flightOk S f" using assms(2) by (simp add: cinv_def fetchOk_def)
  then have "newer (hist S key) (flFloor S f) (fValue (flights (cch S) f))" using r wake(4) by (simp add: flightOk_def fetchOk_def)
  then have "newer (hist S key) need (fValue (flights (cch S) f))"
    using r newer_mono [of "hist S key" "flFloor S f" _ need "[]"] by (simp add: fetchOk_def)
  then show ?thesis using wake cinv_reader [OF assms(2), of "RDone key need (fValue (flights (cch S) f))" i]
    by (simp add: leads_def)
next
  case (retry i key f need t)
  have "fetchOk S key f need" using assms(2) retry(2) unfolding cinv_def by (metis readerOk.simps(5))
  then show ?thesis using retry cacheGetRound_cinv [OF assms(2)] by (simp add: leads_def fetchOk_def)
next
  case (put_start key v)
  then show ?thesis using cinv_writer [OF assms(2)] cacheNow_bounds [of "clk S" "cch S"] assms(2) by (simp add: cinv_def)
next
  case (put_land key v start)
  have w: "0 \<le> start" "start \<le> clk S" using assms(2) put_land(2) unfolding cinv_def by (metis writerOk.simps(1))+
  have "acked S key < length (hist S key)" using assms(2) by (simp add: cinv_def)
  then have "writerOk (landed key v S) (WPutLanded key v start (length (hist S key)))"
    using w fresh_last [of start "clk S" "clk S"] by (simp add: landed_def)
  then show ?thesis using put_land cinv_writer [OF landed_cinv [OF assms(2)]] by simp
next
  case (append_land key v)
  have "acked S key < length (hist S key)" using assms(2) by (simp add: cinv_def)
  then have "writerOk (landed key (current (hist S key) @ v) S) (WAppendLanded key (length (hist S key)))"
    by (simp add: landed_def)
  then show ?thesis using append_land cinv_writer [OF landed_cinv [OF assms(2)]] by simp
next
  case (tick t)
  have g: "grows S S'" using tick by (simp add: grows_def)
  show ?thesis by (rule cinv_grows [OF assms(2) g]) (use assms(2) tick writerOk_grows [OF g] in \<open>auto simp: cinv_def\<close>)
qed (use assms(2) Put_finish_cinv Append_finish_cinv cinv_writer landed_cinv in auto)

definition creach :: "csys \<Rightarrow> csys \<Rightarrow> bool" where
  "creach = cacheStep\<^sup>*\<^sup>*"

lemma cinit_cinv: "cinit opts vals S \<Longrightarrow> cinv S"
proof -
  assume i: "cinit opts vals S"
  then have c: "order (cch S) = []" "entries (cch S) = Map.empty" "inflight (cch S) = Map.empty" "nextFlight (cch S) = 0"
    "1 \<le> capacity (cch S)" "0 \<le> ttl (cch S)"
    by (auto simp: cinit_def NewCache_def dest!: sym [of _ "cch S"] split: if_splits)
  show "cinv S" using i c by (simp add: cinit_def cinv_def lru_ok_def contents_def leads_def)
qed

lemma creach_cinv:
  assumes "cinit opts vals S0" "creach S0 S"
  shows "cinv S"
  using assms(2) cinit_cinv [OF assms(1)] unfolding creach_def by induction (auto intro: cacheStep_cinv)

section \<open>A Get never misses a write the cache acknowledged\<close>

definition about :: "reader \<Rightarrow> (string \<times> nat) option" where
  "about r = (case r of RLead k _ _ n \<Rightarrow> Some (k, n) | RFetched k _ _ n _ \<Rightarrow> Some (k, n) | RDefer k _ n _ \<Rightarrow> Some (k, n)
     | RClose k _ n _ \<Rightarrow> Some (k, n) | RJoin k _ n \<Rightarrow> Some (k, n) | RDone k n _ \<Rightarrow> Some (k, n) | _ \<Rightarrow> None)"

lemma about_cacheGetRound: "about (rds (cacheGetRound i key need t S) i) = Some (key, need)"
  "j \<noteq> i \<Longrightarrow> rds (cacheGetRound i key need t S) j = rds S j"
  by (simp_all add: cacheGetRound_def about_def split: prod.split getOutcome.split)

lemma cacheStep_about:
  assumes "cacheStep S S'" "rds S i = RPanicked \<or> about (rds S i) = Some a"
  shows "rds S' i = RPanicked \<or> about (rds S' i) = Some a"
  using assms
proof cases
  case (get j t key)
  then have "j \<noteq> i" using assms(2) by (auto simp: about_def)
  then show ?thesis using get assms(2) about_cacheGetRound(2) by simp
next
  case (retry j key f need t)
  then show ?thesis using assms(2) about_cacheGetRound by (cases "j = i") (auto simp: about_def)
qed (use assms(2) in \<open>auto simp: about_def afterClose_def landed_def split: option.splits\<close>)

lemma creach_about:
  assumes "creach S S'" "rds S i = RPanicked \<or> about (rds S i) = Some a"
  shows "rds S' i = RPanicked \<or> about (rds S' i) = Some a"
  using assms unfolding creach_def by induction (auto dest: cacheStep_about)

lemma creach_get:
  assumes "creach S0 S1" "rds S1 i = RIdle" "clk S1 \<le> t" "creach (cacheGetRound i key (acked S1 key) t S1) S"
  shows "creach S0 S"
  using assms cacheStep.get [OF assms(2,3), of key] unfolding creach_def by (meson converse_rtranclp_into_rtranclp rtranclp_trans)

text \<open>
  (C36) Read your writes, under every interleaving of readers, writers, fetches that panic, the store's other clients
  and the clock. If a \<open>Get\<close> of a key begins when the last write of this cache to the key that had returned was version
  \<open>acked\<close> of the store's values for the key, and the \<open>Get\<close> returns, then it returns that version or a later one, whether it
  hit, led a fetch, waited for another call's fetch, or retried after one that panicked.
\<close>
theorem cache_reads_own_writes:
  assumes "cinit opts vals S0" "creach S0 S1" "rds S1 i = RIdle" "clk S1 \<le> t"
    and "creach (cacheGetRound i key (acked S1 key) t S1) S" "rds S i = RDone key' need v"
  shows "key' = key \<and> acked S1 key < length (hist S1 key) \<and> v \<in> fst ` set (drop (acked S1 key) (hist S key))"
proof -
  have "about (rds S i) = Some (key, acked S1 key)"
    using creach_about [OF assms(5)] about_cacheGetRound(1) assms(6) by fastforce
  then have k: "key' = key" "need = acked S1 key" using assms(6) by (simp_all add: about_def)
  have "cinv S" using creach_cinv [OF assms(1)] creach_get [OF assms(2-5)] by blast
  then have "readerOk S (rds S i)" by (simp add: cinv_def)
  then have "newer (hist S key) (acked S1 key) v" using k assms(6) by simp
  moreover have "acked S1 key < length (hist S1 key)" using creach_cinv [OF assms(1,2)] by (simp add: cinv_def)
  ultimately show ?thesis using k by (simp add: newer_def)
qed

text \<open>
  (C37) A value other clients have overwritten is served for less than the TTL. With a TTL configured, a hit at instant \<open>now\<close>
  returns a value that was still the store's current one later than \<open>now - TTL\<close>: no version written at or before
  that instant had replaced it.
\<close>
theorem cache_staleness_bound:
  assumes "cinit opts vals S0" "creach S0 S" "0 < ttl (cch S)"
    and "Get_begin key (clk S) t (cch S) = (Hit v, c')"
  shows "\<exists>m < length (hist S key). fst (hist S key ! m) = v \<and>
    (Suc m < length (hist S key) \<longrightarrow> clk S - ttl (cch S) < snd (hist S key ! Suc m))"
proof -
  have inv: "cinv S" using creach_cinv [OF assms(1,2)] .
  then obtain e where e: "e \<in> set (contents (cch S))" "ceKey e = key" "ceValue e = v" "\<not> expiredLocked (clk S) e (cch S)"
    using Get_begin_cases [OF _ assms(4)] by (auto simp: cinv_def)
  have "entryOk S e" using inv e(1) by (simp add: cinv_def)
  then have "fresh (hist S key) (clk S) (acked S key) (ceExpires e - ttl (cch S)) v"
    using e(2,3) assms(3) by (simp add: entryOk_def servedSince_def)
  moreover have "clk S < ceExpires e" using e(4) assms(3) by (simp add: expiredLocked_def)
  ultimately show ?thesis unfolding fresh_def by fastforce
qed

section \<open>No waiter is left behind\<close>

definition served :: "csys \<Rightarrow> nat \<Rightarrow> bool" where
  "served S f \<longleftrightarrow> (\<exists>j. leads (rds S j) = Some f)"

definition waitersOk :: "csys \<Rightarrow> bool" where
  "waitersOk S \<longleftrightarrow> (\<forall>k f. inflight (cch S) k = Some f \<longrightarrow> served S f) \<and>
     (\<forall>i k f n. rds S i = RJoin k f n \<longrightarrow> fDone (flights (cch S) f) \<or> served S f) \<and>
     (\<forall>i k f n r k'. rds S i = RClose k f n r \<longrightarrow> inflight (cch S) k' \<noteq> Some f)"

text \<open>A call that goes on leading its fetch, or another call's change, leaves the leaders as they are.\<close>

lemma served_upd:
  assumes "served S f" "leads r = leads (rds S i) \<or> leads (rds S i) \<noteq> Some f" "rds S' = (rds S)(i := r)"
  shows "served S' f"
proof -
  obtain j where j: "leads (rds S j) = Some f" using assms(1) by (auto simp: served_def)
  show ?thesis
  proof (cases "j = i")
    case True
    then show ?thesis using assms(2,3) j by (auto simp: served_def intro: exI [of _ i])
  next
    case False
    then show ?thesis using assms(3) j by (auto simp: served_def intro: exI [of _ j])
  qed
qed

lemma waiters_upd:
  assumes w: "waitersOk S" and r: "rds S' = (rds S)(i := r)" "leads r = leads (rds S i)"
    and i: "\<And>k f. inflight (cch S') k = Some f \<Longrightarrow> inflight (cch S) k = Some f"
    and d: "\<And>f. fDone (flights (cch S) f) \<Longrightarrow> fDone (flights (cch S') f)"
    and j: "\<And>k f n. r = RJoin k f n \<Longrightarrow> fDone (flights (cch S') f) \<or> served S f"
    and c: "\<And>k f n x k'. r = RClose k f n x \<Longrightarrow> inflight (cch S') k' \<noteq> Some f"
  shows "waitersOk S'"
proof -
  have sv: "served S f \<Longrightarrow> served S' f" for f using served_upd [OF _ _ r(1)] r(2) by blast
  show ?thesis unfolding waitersOk_def
  proof (intro conjI allI impI)
    show "served S' f" if "inflight (cch S') k = Some f" for k f
      using w i [OF that] sv unfolding waitersOk_def by blast
    show "fDone (flights (cch S') f) \<or> served S' f" if "rds S' a = RJoin k f n" for a k f n
    proof (cases "a = i")
      case True
      then show ?thesis using that j [of k f n] sv [of f] r(1) by auto
    next
      case False
      then have "rds S a = RJoin k f n" using that r(1) by simp
      then have "fDone (flights (cch S) f) \<or> served S f" using w unfolding waitersOk_def by blast
      then show ?thesis using d [of f] sv [of f] by blast
    qed
    show "inflight (cch S') k' \<noteq> Some f" if "rds S' a = RClose k f n x" for a k f n x k'
    proof (cases "a = i")
      case True
      then show ?thesis using that c [of k f n x k'] r(1) by simp
    next
      case False
      then have "inflight (cch S) k' \<noteq> Some f" using that w r(1) unfolding waitersOk_def by (metis fun_upd_apply)
      then show ?thesis using i by blast
    qed
  qed
qed

lemma cacheGetRound_waiters:
  assumes inv: "cinv S" and w: "waitersOk S" and idle: "leads (rds S i) = None"
  shows "waitersOk (cacheGetRound i key need t S)"
proof -
  obtain r c where g: "Get_begin key (clk S) t (cch S) = (r, c)" by (cases "Get_begin key (clk S) t (cch S)")
  have lru: "lru_ok (cch S)" using inv by (simp add: cinv_def)
  note b = Get_begin_cases [OF lru g]
  show ?thesis
  proof (cases r)
    case (Hit v)
    show ?thesis by (rule waiters_upd [OF w, of _ i "RDone key need v"]) (use g Hit b idle in \<open>auto simp: cacheGetRound_def leads_def\<close>)
  next
    case (Join f)
    have "served S f" using w b Join unfolding waitersOk_def by (simp only: getOutcome.case) blast
    then show ?thesis
      by (intro waiters_upd [OF w, of _ i "RJoin key f need"]) (use g Join b idle in \<open>auto simp: cacheGetRound_def leads_def\<close>)
  next
    case (Lead f st)
    let ?S = "cacheGetRound i key need t S"
    have S: "rds ?S = (rds S)(i := RLead key f st need)" "cch ?S = c" using g Lead by (simp_all add: cacheGetRound_def)
    have lt: "f' \<noteq> f" if "rds S a = RJoin k f' n \<or> rds S a = RClose k f' n x" for a k f' n x
    proof -
      have "readerOk S (rds S a)" using inv by (simp add: cinv_def)
      then show ?thesis using that b Lead by (auto simp: fetchOk_def)
    qed
    have sv: "served S f' \<Longrightarrow> served ?S f'" for f' using served_upd [OF _ _ S(1)] idle by auto
    have new: "served ?S f" unfolding served_def S(1) by (rule exI [of _ i]) (simp add: leads_def)
    show ?thesis unfolding waitersOk_def
    proof (intro conjI allI impI)
      show "served ?S f'" if "inflight (cch ?S) k = Some f'" for k f'
        using that b Lead w new sv unfolding S(2) waitersOk_def by (auto split: if_splits)
      show "fDone (flights (cch ?S) f') \<or> served ?S f'" if a: "rds ?S a = RJoin k f' n" for a k f' n
      proof -
        have "rds S a = RJoin k f' n" using a by (auto simp: S(1) split: if_splits)
        then have "f' \<noteq> f" "fDone (flights (cch S) f') \<or> served S f'" using lt [of a k f' n] w unfolding waitersOk_def by blast+
        then show ?thesis using b Lead sv by (auto simp: S(2))
      qed
      show "inflight (cch ?S) k' \<noteq> Some f'" if a: "rds ?S a = RClose k f' n x" for a k f' n x k'
      proof -
        have "rds S a = RClose k f' n x" using a by (auto simp: S(1) split: if_splits)
        then have "f' \<noteq> f" "inflight (cch S) k' \<noteq> Some f'" using lt [of a k f' n x] w unfolding waitersOk_def by blast+
        then show ?thesis using b Lead by (auto simp: S(2))
      qed
    qed
  qed
qed

lemma waitersOk_frame:
  assumes "waitersOk S" "rds S' = rds S" "\<And>k f. inflight (cch S') k = Some f \<Longrightarrow> inflight (cch S) k = Some f"
    "\<And>f. fDone (flights (cch S) f) \<Longrightarrow> fDone (flights (cch S') f)"
  shows "waitersOk S'"
proof (rule waiters_upd [OF assms(1), of _ 0 "rds S 0"])
  show "\<And>k f n. rds S 0 = RJoin k f n \<Longrightarrow> fDone (flights (cch S') f) \<or> served S f"
    using assms(1,4) unfolding waitersOk_def by blast
  show "\<And>k f n x k'. rds S 0 = RClose k f n x \<Longrightarrow> inflight (cch S') k' \<noteq> Some f"
    using assms(1,3) unfolding waitersOk_def by blast
qed (use assms in auto)

lemma close_waiters:
  assumes inv: "cinv S" and w: "waitersOk S" and i: "rds S i = RClose key f need r"
  shows "waitersOk (S\<lparr>cch := lead_close f (cch S), rds := (rds S)(i := afterClose key need r)\<rparr>)" (is "waitersOk ?S")
proof -
  have sv: "served ?S f'" if "served S f'" "f' \<noteq> f" for f'
    by (rule served_upd [OF that(1), of "afterClose key need r" i]) (use that(2) i in \<open>auto simp: leads_def\<close>)
  have old: "rds S a = q" if "rds ?S a = q" "\<And>k n v. q \<noteq> RDone k n v" "q \<noteq> RPanicked" for a q
    using that by (auto simp: afterClose_def split: if_splits option.splits)
  show ?thesis unfolding waitersOk_def
  proof (intro conjI allI impI)
    show "served ?S f'" if "inflight (cch ?S) k = Some f'" for k f'
    proof -
      have a: "inflight (cch S) k = Some f'" using that by simp
      then have "f' \<noteq> f" using w i unfolding waitersOk_def by metis
      then show ?thesis using sv a w unfolding waitersOk_def by blast
    qed
    show "fDone (flights (cch ?S) f') \<or> served ?S f'" if "rds ?S a = RJoin k f' n" for a k f' n
    proof (cases "f' = f")
      case False
      have "rds S a = RJoin k f' n" using old [OF that] by simp
      then have "fDone (flights (cch S) f') \<or> served S f'" using w unfolding waitersOk_def by blast
      then show ?thesis using sv [OF _ False] False by auto
    qed simp
    show "inflight (cch ?S) k' \<noteq> Some f'" if "rds ?S a = RClose k f' n x" for a k f' n x k'
    proof -
      have "rds S a = RClose k f' n x" using old [OF that] by simp
      then have "inflight (cch S) k' \<noteq> Some f'" using w unfolding waitersOk_def by blast
      then show ?thesis by simp
    qed
  qed
qed

lemma detach_waiters:
  assumes inv: "cinv S" and w: "waitersOk S" and i: "rds S i = RDefer key f need r"
  shows "waitersOk (S\<lparr>cch := lead_detach key f (cch S), rds := (rds S)(i := RClose key f need r)\<rparr>)"
proof (rule waiters_upd [OF w, of _ i "RClose key f need r"])
  have "inflight (cch S) k' \<noteq> Some f" if "k' \<noteq> key" for k'
  proof
    assume "inflight (cch S) k' = Some f"
    then have "flKey S f = k'" using inv by (simp add: cinv_def attachedOk_def)
    moreover have "readerOk S (RDefer key f need r)" using inv i unfolding cinv_def by metis
    ultimately show False using that by (simp add: fetchOk_def)
  qed
  then have "inflight (lead_detach key f (cch S)) k' \<noteq> Some f" for k' by (cases "k' = key") auto
  then show "inflight (cch (S\<lparr>cch := lead_detach key f (cch S), rds := (rds S)(i := RClose key f need r)\<rparr>)) k' \<noteq> Some f'"
    if "RClose key f need r = RClose k f' n x" for k f' n x k'
    using that by (simp del: detach_close_frame(6))
qed (use i in \<open>auto simp: leads_def split: if_splits\<close>)

lemma cacheStep_waiters:
  assumes "cacheStep S S'" "cinv S" "waitersOk S"
  shows "waitersOk S'"
  using assms(1)
proof cases
  case (get i t key)
  then show ?thesis using cacheGetRound_waiters [OF assms(2,3)] by (simp add: leads_def)
next
  case (retry i key f need t)
  then show ?thesis using cacheGetRound_waiters [OF assms(2,3)] by (simp add: leads_def)
next
  case (fetch i key f start need)
  then show ?thesis by (intro waiters_upd [OF assms(3), of _ i "RFetched key f start need (current (hist S key))"]) (auto simp: leads_def)
next
  case (fetch_panic i key f start need)
  then show ?thesis by (intro waiters_upd [OF assms(3), of _ i "RDefer key f need None"]) (auto simp: leads_def)
next
  case (fill i key f start need v)
  then show ?thesis by (intro waiters_upd [OF assms(3), of _ i "RDefer key f need (Some v)"]) (auto simp: leads_def)
next
  case (wake i key f need)
  then show ?thesis
    by (intro waiters_upd [OF assms(3), of _ i "RDone key need (fValue (flights (cch S) f))"]) (auto simp: leads_def)
next
  case (put_finish key v start m)
  then show ?thesis by (intro waitersOk_frame [OF assms(3)]) (auto simp: marked_stale split: if_splits)
next
  case (append_finish key m)
  then show ?thesis by (intro waitersOk_frame [OF assms(3)]) (auto simp: marked_stale split: if_splits)
next
  case (detach i key f need r)
  then show ?thesis using detach_waiters [OF assms(2,3)] by simp
next
  case (close i key f need r)
  then show ?thesis using close_waiters [OF assms(2,3)] by simp
qed (auto intro!: waitersOk_frame [OF assms(3)] simp: landed_def)

lemma creach_waiters:
  assumes "cinit opts vals S0" "creach S0 S"
  shows "waitersOk S"
proof -
  have "waitersOk S0" using assms(1) by (auto simp: cinit_def NewCache_def waitersOk_def dest!: sym [of _ "cch S0"] split: if_splits)
  with assms(2) cinit_cinv [OF assms(1)] have "cinv S \<and> waitersOk S"
    unfolding creach_def by induction (auto intro: cacheStep_cinv cacheStep_waiters)
  then show ?thesis ..
qed

text \<open>
  (C38) No \<open>Get\<close> waits for a fetch that nobody runs. Whenever a call waits for a fetch whose channel is still open, exactly one
  other call leads that fetch, and that call can take its next step at once: ask the store, record its answer, leave
  the map or close the channel.
\<close>
theorem cache_waiter_has_leader:
  assumes "cinit opts vals S0" "creach S0 S" "rds S i = RJoin key f need" "\<not> fDone (flights (cch S) f)"
  shows "\<exists>!j. j \<noteq> i \<and> leads (rds S j) = Some f \<and> (\<exists>S'. cacheStep S S' \<and> rds S' j \<noteq> rds S j)"
proof -
  have "served S f" using creach_waiters [OF assms(1,2)] assms(3,4) unfolding waitersOk_def by blast
  then obtain j where j: "leads (rds S j) = Some f" by (auto simp: served_def)
  have "j \<noteq> i" using j assms(3) by (auto simp: leads_def)
  moreover have "\<exists>S'. cacheStep S S' \<and> rds S' j \<noteq> rds S j"
  proof (cases "rds S j")
    case (RLead k f' st n)
    then show ?thesis using cacheStep.fetch [OF RLead] by force
  next
    case (RFetched k f' st n v)
    then show ?thesis using cacheStep.fill [OF RFetched] by force
  next
    case (RDefer k f' n r)
    then show ?thesis using cacheStep.detach [OF RDefer] by force
  next
    case (RClose k f' n r)
    have "afterClose k n r \<noteq> rds S j" by (simp add: afterClose_def RClose split: option.split)
    then show ?thesis using cacheStep.close [OF RClose] by force
  qed (use j in \<open>auto simp: leads_def\<close>)
  moreover have "j' = j" if "leads (rds S j') = Some f" for j'
    using creach_cinv [OF assms(1,2)] j that unfolding cinv_def by blast
  ultimately show ?thesis using j by blast
qed

section \<open>Concrete runs\<close>

definition oneSlot :: Options where
  "oneSlot = \<lparr>optCapacity = 1, optTTL = 10, optWritePolicy = WriteThrough\<rparr>"

definition csys0 :: csys where
  "csys0 = \<lparr>cch = \<lparr>capacity = 1, ttl = 10, policy = WriteThrough, entries = Map.empty,
       nodes = (\<lambda>_. \<lparr>ceKey = '''', ceValue = '''', ceExpires = 0\<rparr>), order = [], nextNode = 0,
       inflight = Map.empty, flights = (\<lambda>_. newFlight), nextFlight = 0, stats = zeroStats\<rparr>,
     hist = (\<lambda>k. [('''', 0)]), clk = 0, acked = (\<lambda>_. 0), wr = WIdle, rds = (\<lambda>_. RIdle),
     flKey = (\<lambda>_. ''''), flFloor = (\<lambda>_. 0)\<rparr>"

lemma csys0_init: "cinit oneSlot (\<lambda>_. '''') csys0"
  by (simp add: cinit_def csys0_def NewCache_def oneSlot_def)

text \<open>The key is written through the cache, and then another client overwrites it.\<close>

definition csys1 :: csys where
  "csys1 = csys0\<lparr>wr := WPut ''a'' ''1'' (cacheNow (clk csys0) (cch csys0))\<rparr>"

definition csys2 :: csys where
  "csys2 = (landed ''a'' ''1'' csys1)\<lparr>wr := WPutLanded ''a'' ''1'' 0 (length (hist csys1 ''a''))\<rparr>"

definition csys3 :: csys where
  "csys3 = csys2\<lparr>cch := Put_finish ''a'' ''1'' 0 (cch csys2), acked := (acked csys2)(''a'' := 1), wr := WIdle\<rparr>"

definition csys4 :: csys where
  "csys4 = landed ''a'' ''2'' (csys3\<lparr>clk := 4\<rparr>)"

lemmas csys_defs = csys0_def csys1_def csys2_def csys3_def csys4_def landed_def Put_finish_def markStaleLocked_def
  insertLocked_def evictOldest_def cacheNow_def Let_def

lemma csys4_reach: "creach csys0 csys4"
proof -
  have "cacheStep csys0 csys1" unfolding csys1_def by (rule cacheStep.put_start) (simp add: csys0_def)
  moreover have "cacheStep csys1 csys2" unfolding csys2_def
    by (rule cacheStep.put_land) (simp add: csys1_def csys0_def cacheNow_def)
  moreover have "cacheStep csys2 csys3" unfolding csys3_def by (rule cacheStep.put_finish) (simp add: csys_defs)
  moreover have "cacheStep csys3 (csys3\<lparr>clk := 4\<rparr>)" by (rule cacheStep.tick) (simp add: csys_defs)
  moreover have "cacheStep (csys3\<lparr>clk := 4\<rparr>) csys4" unfolding csys4_def by (rule cacheStep.other_write)
  ultimately show ?thesis unfolding creach_def by (meson rtranclp.rtrancl_into_rtrancl rtranclp.rtrancl_refl)
qed

lemma csys4_hit: "fst (Get_begin ''a'' 4 5 (cch csys4)) = Hit ''1''" "clk csys4 = 4" "rds csys4 0 = RIdle" "acked csys4 ''a'' = 1"
  "hist csys4 ''a'' = [('''', 0), (''1'', 0), (''2'', 4)]" "ttl (cch csys4) = 10"
  by (simp_all add: csys_defs Get_begin_def expiredLocked_def moveToFront_def)

theorem cache_reads_own_writes_witness:
  "rds (cacheGetRound 0 ''a'' (acked csys4 ''a'') 5 csys4) 0 = RDone ''a'' 1 ''1'' \<and>
   ''1'' \<in> fst ` set (drop (acked csys4 ''a'') (hist csys4 ''a''))"
proof -
  have h: "rds (cacheGetRound 0 ''a'' (acked csys4 ''a'') 5 csys4) 0 = RDone ''a'' 1 ''1''"
    "hist (cacheGetRound 0 ''a'' (acked csys4 ''a'') 5 csys4) = hist csys4"
    using csys4_hit by (auto simp: cacheGetRound_def split: prod.splits)
  show ?thesis
    using cache_reads_own_writes [OF csys0_init csys4_reach csys4_hit(3), of 5 "''a''" "cacheGetRound 0 ''a'' (acked csys4 ''a'') 5 csys4" "''a''" 1 "''1''"] h csys4_hit(2)
    by (simp add: creach_def)
qed

theorem cache_staleness_bound_witness:
  "fst (Get_begin ''a'' 4 5 (cch csys4)) = Hit ''1'' \<and>
   (\<exists>m < length (hist csys4 ''a''). fst (hist csys4 ''a'' ! m) = ''1'' \<and>
     (Suc m < length (hist csys4 ''a'') \<longrightarrow> clk csys4 - ttl (cch csys4) < snd (hist csys4 ''a'' ! Suc m)))"
proof -
  have "Get_begin ''a'' (clk csys4) 5 (cch csys4) = (Hit ''1'', snd (Get_begin ''a'' 4 5 (cch csys4)))"
    using csys4_hit by (simp add: prod_eq_iff)
  from cache_staleness_bound [OF csys0_init csys4_reach _ this] csys4_hit(1,6) show ?thesis by simp
qed

text \<open>Two calls miss on the same key; the second waits for the first.\<close>

definition csysJ :: csys where
  "csysJ = cacheGetRound 1 ''a'' 0 0 (cacheGetRound 0 ''a'' 0 0 csys0)"

lemmas csysJ_defs = csysJ_def cacheGetRound_def csys0_def Get_begin_def cacheMiss_def cacheNow_def newFlight_def Let_def

lemma csysJ_reach: "creach csys0 csysJ"
proof -
  have "cacheStep csys0 (cacheGetRound 0 ''a'' 0 0 csys0)"
    using cacheStep.get [of csys0 0 0 "''a''"] by (simp add: csys0_def)
  moreover have "cacheStep (cacheGetRound 0 ''a'' 0 0 csys0) csysJ"
    using cacheStep.get [of "cacheGetRound 0 ''a'' 0 0 csys0" 1 0 "''a''"] by (simp add: csysJ_defs)
  ultimately show ?thesis unfolding creach_def by (meson rtranclp.rtrancl_into_rtrancl rtranclp.rtrancl_refl)
qed

theorem cache_waiter_has_leader_witness:
  "rds csysJ 1 = RJoin ''a'' 0 0 \<and>
   (\<exists>!j. j \<noteq> 1 \<and> leads (rds csysJ j) = Some 0 \<and> (\<exists>S'. cacheStep csysJ S' \<and> rds S' j \<noteq> rds csysJ j))"
proof -
  have j: "rds csysJ 1 = RJoin ''a'' 0 0" "\<not> fDone (flights (cch csysJ) 0)" by (simp_all add: csysJ_defs)
  show ?thesis using j(1) cache_waiter_has_leader [OF csys0_init csysJ_reach j] by blast
qed

end
