(* ===== verification/Spec2Isabelle.thy ===== *)
theory Spec2Isabelle
  imports Transport KV_Cluster Sharded_Client Shard_Clerk Shard_World Auto_Split Cache_Concurrency
begin

text \<open>
  Verification of distsys-lab, a Go implementation of a replicated and sharded key-value store in six stages.

  \<^bold>\<open>The program.\<close> Stage 1 (\<open>src/01-raft\<close>) is the Raft consensus library: nodes elect a leader, replicate a log of commands,
  compact it by snapshots and hand committed commands to a state machine over a channel. Stage 2 (\<open>src/02-kv-store\<close>) is
  a key-value server on top of it, with duplicate suppression per client, and its clerk. Stage 3
  (\<open>src/03-connection-pooling\<close>) puts an elastic pool of connections between client and servers. Stage 4 (\<open>src/04-caching\<close>) is a
  read cache in front of such a client. Stage 5 (\<open>src/05-sharded-kv\<close>) splits the keys into shards: a replicated
  controller keeps the history of configurations, groups of servers poll it, pull the shards they gain from the
  groups that lose them and delete what they gave away, clerks route by a cached configuration, and a checker decides
  whether recorded histories are linearizable. Stage 6 (\<open>src/06-hot-shard-splitting\<close>) replaces the fixed shards by ranges
  of a hash ring that are split and moved under load.

  \<^bold>\<open>How the code is modelled.\<close> A struct is a record with the struct's fields, an enumeration a datatype, a function that
  runs under one lock is one definition from the state before to the state after. A function that releases its lock, waits on
  a channel or makes a call is split there, one definition per locked section, and the possible interleavings are an
  inductive step relation or an event type. Panics and error values are the left side of a sum (\<open>Prelude\<close>). Counters are
  \<open>int\<close>; the hashes, the ring and the bit masks of the checker are machine words. Loops without a bound take fuel, one unit
  per round, and the theorems say which fuel is enough; everything else is total. Time, random numbers, the network, dials and
  the store behind the cache are arguments or events.

  \<^bold>\<open>Theories, by component.\<close>
  \<^item> \<open>Prelude\<close>: Go's failures, slices and maps, majorities, order statistics.
  \<^item> \<open>Raft_Node\<close> (\<open>raft.go\<close>, \<open>rpc.go\<close>, \<open>state.go\<close>, \<open>persist.go\<close>, \<open>commit.go\<close>, \<open>log.go\<close>): the record \<open>Raft\<close>, the three RPC handlers,
    the role transitions, the commit rule, \<open>Propose\<close>. Shown: every branch of \<open>AppendEntries\<close> and exactly when it panics.
  \<^item> \<open>Raft_Loops\<close> (\<open>apply.go\<close>, \<open>snapshot.go\<close>, \<open>log_replication.go\<close>, \<open>election.go\<close>, \<open>election_timer.go\<close>): the background goroutines, and
    \<open>node_step\<close>, all locked sections of a node as events. Shown: the progress markers stay ordered, and after every
    section a restart recovers the persistent state.
  \<^item> \<open>Raft_Commit\<close>: votes within a term, the commit rule against the rule of the Raft paper, delivery of
    committed entries, compaction, one replication exchange; two runs in which the code departs from its comments.
  \<^item> \<open>Raft_Cluster\<close>: all nodes with their election goroutines, lost, delayed and reordered messages, crash and restart. Shown:
    election safety; and that a cluster of one node never has a leader.
  \<^item> \<open>Raft_Logs\<close>, \<open>Raft_Spec\<close>: logs as lists, and an abstract specification of replication on terms, logs, votes and commit indices
    alone (\<open>astep\<close>). Shown: log matching, leader completeness and that what is committed stays committed, by induction on the steps.
  \<^item> \<open>Raft_Replication\<close> (\<open>heartbeat.go\<close>, \<open>log_replication.go\<close>): the cluster with one replication call per peer under way, sent, handled,
    answered or failed (\<open>rstep\<close>). A call that has returned is not handled later; the calls of a crashed node end with it; no
    snapshots are taken. \<open>Raft_Refine\<close>, \<open>Raft_Safety\<close>: the invariant of the whole cluster and the simulation. Shown: every step is
    a sequence of steps of the specification, and so state machine safety over the history of a run: no two state
    machines are given different commands for an index, with crashes, restarts and any number of elections.
  \<^item> \<open>Transport\<close> (\<open>transport.go\<close>, \<open>fake_transport.go\<close>, \<open>net_transport.go\<close>): the locale \<open>raft_transport\<close>, what the nodes rely on, interpreted on
    the in-process and the network transport. Shown: a tick of \<open>RunHeartbeats\<close> or a vote request through either is a run of
    \<open>rstep\<close>; who reaches whom in a partition; that a broken cached connection is never replaced.
  \<^item> \<open>Raft_Persist\<close> (\<open>persister.go\<close>): the file persister as system calls on a disk with volatile and durable contents.
    Shown: what a crash after any prefix of the calls leaves.
  \<^item> \<open>Replicated_Machine\<close>: a locale for state machines with duplicate suppression, interpreted in \<open>KV_Server\<close> and \<open>Ctrler\<close>.
  \<^item> \<open>KV_Server\<close>, \<open>KV_Clerk\<close> (\<open>02-kv-store\<close>): Shown: a replica agrees with an abstract machine over the committed log, what \<open>OK\<close>
    and a read promise, snapshots survive a restart, and a clerk's write takes effect exactly once.
  \<^item> \<open>KV_Cluster\<close>: the two stages together, a server on every node of \<open>Raft_Replication\<close>, with the sections of \<open>PutAppend\<close>, the apply
    loops, the steps of Raft and crashes interleaved (\<open>kstep\<close>). Shown: all servers hold states of one abstract machine over one
    log, and a write that was answered \<open>OK\<close> stays in that log.
  \<^item> \<open>Pool\<close> (\<open>pooled_client.go\<close>): goroutines of the pool as values of \<open>pthread\<close>. Shown: bounds, exclusive use of connections, sends that
    never block; a run that loses the promised minimum. \<open>Pool_Client\<close> (\<open>client.go\<close>, \<open>pooled_client.go\<close>) and \<open>Sharded_Client\<close>
    (\<open>05-sharded-kv/client.go\<close>): the clients above it, on the retry loop of \<open>Retry\<close>. Shown: a write takes effect exactly once, a failed construction
    and \<open>Close\<close> release every connection of distinct addresses, and keys go to the client of their group.
  \<^item> \<open>Cache\<close>, \<open>Cache_Concurrency\<close> (\<open>cache.go\<close>): Shown: refinement of a bounded LRU list; for concurrent readers and writers, read
    your writes, the staleness bound of the TTL, and that no waiter is left without a leader.
  \<^item> \<open>Shard_Config\<close>, \<open>Ctrler\<close>, \<open>Group_Server\<close>, \<open>Retry\<close>, \<open>Shard_Clerk\<close>, \<open>History\<close> (\<open>05-sharded-kv\<close>): Shown: rebalancing is balanced and
    moves least for its targets, the history of configurations is gap-free and well formed, a handed-over shard keeps its data
    and its memory of requests, clerks follow a moved shard, the checker is sound and complete; runs in which
    a shard is deleted, deadlocked or never pulled again, or a clerk is stuck.
  \<^item> \<open>Shard_World\<close>: all groups together over one history of configurations, with lagging replicas and \<open>Migrate\<close> entries that land late
    (\<open>wstep\<close>). Shown: the groups refine one map to which all accepted writes are applied, and at most one of them serves a key, as long as
    no \<open>Migrate\<close> entry lands in a later tenure than it was pulled for and no \<open>GC\<close> entry deletes a shard that nobody took over; and runs of the
    code in which each of these happens.
  \<^item> \<open>Ring\<close>, \<open>Ring_Ctrler\<close>, \<open>Auto_Split\<close> (\<open>06-hot-shard-splitting\<close>): Shown: the binary search finds the owner of a point, a split is
    local, the controller's history, detection of hot shards and one step of the splitter through the clerk; a run in which
    an overtaken request is lost.

  \<^bold>\<open>Not modelled.\<close> The serving of RPCs (\<open>03-connection-pooling/server.go\<close>) is socket I/O around
  the handlers modelled here; \<open>internal/kvtest\<close> is test scaffolding. Encoding with gob is the identity on what it encodes.
  Errors of closing a connection and of the file system are left out. The safety of replication is shown for clusters that do not compact; with
  snapshots an entry can be delivered before the snapshot it follows, and a call that is handled after it failed can remove a committed
  entry (\<open>Raft_Commit\<close> has both runs).
  The percentage threshold of \<open>DetectHot\<close> is computed over the rationals where the code uses floating point. Stages 7 to 10 have
  no code yet.
\<close>

end
